(* ===== verification/Prelude.thy ===== *)
theory Prelude
  imports Main "HOL-Library.Word"
begin

text \<open>
  What the components share: the machine types of the code, the ways an operation can fail to
  return, the sequencing of operations that may fail, and generic facts on lists and words.

  The model passes state explicitly. An operation of the code that can end the process, throw, or
  run into undefined behaviour returns a \<open>result\<close>: \<open>Inl\<close> of the fault, or \<open>Inr\<close> of the new
  state. \<open>andThen\<close> is the semicolon between two such operations.
\<close>

type_synonym byte = "8 word"
type_synonym size_t = "64 word"
type_synonym uint32 = "32 word"
type_synonym fd = int
type_synonym errno = int

text \<open>
  \<^item> \<open>ExitFailure\<close>: the process ended in \<open>std::exit(EXIT_FAILURE)\<close>, which every LOG_FATAL calls;
  \<^item> \<open>Terminate\<close>: an exception left a \<open>noexcept\<close> function, so \<open>std::terminate\<close> ran;
  \<^item> \<open>LengthError\<close>: a \<open>std::vector\<close> was asked for more than \<open>max_size()\<close> elements;
  \<^item> \<open>BadFunctionCall\<close>: an empty \<open>std::function\<close> was called;
  \<^item> \<open>Killed\<close>: the process got a SIGPIPE, whose default action ends it;
  \<^item> \<open>Undefined\<close>: the C++ standard gives the execution no meaning (a null or dangling pointer is
    dereferenced, a copy runs outside its array).
\<close>

datatype fault = ExitFailure | Terminate | LengthError | BadFunctionCall | Killed | Undefined

type_synonym 'a result = "fault + 'a"

definition andThen :: "'e + 'a \<Rightarrow> ('a \<Rightarrow> 'e + 'b) \<Rightarrow> 'e + 'b" where
  "andThen r f = (case r of Inl e \<Rightarrow> Inl e | Inr a \<Rightarrow> f a)"

text \<open>A result that is a state, and one that satisfies \<open>P\<close>.\<close>

definition returns :: "'e + 'a \<Rightarrow> ('a \<Rightarrow> bool) \<Rightarrow> bool" where
  "returns r P = (case r of Inl e \<Rightarrow> False | Inr a \<Rightarrow> P a)"

text \<open>A \<open>noexcept\<close> function turns an exception that would leave it into termination.\<close>

fun noexcept :: "'a result \<Rightarrow> 'a result" where
  "noexcept (Inl LengthError) = Inl Terminate"
| "noexcept (Inl BadFunctionCall) = Inl Terminate"
| "noexcept r = r"

lemma andThen_simps [simp]:
  "andThen (Inl e) f = Inl e"
  "andThen (Inr a) f = f a"
  by (simp_all add: andThen_def)

lemma andThen_Inr_iff: "andThen r f = Inr b \<longleftrightarrow> (\<exists>a. r = Inr a \<and> f a = Inr b)"
  by (cases r) auto

lemma andThen_assoc: "andThen (andThen r f) g = andThen r (\<lambda>a. andThen (f a) g)"
  by (cases r) auto

lemma andThen_cong [fundef_cong]:
  "r = r' \<Longrightarrow> (\<And>a. r' = Inr a \<Longrightarrow> f a = f' a) \<Longrightarrow> andThen r f = andThen r' f'"
  by (cases r') auto

lemma returns_simps [simp]:
  "returns (Inl e) P = False"
  "returns (Inr a) P = P a"
  by (simp_all add: returns_def)

lemma returns_iff: "returns r P \<longleftrightarrow> (\<exists>a. r = Inr a \<and> P a)"
  by (cases r) auto

lemma returns_mono: "returns r P \<Longrightarrow> (\<And>a. P a \<Longrightarrow> Q a) \<Longrightarrow> returns r Q"
  by (cases r) auto

lemma returns_andThen [intro]:
  "returns r P \<Longrightarrow> (\<And>a. P a \<Longrightarrow> returns (f a) Q) \<Longrightarrow> returns (andThen r f) Q"
  by (cases r) auto

lemma noexcept_returns [simp]: "returns (noexcept r) P = returns r P"
  by (cases r rule: noexcept.cases) auto

lemma noexcept_Inr [simp]: "noexcept r = Inr a \<longleftrightarrow> r = Inr a"
  by (cases r rule: noexcept.cases) auto

text \<open>A result that is not undefined behaviour, and satisfies \<open>P\<close> if it is a state.\<close>

definition defined :: "'a result \<Rightarrow> ('a \<Rightarrow> bool) \<Rightarrow> bool" where
  "defined r P = (case r of Inl e \<Rightarrow> e \<noteq> Undefined | Inr a \<Rightarrow> P a)"

lemma defined_simps [simp]:
  "defined (Inl e) P \<longleftrightarrow> e \<noteq> Undefined"
  "defined (Inr a) P \<longleftrightarrow> P a"
  by (simp_all add: defined_def)

lemma defined_mono: "defined r P \<Longrightarrow> (\<And>a. P a \<Longrightarrow> Q a) \<Longrightarrow> defined r Q"
  by (cases r) auto

lemma defined_andThen: "defined r P \<Longrightarrow> (\<And>a. P a \<Longrightarrow> defined (f a) Q) \<Longrightarrow> defined (andThen r f) Q"
  by (cases r) auto

lemma defined_noexcept [simp]: "defined (noexcept r) P = defined r P"
  by (cases r rule: noexcept.cases) auto

lemma returns_defined: "returns r P \<Longrightarrow> defined r P"
  by (cases r) auto

subsection \<open>Arrays\<close>

text \<open>
  Writing a run of bytes into an array: outside the array it is undefined behaviour.
\<close>

definition store_at :: "nat \<Rightarrow> 'a list \<Rightarrow> 'a list \<Rightarrow> 'a list result" where
  "store_at i d xs =
     (if i + length d \<le> length xs
      then Inr (take i xs @ d @ drop (i + length d) xs) else Inl Undefined)"

text \<open>The part of an array between two indices.\<close>

definition segment :: "nat \<Rightarrow> nat \<Rightarrow> 'a list \<Rightarrow> 'a list" where
  "segment i j xs = take (j - i) (drop i xs)"

lemma length_segment: "j \<le> length xs \<Longrightarrow> length (segment i j xs) = j - i"
  by (simp add: segment_def)

lemma segment_same [simp]: "segment i i xs = []"
  by (simp add: segment_def)

lemma segment_prefix: "i + n \<le> j \<Longrightarrow> take n (segment i j xs) = segment i (i + n) xs"
  by (simp add: segment_def min_def)

lemma segment_suffix: "drop n (segment i j xs) = segment (i + n) j xs"
  by (simp add: segment_def drop_take add.commute diff_diff_add)

lemma segment_append_left: "j \<le> length xs \<Longrightarrow> segment i j (xs @ ys) = segment i j xs"
  by (simp add: segment_def)

lemma segment_store_after:
  assumes "i \<le> j" "j + length d \<le> length xs"
  shows "segment i (j + length d) (take j xs @ d @ drop (j + length d) xs) = segment i j xs @ d"
proof -
  have "length (take j xs) = j" using assms by simp
  then have "segment i (j + length d) (take j xs @ d @ drop (j + length d) xs)
      = drop i (take j xs @ d)"
    using assms by (simp add: segment_def take_drop)
  also have "\<dots> = segment i j xs @ d"
    using assms by (simp add: segment_def drop_take)
  finally show ?thesis .
qed

lemma segment_store_at:
  assumes "k + length d \<le> length xs"
  shows "segment k (k + length d) (take k xs @ d @ drop (k + length d) xs) = d"
  using assms by (simp add: segment_def min_def)

lemma length_store:
  "k + length d \<le> length xs \<Longrightarrow> length (take k xs @ d @ drop (k + length d) xs) = length xs"
  by simp

subsection \<open>Words read as natural numbers\<close>

named_theorems unats \<open>facts that read unsigned word arithmetic as arithmetic on nat\<close>

lemma unat_of_nat_size: "n < 2 ^ 64 \<Longrightarrow> unat (of_nat n :: size_t) = n"
  by (simp add: unat_of_nat take_bit_nat_eq_self)

lemma unat_of_nat_le: "unat (of_nat n :: size_t) \<le> n"
  by (simp add: unat_of_nat take_bit_nat_less_eq_self)

lemma unat_plus_size: "unat (a :: size_t) + unat b < 2 ^ 64 \<Longrightarrow> unat (a + b) = unat a + unat b"
  by (simp add: unat_word_ariths)

lemma unat_minus_size: "unat (b :: size_t) \<le> unat a \<Longrightarrow> unat (a - b) = unat a - unat b"
  by (simp add: unat_sub word_le_nat_alt)

lemma unat_min: "unat (min a b) = min (unat a) (unat (b :: 'a::len word))"
  by (simp add: min_def word_le_nat_alt)

lemma unat_increment:
  assumes "x + 1 \<noteq> (0 :: uint32)"
  shows "unat (x + 1) = Suc (unat x)"
proof -
  have "unat x + 1 \<noteq> 2 ^ 32"
  proof
    assume "unat x + 1 = 2 ^ 32"
    then have "unat (x + 1) = 0" by (simp add: unat_word_ariths)
    then show False using assms by (simp add: unat_eq_zero)
  qed
  moreover have "unat x < 2 ^ 32" using unsigned_less [of x] by simp
  ultimately have "unat x + 1 < 2 ^ 32" by simp
  then show ?thesis by (simp add: unat_word_ariths)
qed

lemmas unat_order = word_le_nat_alt word_less_nat_alt word_unat_eq_iff

declare unat_of_nat_size [unats] unat_plus_size [unats] unat_minus_size [unats] unat_min [unats]

end
