(* ===== verification/Os.thy ===== *)
theory Os
  imports Prelude
begin

text \<open>
  The operating system the code calls. It is not part of the repository, so it is a parameter of the
  model: a record of functions over an abstract kernel state \<open>'k\<close>, one per system call the code makes,
  each with the result the manual page documents. A definition that makes a system call takes the
  record as its argument \<open>os\<close>. What a property needs of the kernel is a named hypothesis
  (\<open>epoll_contract\<close> and the ones below).
\<close>

type_synonym cid = nat \<comment> \<open>the address of a Channel\<close>
type_synonym lid = nat \<comment> \<open>the address of an EventLoop\<close>
type_synonym conn = nat \<comment> \<open>the address of a TcpConnection\<close>
type_synonym tid = int \<comment> \<open>a thread id\<close>
type_synonym timestamp = int \<comment> \<open>the microseconds of a Timestamp\<close>

datatype ctl_op = CtlAdd | CtlMod | CtlDel

text \<open>An IPv4 socket address: port and address in network byte order, as in \<open>sockaddr_in\<close>.\<close>

record sockaddr =
  sin_port :: "16 word"
  sin_addr :: "32 word"

datatype sock_option = TcpNoDelay | ReuseAddr | ReusePort | KeepAlive

record 'k os =
  sys_epoll_create :: "'k \<Rightarrow> (errno + fd) \<times> 'k"
  sys_epoll_ctl :: "fd \<Rightarrow> ctl_op \<Rightarrow> fd \<Rightarrow> uint32 \<Rightarrow> cid \<Rightarrow> 'k \<Rightarrow> errno option \<times> 'k"
  sys_epoll_wait :: "fd \<Rightarrow> nat \<Rightarrow> int \<Rightarrow> 'k \<Rightarrow> (errno + (uint32 \<times> cid) list) \<times> 'k"
  sys_eventfd :: "'k \<Rightarrow> (errno + fd) \<times> 'k"
  sys_eventfd_read :: "fd \<Rightarrow> 'k \<Rightarrow> 'k"
  sys_eventfd_write :: "fd \<Rightarrow> 'k \<Rightarrow> 'k"
  sys_readv :: "fd \<Rightarrow> size_t list \<Rightarrow> 'k \<Rightarrow> (errno + byte list) \<times> 'k"
  sys_write :: "fd \<Rightarrow> byte list \<Rightarrow> 'k \<Rightarrow> (errno + size_t) \<times> 'k"
  sys_shutdown_wr :: "fd \<Rightarrow> 'k \<Rightarrow> errno option \<times> 'k"
  sys_close :: "fd \<Rightarrow> 'k \<Rightarrow> 'k"
  sys_socket :: "'k \<Rightarrow> (errno + fd) \<times> 'k"
  sys_bind :: "fd \<Rightarrow> sockaddr \<Rightarrow> 'k \<Rightarrow> errno option \<times> 'k"
  sys_listen :: "fd \<Rightarrow> int \<Rightarrow> 'k \<Rightarrow> errno option \<times> 'k"
  sys_accept :: "fd \<Rightarrow> 'k \<Rightarrow> (errno + fd \<times> sockaddr) \<times> 'k"
  sys_setsockopt :: "fd \<Rightarrow> sock_option \<Rightarrow> bool \<Rightarrow> 'k \<Rightarrow> errno option \<times> 'k"
  sys_getsockopt_error :: "fd \<Rightarrow> 'k \<Rightarrow> (errno + errno) \<times> 'k"
  sys_getsockname :: "fd \<Rightarrow> 'k \<Rightarrow> (errno + sockaddr) \<times> 'k"
  sys_now :: "'k \<Rightarrow> timestamp \<times> 'k"
  sigpipe_ignored :: bool

text \<open>
  A \<open>write\<close> to a socket whose peer is gone fails with EPIPE, and raises SIGPIPE first: the process only sees the error
  if it ignores the signal. The disposition of the signal is inherited, and nothing in the repository sets it, so it is
  a field of the parameter.
\<close>

definition EPIPE :: errno where "EPIPE = 32"

definition broken_pipe :: "'k os \<Rightarrow> errno \<Rightarrow> bool" where
  "broken_pipe os e \<longleftrightarrow> e = EPIPE \<and> \<not> sigpipe_ignored os"

text \<open>
  The contract of \<open>epoll_ctl(2)\<close>. \<open>ep k e\<close> is the interest list of the epoll instance \<open>e\<close>: the
  registered descriptors with their event mask and user data. ADD of a registered descriptor and MOD
  or DEL of an unregistered one fail; a failing call changes nothing; DEL of a registered one
  succeeds; a legal ADD or MOD may still fail for lack of resources.
\<close>

type_synonym 'k interest = "'k \<Rightarrow> fd \<Rightarrow> fd \<Rightarrow> (uint32 \<times> cid) option"

definition ctl_effect :: "ctl_op \<Rightarrow> fd \<Rightarrow> uint32 \<Rightarrow> cid \<Rightarrow> (fd \<Rightarrow> (uint32 \<times> cid) option) \<Rightarrow>
    (fd \<Rightarrow> (uint32 \<times> cid) option)" where
  "ctl_effect op f ev c m = (case op of CtlDel \<Rightarrow> m(f := None) | _ \<Rightarrow> m(f := Some (ev, c)))"

definition ctl_legal :: "ctl_op \<Rightarrow> fd \<Rightarrow> (fd \<Rightarrow> (uint32 \<times> cid) option) \<Rightarrow> bool" where
  "ctl_legal op f m = (case op of CtlAdd \<Rightarrow> m f = None | _ \<Rightarrow> m f \<noteq> None)"

definition epoll_contract :: "'k os \<Rightarrow> 'k interest \<Rightarrow> bool" where
  "epoll_contract os ep \<longleftrightarrow>
     (\<forall>e op f ev c k. let (r, k') = sys_epoll_ctl os e op f ev c k in
        (r = None \<longrightarrow> ctl_legal op f (ep k e) \<and> ep k' = (ep k)(e := ctl_effect op f ev c (ep k e))) \<and>
        (r \<noteq> None \<longrightarrow> ep k' = ep k) \<and>
        (op = CtlDel \<and> ctl_legal op f (ep k e) \<longrightarrow> r = None))"

text \<open>Enough resources: every legal call succeeds.\<close>

definition epoll_resources :: "'k os \<Rightarrow> 'k interest \<Rightarrow> bool" where
  "epoll_resources os ep \<longleftrightarrow>
     (\<forall>e op f ev c k. ctl_legal op f (ep k e) \<longrightarrow> fst (sys_epoll_ctl os e op f ev c k) = None)"

text \<open>The other calls of the connection path leave the interest lists alone.\<close>

definition io_keeps_interest :: "'k os \<Rightarrow> 'k interest \<Rightarrow> bool" where
  "io_keeps_interest os ep \<longleftrightarrow>
     (\<forall>f d k. ep (snd (sys_write os f d k)) = ep k) \<and>
     (\<forall>f v k. ep (snd (sys_readv os f v k)) = ep k) \<and>
     (\<forall>f k. ep (snd (sys_shutdown_wr os f k)) = ep k) \<and>
     (\<forall>f k. ep (sys_eventfd_write os f k) = ep k) \<and>
     (\<forall>f k. ep (sys_eventfd_read os f k) = ep k) \<and>
     (\<forall>f k. ep (snd (sys_getsockopt_error os f k)) = ep k)"

lemma epoll_contractD:
  assumes "epoll_contract os ep" "sys_epoll_ctl os e op f ev c k = (r, k')"
  shows "r = None \<Longrightarrow> ctl_legal op f (ep k e)"
    and "r = None \<Longrightarrow> ep k' = (ep k)(e := ctl_effect op f ev c (ep k e))"
    and "r \<noteq> None \<Longrightarrow> ep k' = ep k"
    and "op = CtlDel \<Longrightarrow> ctl_legal op f (ep k e) \<Longrightarrow> r = None"
proof -
  from assms(1) have "let (r, k') = sys_epoll_ctl os e op f ev c k in
      (r = None \<longrightarrow> ctl_legal op f (ep k e) \<and> ep k' = (ep k)(e := ctl_effect op f ev c (ep k e))) \<and>
      (r \<noteq> None \<longrightarrow> ep k' = ep k) \<and> (op = CtlDel \<and> ctl_legal op f (ep k e) \<longrightarrow> r = None)"
    unfolding epoll_contract_def by blast
  then show "r = None \<Longrightarrow> ctl_legal op f (ep k e)"
    and "r = None \<Longrightarrow> ep k' = (ep k)(e := ctl_effect op f ev c (ep k e))"
    and "r \<noteq> None \<Longrightarrow> ep k' = ep k"
    and "op = CtlDel \<Longrightarrow> ctl_legal op f (ep k e) \<Longrightarrow> r = None"
    unfolding assms(2) by auto
qed

text \<open>
  A concrete kernel for the witnesses: its state is the interest list of every epoll instance, the
  bytes written to each descriptor, and how many bytes the next writes accept.
\<close>

record toy =
  toy_ep :: "fd \<Rightarrow> fd \<Rightarrow> (uint32 \<times> cid) option"
  toy_out :: "fd \<Rightarrow> byte list"
  toy_accept :: "nat list"
  toy_in :: "byte list list"
  toy_shut :: "fd list"
  toy_wakeups :: "fd list"

definition toy_ctl :: "fd \<Rightarrow> ctl_op \<Rightarrow> fd \<Rightarrow> uint32 \<Rightarrow> cid \<Rightarrow> toy \<Rightarrow> errno option \<times> toy" where
  "toy_ctl e op f ev c k =
     (if ctl_legal op f (toy_ep k e)
      then (None, k\<lparr>toy_ep := (toy_ep k)(e := ctl_effect op f ev c (toy_ep k e))\<rparr>)
      else (Some (if op = CtlAdd then 17 else 2), k))"

definition toy_write :: "fd \<Rightarrow> byte list \<Rightarrow> toy \<Rightarrow> (errno + size_t) \<times> toy" where
  "toy_write f d k =
     (let n = of_nat (case toy_accept k of [] \<Rightarrow> length d | m # ms \<Rightarrow> min m (length d)) :: size_t
      in (Inr n, k\<lparr>toy_out := (toy_out k)(f := toy_out k f @ take (unat n) d),
                   toy_accept := tl (toy_accept k)\<rparr>))"

definition toy_readv :: "fd \<Rightarrow> size_t list \<Rightarrow> toy \<Rightarrow> (errno + byte list) \<times> toy" where
  "toy_readv f vec k =
     (case toy_in k of
        [] \<Rightarrow> (Inr [], k)
      | d # ds \<Rightarrow> (Inr (take (sum_list (map unat vec)) d), k\<lparr>toy_in := ds\<rparr>))"

definition toy_os :: "toy os" where
  "toy_os = \<lparr>sys_epoll_create = (\<lambda>k. (Inr 3, k)),
     sys_epoll_ctl = toy_ctl,
     sys_epoll_wait = (\<lambda>e n t k. (Inr [], k)),
     sys_eventfd = (\<lambda>k. (Inr 4, k)),
     sys_eventfd_read = (\<lambda>f k. k),
     sys_eventfd_write = (\<lambda>f k. k\<lparr>toy_wakeups := f # toy_wakeups k\<rparr>),
     sys_readv = toy_readv,
     sys_write = toy_write,
     sys_shutdown_wr = (\<lambda>f k. (None, k\<lparr>toy_shut := f # toy_shut k\<rparr>)),
     sys_close = (\<lambda>f k. k),
     sys_socket = (\<lambda>k. (Inr 5, k)),
     sys_bind = (\<lambda>f a k. (None, k)),
     sys_listen = (\<lambda>f n k. (None, k)),
     sys_accept = (\<lambda>f k. (Inr (9, \<lparr>sin_port = 1, sin_addr = 1\<rparr>), k)),
     sys_setsockopt = (\<lambda>f p b k. (None, k)),
     sys_getsockopt_error = (\<lambda>f k. (Inr 0, k)),
     sys_getsockname = (\<lambda>f k. (Inr \<lparr>sin_port = 1, sin_addr = 1\<rparr>, k)),
     sys_now = (\<lambda>k. (0, k)),
     sigpipe_ignored = True\<rparr>"

definition toy0 :: toy where
  "toy0 = \<lparr>toy_ep = (\<lambda>_ _. None), toy_out = (\<lambda>_. []), toy_accept = [], toy_in = [],
     toy_shut = [], toy_wakeups = []\<rparr>"

lemma toy_epoll_contract [simp]: "epoll_contract toy_os toy_ep"
  by (simp add: epoll_contract_def toy_os_def toy_ctl_def)

lemma toy_epoll_resources [simp]: "epoll_resources toy_os toy_ep"
  by (simp add: epoll_resources_def toy_os_def toy_ctl_def)

lemma toy_io_keeps [simp]: "io_keeps_interest toy_os toy_ep"
  by (simp add: io_keeps_interest_def toy_os_def toy_write_def toy_readv_def Let_def split: list.splits)

end
