(* ===== verification/Channel.thy ===== *)
theory Channel
  imports Os
begin

unbundle bit_operations_syntax

text \<open>
  \<open>include/muduo/Channel.hpp\<close> and the parts of \<open>src/Channel.cpp\<close> that stay inside the object: the
  event masks and the dispatch of the events a poll returned to the callbacks. A \<open>std::function\<close> is
  an \<open>event_cb\<close>, one constructor per lambda the code stores; running it is the parameter \<open>run\<close>, which
  the components that own the callbacks supply. Channels live in a store indexed by their address;
  to follow a pointer to no live channel is \<open>Undefined\<close>.
\<close>

definition EPOLLIN :: uint32 where "EPOLLIN = 1"
definition EPOLLPRI :: uint32 where "EPOLLPRI = 2"
definition EPOLLOUT :: uint32 where "EPOLLOUT = 4"
definition EPOLLERR :: uint32 where "EPOLLERR = 8"
definition EPOLLHUP :: uint32 where "EPOLLHUP = 16"

definition kNoneEvent :: uint32 where "kNoneEvent = 0"
definition kReadEvent :: uint32 where "kReadEvent = EPOLLIN OR EPOLLPRI"
definition kWriteEvent :: uint32 where "kWriteEvent = EPOLLOUT"

text \<open>The closures the code stores in a channel.\<close>

datatype event_cb =
    LoopHandleRead lid     \<comment> \<open>EventLoop.cpp: the wakeup channel\<close>
  | AcceptorHandleRead     \<comment> \<open>Acceptor.cpp: the listening channel\<close>
  | ConnHandleRead conn    \<comment> \<open>TcpConnection.hpp: the four of a connection\<close>
  | ConnHandleWrite conn
  | ConnHandleClose conn
  | ConnHandleError conn

record channel =
  chLoop :: lid
  chFd :: fd
  events :: uint32
  revents :: uint32
  index :: int
  tie_obj :: "conn option"
  tied :: bool
  readCallback :: "event_cb option"
  writeCallback :: "event_cb option"
  closeCallback :: "event_cb option"
  errorCallback :: "event_cb option"

definition new_channel :: "lid \<Rightarrow> fd \<Rightarrow> channel" where
  "new_channel l f = \<lparr>chLoop = l, chFd = f, events = 0, revents = 0, index = -1, tie_obj = None,
     tied = False, readCallback = None, writeCallback = None, closeCallback = None,
     errorCallback = None\<rparr>"

definition isNoneEvent :: "channel \<Rightarrow> bool" where
  "isNoneEvent ch \<longleftrightarrow> events ch = kNoneEvent"

definition isWriting :: "channel \<Rightarrow> bool" where
  "isWriting ch \<longleftrightarrow> events ch AND kWriteEvent \<noteq> 0"

definition isReading :: "channel \<Rightarrow> bool" where
  "isReading ch \<longleftrightarrow> events ch AND kReadEvent \<noteq> 0"

definition set_revents :: "uint32 \<Rightarrow> channel \<Rightarrow> channel" where
  "set_revents r ch = ch\<lparr>revents := r\<rparr>"

definition set_index :: "int \<Rightarrow> channel \<Rightarrow> channel" where
  "set_index i ch = ch\<lparr>index := i\<rparr>"

definition tie :: "conn \<Rightarrow> channel \<Rightarrow> channel" where
  "tie i ch = ch\<lparr>tie_obj := Some i, tied := True\<rparr>"

definition setReadCallback :: "event_cb \<Rightarrow> channel \<Rightarrow> channel" where
  "setReadCallback cb ch = ch\<lparr>readCallback := Some cb\<rparr>"

definition setWriteCallback :: "event_cb \<Rightarrow> channel \<Rightarrow> channel" where
  "setWriteCallback cb ch = ch\<lparr>writeCallback := Some cb\<rparr>"

definition setCloseCallback :: "event_cb \<Rightarrow> channel \<Rightarrow> channel" where
  "setCloseCallback cb ch = ch\<lparr>closeCallback := Some cb\<rparr>"

definition setErrorCallback :: "event_cb \<Rightarrow> channel \<Rightarrow> channel" where
  "setErrorCallback cb ch = ch\<lparr>errorCallback := Some cb\<rparr>"

text \<open>The store of live channels, the base of every state of the model.\<close>

record 'k chan_world =
  kern :: 'k
  chans :: "cid \<Rightarrow> channel option"

definition with_channel :: "cid \<Rightarrow> ('k, 'z) chan_world_scheme \<Rightarrow> (channel \<Rightarrow> 'a result) \<Rightarrow> 'a result" where
  "with_channel c w f = (case chans w c of None \<Rightarrow> Inl Undefined | Some ch \<Rightarrow> f ch)"

definition put_channel :: "cid \<Rightarrow> channel \<Rightarrow> ('k, 'z) chan_world_scheme \<Rightarrow> ('k, 'z) chan_world_scheme" where
  "put_channel c ch w = w\<lparr>chans := (chans w)(c := Some ch)\<rparr>"

definition modify_channel :: "cid \<Rightarrow> (channel \<Rightarrow> channel) \<Rightarrow> ('k, 'z) chan_world_scheme \<Rightarrow>
    ('k, 'z) chan_world_scheme result" where
  "modify_channel c f w = with_channel c w (\<lambda>ch. Inr (put_channel c (f ch) w))"

subsection \<open>Dispatch\<close>

text \<open>One \<open>if (revents_ & ...) { if (callback) callback(); }\<close> of \<open>handleEventWithGuard\<close>.\<close>

definition fire :: "(event_cb \<Rightarrow> timestamp \<Rightarrow> ('k, 'z) chan_world_scheme \<Rightarrow> ('k, 'z) chan_world_scheme result) \<Rightarrow>
    (uint32 \<Rightarrow> bool) \<Rightarrow> (channel \<Rightarrow> event_cb option) \<Rightarrow> timestamp \<Rightarrow> cid \<Rightarrow>
    ('k, 'z) chan_world_scheme \<Rightarrow> ('k, 'z) chan_world_scheme result" where
  "fire run cond callback t c w =
     with_channel c w (\<lambda>ch.
       if cond (revents ch)
       then (case callback ch of None \<Rightarrow> Inr w | Some cb \<Rightarrow> run cb t w)
       else Inr w)"

definition hup_only :: "uint32 \<Rightarrow> bool" where
  "hup_only r \<longleftrightarrow> r AND EPOLLHUP \<noteq> 0 \<and> \<not> r AND EPOLLIN \<noteq> 0"

definition handleEventWithGuard ::
  "(event_cb \<Rightarrow> timestamp \<Rightarrow> ('k, 'z) chan_world_scheme \<Rightarrow> ('k, 'z) chan_world_scheme result) \<Rightarrow>
    timestamp \<Rightarrow> cid \<Rightarrow> ('k, 'z) chan_world_scheme \<Rightarrow> ('k, 'z) chan_world_scheme result" where
  "handleEventWithGuard run t c w =
     andThen (fire run hup_only closeCallback t c w) (\<lambda>w.
     andThen (fire run (\<lambda>r. r AND EPOLLERR \<noteq> 0) errorCallback t c w) (\<lambda>w.
     andThen (fire run (\<lambda>r. r AND (EPOLLIN OR EPOLLPRI) \<noteq> 0) readCallback t c w) (\<lambda>w.
       fire run (\<lambda>r. r AND EPOLLOUT \<noteq> 0) writeCallback t c w)))"

text \<open>\<open>tie_.lock()\<close> succeeds while the tied object is alive, which the parameter \<open>alive\<close> tells.\<close>

definition handleEvent ::
  "(conn \<Rightarrow> ('k, 'z) chan_world_scheme \<Rightarrow> bool) \<Rightarrow>
    (event_cb \<Rightarrow> timestamp \<Rightarrow> ('k, 'z) chan_world_scheme \<Rightarrow> ('k, 'z) chan_world_scheme result) \<Rightarrow>
    timestamp \<Rightarrow> cid \<Rightarrow> ('k, 'z) chan_world_scheme \<Rightarrow> ('k, 'z) chan_world_scheme result" where
  "handleEvent alive run t c w =
     with_channel c w (\<lambda>ch.
       if tied ch
       then (case tie_obj ch of
               None \<Rightarrow> Inr w
             | Some i \<Rightarrow> if alive i w then handleEventWithGuard run t c w else Inr w)
       else handleEventWithGuard run t c w)"

end
