(* ===== verification/Poller.thy ===== *)
theory Poller
  imports Channel
begin

unbundle bit_operations_syntax

text \<open>
  \<open>Poller\<close> and \<open>EPollPoller\<close> (\<open>Poller.hpp\<close>, \<open>EpollPoller.hpp\<close> and their sources), and the operations of
  \<open>Channel.cpp\<close> and \<open>EventLoop.cpp\<close> that reach them. Each event loop owns one poller, so pollers are
  indexed by their loop. The event array the kernel fills is represented by its capacity; the events
  of one \<open>epoll_wait\<close> are the system call's result.
\<close>

definition KNew :: int where "KNew = -1"
definition KAdded :: int where "KAdded = 1"
definition KDeleted :: int where "KDeleted = 2"
definition kInitEventListSize :: nat where "kInitEventListSize = 16"

record poller =
  ownerLoop :: lid
  epollfd :: fd
  evcap :: nat
  channels :: "fd \<Rightarrow> cid option"

record 'k poll_world = "'k chan_world" +
  pollers :: "lid \<Rightarrow> poller option"

definition with_poller :: "lid \<Rightarrow> ('k, 'z) poll_world_scheme \<Rightarrow> (poller \<Rightarrow> 'a result) \<Rightarrow> 'a result" where
  "with_poller l w f = (case pollers w l of None \<Rightarrow> Inl Undefined | Some p \<Rightarrow> f p)"

definition put_poller :: "lid \<Rightarrow> poller \<Rightarrow> ('k, 'z) poll_world_scheme \<Rightarrow> ('k, 'z) poll_world_scheme" where
  "put_poller l p w = w\<lparr>pollers := (pollers w)(l := Some p)\<rparr>"

definition new_poller :: "'k os \<Rightarrow> lid \<Rightarrow> ('k, 'z) poll_world_scheme \<Rightarrow> ('k, 'z) poll_world_scheme result" where
  "new_poller os l w =
     (case sys_epoll_create os (kern w) of
        (Inl e, k) \<Rightarrow> Inl ExitFailure
      | (Inr f, k) \<Rightarrow> Inr (put_poller l \<lparr>ownerLoop = l, epollfd = f, evcap = kInitEventListSize,
                                  channels = (\<lambda>_. None)\<rparr> (w\<lparr>kern := k\<rparr>)))"

definition hasChannel :: "lid \<Rightarrow> cid \<Rightarrow> ('k, 'z) poll_world_scheme \<Rightarrow> bool result" where
  "hasChannel l c w =
     with_poller l w (\<lambda>p. with_channel c w (\<lambda>ch. Inr (channels p (chFd ch) = Some c)))"

definition updateOperation :: "'k os \<Rightarrow> ctl_op \<Rightarrow> lid \<Rightarrow> cid \<Rightarrow> ('k, 'z) poll_world_scheme \<Rightarrow>
    ('k, 'z) poll_world_scheme result" where
  "updateOperation os op l c w =
     with_poller l w (\<lambda>p. with_channel c w (\<lambda>ch.
       case sys_epoll_ctl os (epollfd p) op (chFd ch) (events ch) c (kern w) of
         (None, k) \<Rightarrow> Inr (w\<lparr>kern := k\<rparr>)
       | (Some e, k) \<Rightarrow> if op = CtlDel then Inr (w\<lparr>kern := k\<rparr>) else Inl ExitFailure))"

definition poller_updateChannel :: "'k os \<Rightarrow> lid \<Rightarrow> cid \<Rightarrow> ('k, 'z) poll_world_scheme \<Rightarrow>
    ('k, 'z) poll_world_scheme result" where
  "poller_updateChannel os l c w =
     with_poller l w (\<lambda>p. with_channel c w (\<lambda>ch.
       if index ch = KNew \<or> index ch = KDeleted
       then (let w = (if index ch = KNew
                      then put_poller l (p\<lparr>channels := (channels p)(chFd ch := Some c)\<rparr>) w else w)
             in andThen (modify_channel c (set_index KAdded) w) (updateOperation os CtlAdd l c))
       else if isNoneEvent ch
       then andThen (updateOperation os CtlDel l c w) (modify_channel c (set_index KDeleted))
       else updateOperation os CtlMod l c w))"

definition poller_removeChannel :: "'k os \<Rightarrow> lid \<Rightarrow> cid \<Rightarrow> ('k, 'z) poll_world_scheme \<Rightarrow>
    ('k, 'z) poll_world_scheme result" where
  "poller_removeChannel os l c w =
     with_poller l w (\<lambda>p. with_channel c w (\<lambda>ch.
       let w = put_poller l (p\<lparr>channels := (channels p)(chFd ch := None)\<rparr>) w
       in andThen (if index ch = KAdded then updateOperation os CtlDel l c w else Inr w)
            (modify_channel c (set_index KNew))))"

text \<open>The names of the operations and of the channel states in the log.\<close>

definition operationToString :: "ctl_op \<Rightarrow> string" where
  "operationToString op = (case op of CtlAdd \<Rightarrow> ''ADD'' | CtlMod \<Rightarrow> ''MOD'' | CtlDel \<Rightarrow> ''DEL'')"

definition channelStateToString :: "int \<Rightarrow> string" where
  "channelStateToString state =
     (if state = KNew then ''New'' else if state = KAdded then ''Added'' else if state = KDeleted then ''Deleted''
      else ''Invalid'')"

text \<open>\<open>fillActiveChannels\<close> over the events of one \<open>epoll_wait\<close>, in their order.\<close>

fun fillActiveChannels :: "(uint32 \<times> cid) list \<Rightarrow> cid list \<Rightarrow> ('k, 'z) poll_world_scheme \<Rightarrow>
    (cid list \<times> ('k, 'z) poll_world_scheme) result" where
  "fillActiveChannels [] active w = Inr (active, w)"
| "fillActiveChannels ((ev, c) # evs) active w =
     andThen (modify_channel c (set_revents ev) w) (fillActiveChannels evs (active @ [c]))"

definition poll :: "'k os \<Rightarrow> lid \<Rightarrow> int \<Rightarrow> cid list \<Rightarrow> ('k, 'z) poll_world_scheme \<Rightarrow>
    (timestamp \<times> cid list \<times> ('k, 'z) poll_world_scheme) result" where
  "poll os l timeoutMs active w =
     with_poller l w (\<lambda>p.
       let (r, k) = sys_epoll_wait os (epollfd p) (evcap p) timeoutMs (kern w);
           (now, k) = sys_now os k;
           w = w\<lparr>kern := k\<rparr>
       in case r of
            Inl e \<Rightarrow> Inr (now, active, w)
          | Inr evs \<Rightarrow>
              if evs = [] then Inr (now, active, w)
              else andThen (fillActiveChannels evs active w) (\<lambda>(active, w).
                     Inr (now, active,
                       if length evs = evcap p then put_poller l (p\<lparr>evcap := evcap p * 2\<rparr>) w else w)))"

subsection \<open>The channel's operations that reach the poller\<close>

definition loop_updateChannel :: "'k os \<Rightarrow> lid \<Rightarrow> cid \<Rightarrow> ('k, 'z) poll_world_scheme \<Rightarrow>
    ('k, 'z) poll_world_scheme result" where
  "loop_updateChannel os l c w = poller_updateChannel os l c w"

definition loop_removeChannel :: "'k os \<Rightarrow> lid \<Rightarrow> cid \<Rightarrow> ('k, 'z) poll_world_scheme \<Rightarrow>
    ('k, 'z) poll_world_scheme result" where
  "loop_removeChannel os l c w = poller_removeChannel os l c w"

definition loop_hasChannel :: "lid \<Rightarrow> cid \<Rightarrow> ('k, 'z) poll_world_scheme \<Rightarrow> bool result" where
  "loop_hasChannel l c w = hasChannel l c w"

definition channel_update :: "'k os \<Rightarrow> cid \<Rightarrow> ('k, 'z) poll_world_scheme \<Rightarrow>
    ('k, 'z) poll_world_scheme result" where
  "channel_update os c w = with_channel c w (\<lambda>ch. loop_updateChannel os (chLoop ch) c w)"

definition channel_remove :: "'k os \<Rightarrow> cid \<Rightarrow> ('k, 'z) poll_world_scheme \<Rightarrow>
    ('k, 'z) poll_world_scheme result" where
  "channel_remove os c w = with_channel c w (\<lambda>ch. loop_removeChannel os (chLoop ch) c w)"

definition set_events :: "(uint32 \<Rightarrow> uint32) \<Rightarrow> channel \<Rightarrow> channel" where
  "set_events g ch = ch\<lparr>events := g (events ch)\<rparr>"

definition enableReading :: "'k os \<Rightarrow> cid \<Rightarrow> ('k, 'z) poll_world_scheme \<Rightarrow> ('k, 'z) poll_world_scheme result" where
  "enableReading os c w =
     andThen (modify_channel c (set_events (\<lambda>e. e OR kReadEvent)) w) (channel_update os c)"

definition disableReading :: "'k os \<Rightarrow> cid \<Rightarrow> ('k, 'z) poll_world_scheme \<Rightarrow> ('k, 'z) poll_world_scheme result" where
  "disableReading os c w =
     andThen (modify_channel c (set_events (\<lambda>e. e AND NOT kReadEvent)) w) (channel_update os c)"

definition enableWriting :: "'k os \<Rightarrow> cid \<Rightarrow> ('k, 'z) poll_world_scheme \<Rightarrow> ('k, 'z) poll_world_scheme result" where
  "enableWriting os c w =
     andThen (modify_channel c (set_events (\<lambda>e. e OR kWriteEvent)) w) (channel_update os c)"

definition disableWriting :: "'k os \<Rightarrow> cid \<Rightarrow> ('k, 'z) poll_world_scheme \<Rightarrow> ('k, 'z) poll_world_scheme result" where
  "disableWriting os c w =
     andThen (modify_channel c (set_events (\<lambda>e. e AND NOT kWriteEvent)) w) (channel_update os c)"

definition disableAll :: "'k os \<Rightarrow> cid \<Rightarrow> ('k, 'z) poll_world_scheme \<Rightarrow> ('k, 'z) poll_world_scheme result" where
  "disableAll os c w =
     andThen (modify_channel c (set_events (\<lambda>e. kNoneEvent)) w) (channel_update os c)"

end
