(* ===== verification/PollerInv.thy ===== *)
theory PollerInv
  imports Poller
begin

text \<open>
  The poller's contract: its map, the indices in the channels and the kernel's interest list tell the
  same story. \<open>poller_sync\<close> states it, the lemmas show that every channel operation keeps it, and the
  locale \<open>event_registry\<close> is what the owners of channels rely on.
\<close>

text \<open>What the kernel should monitor for the descriptor \<open>f\<close> of the poller \<open>p\<close>.\<close>

definition expected_interest :: "poller \<Rightarrow> (cid \<Rightarrow> channel option) \<Rightarrow> fd \<Rightarrow> (uint32 \<times> cid) option" where
  "expected_interest p cs f =
     (case channels p f of
        None \<Rightarrow> None
      | Some c \<Rightarrow> (case cs c of
          None \<Rightarrow> None
        | Some ch \<Rightarrow> if index ch = KAdded then Some (events ch, c) else None))"

definition poller_ok :: "'k interest \<Rightarrow> 'k \<Rightarrow> (cid \<Rightarrow> channel option) \<Rightarrow> lid \<Rightarrow> poller \<Rightarrow> bool" where
  "poller_ok ep k cs l p \<longleftrightarrow>
     (\<forall>f c. channels p f = Some c \<longrightarrow>
        (\<exists>ch. cs c = Some ch \<and> chFd ch = f \<and> chLoop ch = l \<and> index ch \<noteq> KNew)) \<and>
     ep k (epollfd p) = expected_interest p cs"

definition channel_ok :: "(lid \<Rightarrow> poller option) \<Rightarrow> cid \<Rightarrow> channel \<Rightarrow> bool" where
  "channel_ok ps c ch \<longleftrightarrow> index ch = KNew \<or>
     (index ch = KAdded \<or> index ch = KDeleted) \<and>
     (\<exists>p. ps (chLoop ch) = Some p \<and> channels p (chFd ch) = Some c)"

definition poller_sync :: "'k interest \<Rightarrow> ('k, 'z) poll_world_scheme \<Rightarrow> bool" where
  "poller_sync ep w \<longleftrightarrow>
     (\<forall>l p. pollers w l = Some p \<longrightarrow> poller_ok ep (kern w) (chans w) l p) \<and>
     (\<forall>c ch. chans w c = Some ch \<longrightarrow> channel_ok (pollers w) c ch) \<and>
     (\<forall>l l' p p'. pollers w l = Some p \<longrightarrow> pollers w l' = Some p' \<longrightarrow> epollfd p = epollfd p' \<longrightarrow> l = l')"

text \<open>
  A channel may be given to its poller: it is alive, its loop has a poller, and if it is new its
  descriptor is not taken there.
\<close>

definition channel_ready :: "cid \<Rightarrow> ('k, 'z) poll_world_scheme \<Rightarrow> bool" where
  "channel_ready c w \<longleftrightarrow>
     (\<exists>ch p. chans w c = Some ch \<and> pollers w (chLoop ch) = Some p \<and>
        (index ch = KNew \<longrightarrow> channels p (chFd ch) = None))"

lemma index_consts [simp]: "KNew \<noteq> KAdded" "KAdded \<noteq> KNew" "KNew \<noteq> KDeleted" "KDeleted \<noteq> KNew"
  "KAdded \<noteq> KDeleted" "KDeleted \<noteq> KAdded"
  by (simp_all add: KNew_def KAdded_def KDeleted_def)

lemma chan_world_simps [simp]:
  "with_channel c (put_channel c ch w) f = f ch"
  "chans (put_channel c ch w) = (chans w)(c \<mapsto> ch)"
  "kern (put_channel c ch w) = kern w"
  "pollers (put_channel c ch w') = pollers w'"
  "put_channel c ch (put_channel c ch' w) = put_channel c ch w"
  "chans (put_poller l p w') = chans w'"
  "kern (put_poller l p w') = kern w'"
  "pollers (put_poller l p w') = (pollers w')(l \<mapsto> p)"
  by (simp_all add: with_channel_def put_channel_def put_poller_def)

lemma with_channel_Some [simp]: "chans w c = Some ch \<Longrightarrow> with_channel c w f = f ch"
  by (simp add: with_channel_def)

lemma with_poller_Some [simp]: "pollers w l = Some p \<Longrightarrow> with_poller l w f = f p"
  by (simp add: with_poller_def)

lemma modify_channel_Some [simp]: "chans w c = Some ch \<Longrightarrow> modify_channel c f w = Inr (put_channel c (f ch) w)"
  by (simp add: modify_channel_def)

lemma put_poller_same: "pollers w l = Some p \<Longrightarrow> put_poller l p w = w"
  by (simp add: put_poller_def fun_upd_idem)

lemma put_commute:
  "put_poller l p (put_channel c ch w) = put_channel c ch (put_poller l p w)"
  "(put_channel c ch w)\<lparr>kern := k\<rparr> = put_channel c ch (w\<lparr>kern := k\<rparr>)"
  by (simp_all add: put_poller_def put_channel_def)

lemma set_fields [simp]:
  "chLoop (set_events g ch) = chLoop ch" "chFd (set_events g ch) = chFd ch"
  "index (set_events g ch) = index ch" "events (set_events g ch) = g (events ch)"
  "chLoop (set_index i ch) = chLoop ch" "chFd (set_index i ch) = chFd ch"
  "index (set_index i ch) = i" "events (set_index i ch) = events ch"
  by (simp_all add: set_events_def set_index_def)

lemma expected_interest_other:
  "channels p f \<noteq> Some c \<Longrightarrow> expected_interest p (cs(c := x)) f = expected_interest p cs f"
  by (auto simp: expected_interest_def split: option.splits)

lemma syncD:
  assumes "poller_sync ep w"
  shows "pollers w l = Some p \<Longrightarrow> poller_ok ep (kern w) (chans w) l p"
    and "chans w c = Some ch \<Longrightarrow> channel_ok (pollers w) c ch"
    and "pollers w l = Some p \<Longrightarrow> pollers w l' = Some p' \<Longrightarrow> epollfd p = epollfd p' \<Longrightarrow> l = l'"
  using assms unfolding poller_sync_def by blast+

subsection \<open>Writing one channel's entry in all three places\<close>

text \<open>
  The state after the poller has dealt with channel \<open>c\<close>: the channel record, the map entry and the
  kernel's entry are replaced together. \<open>put_entry_sync\<close> is the heart of the invariant proofs: every
  operation ends in such a state.
\<close>

definition kernel_entry :: "cid \<Rightarrow> channel \<Rightarrow> (uint32 \<times> cid) option" where
  "kernel_entry c ch = (if index ch = KAdded then Some (events ch, c) else None)"

definition map_entry :: "cid \<Rightarrow> channel \<Rightarrow> cid option" where
  "map_entry c ch = (if index ch = KNew then None else Some c)"

definition put_entry :: "cid \<Rightarrow> channel \<Rightarrow> poller \<Rightarrow> 'k \<Rightarrow> ('k, 'z) poll_world_scheme \<Rightarrow>
    ('k, 'z) poll_world_scheme" where
  "put_entry c ch p k w =
     (put_channel c ch (put_poller (chLoop ch)
        (p\<lparr>channels := (channels p)(chFd ch := map_entry c ch)\<rparr>) w))\<lparr>kern := k\<rparr>"

lemma put_entry_fields [simp]:
  "kern (put_entry c ch p k w) = k"
  "chans (put_entry c ch p k w) = (chans w)(c \<mapsto> ch)"
  "pollers (put_entry c ch p k w) =
     (pollers w)(chLoop ch \<mapsto> p\<lparr>channels := (channels p)(chFd ch := map_entry c ch)\<rparr>)"
  by (simp_all add: put_entry_def)

lemma poller_okD:
  assumes "poller_ok ep k cs l p"
  shows "channels p f = Some c \<Longrightarrow> cs c = Some ch \<Longrightarrow> chFd ch = f \<and> chLoop ch = l \<and> index ch \<noteq> KNew"
    and "ep k (epollfd p) = expected_interest p cs"
  using assms by (force simp: poller_ok_def)+

lemma put_entry_sync:
  assumes sync: "poller_sync ep w"
    and c: "chans w c = Some ch0" "chLoop ch = chLoop ch0" "chFd ch = chFd ch0"
    and p: "pollers w (chLoop ch) = Some p"
    and free: "channels p (chFd ch) \<in> {None, Some c}"
    and idx: "index ch \<in> {KNew, KAdded, KDeleted}"
    and k: "ep k = (ep (kern w))(epollfd p := (ep (kern w) (epollfd p))(chFd ch := kernel_entry c ch))"
  shows "poller_sync ep (put_entry c ch p k w)"
proof -
  let ?p = "p\<lparr>channels := (channels p)(chFd ch := map_entry c ch)\<rparr>"
  let ?cs = "(chans w)(c \<mapsto> ch)"
  note pok = syncD(1) [OF sync]
  have mine: "channels p f = Some c \<Longrightarrow> f = chFd ch" for f
    using poller_okD(1) [OF pok [OF p] _ c(1)] c(3) by auto
  have theirs: "channels q f \<noteq> Some c" if "pollers w l = Some q" "l \<noteq> chLoop ch" for l q f
    using poller_okD(1) [OF pok [OF that(1)] _ c(1)] that(2) c(2) by auto
  have own: "poller_ok ep k ?cs (chLoop ch) ?p"
  proof -
    have "expected_interest ?p ?cs f = (if f = chFd ch then kernel_entry c ch
        else expected_interest p (chans w) f)" for f
    proof (cases "f = chFd ch")
      case True
      then show ?thesis using idx
        by (auto simp: expected_interest_def map_entry_def kernel_entry_def)
    next
      case False
      then show ?thesis using mine [of f]
        by (auto simp: expected_interest_def split: option.splits)
    qed
    moreover have "ep (kern w) (epollfd p) = expected_interest p (chans w)"
      using pok [OF p] by (simp add: poller_ok_def)
    ultimately have "ep k (epollfd ?p) = expected_interest ?p ?cs"
      using k by (auto simp: fun_eq_iff)
    moreover have "\<exists>ch'. ?cs c' = Some ch' \<and> chFd ch' = f \<and> chLoop ch' = chLoop ch \<and> index ch' \<noteq> KNew"
      if "channels ?p f = Some c'" for f c'
      using that mine [of f] pok [OF p]
      by (cases "f = chFd ch") (auto simp: map_entry_def poller_ok_def split: if_splits)
    ultimately show ?thesis by (simp add: poller_ok_def)
  qed
  have others: "poller_ok ep k ?cs l q" if q: "pollers w l = Some q" "l \<noteq> chLoop ch" for l q
  proof -
    have "epollfd q \<noteq> epollfd p" using syncD(3) [OF sync q(1) p] q(2) by auto
    moreover have "expected_interest q ?cs = expected_interest q (chans w)"
      by (rule ext) (simp add: expected_interest_other theirs [OF q])
    ultimately show ?thesis
      using pok [OF q(1)] theirs [OF q] k by (auto simp: poller_ok_def)
  qed
  have chs: "channel_ok ((pollers w)(chLoop ch \<mapsto> ?p)) c' ch'" if c': "?cs c' = Some ch'" for c' ch'
  proof (cases "c' = c")
    case True
    with c' idx show ?thesis by (auto simp: channel_ok_def map_entry_def)
  next
    case False
    with c' have "chans w c' = Some ch'" by simp
    from syncD(2) [OF sync this] show ?thesis
      using False free p by (fastforce simp: channel_ok_def)
  qed
  show ?thesis
    using own others chs syncD(3) [OF sync] p
    by (auto simp: poller_sync_def split: if_splits)
qed

subsection \<open>Updating a channel's events\<close>

definition change_events :: "'k os \<Rightarrow> (uint32 \<Rightarrow> uint32) \<Rightarrow> cid \<Rightarrow> ('k, 'z) poll_world_scheme \<Rightarrow>
    ('k, 'z) poll_world_scheme result" where
  "change_events os g c w = andThen (modify_channel c (set_events g) w) (channel_update os c)"

lemmas channel_ops = enableReading_def disableReading_def enableWriting_def disableWriting_def
  disableAll_def

lemma channel_ops_change:
  "enableReading os c = change_events os (\<lambda>e. e OR kReadEvent) c"
  "disableReading os c = change_events os (\<lambda>e. e AND NOT kReadEvent) c"
  "enableWriting os c = change_events os (\<lambda>e. e OR kWriteEvent) c"
  "disableWriting os c = change_events os (\<lambda>e. e AND NOT kWriteEvent) c"
  "disableAll os c = change_events os (\<lambda>e. kNoneEvent) c"
  by (simp_all add: fun_eq_iff channel_ops change_events_def)

text \<open>The channel after its events have become \<open>g\<close> of the old ones and the poller was told.\<close>

definition registered :: "(uint32 \<Rightarrow> uint32) \<Rightarrow> channel \<Rightarrow> channel" where
  "registered g ch = ch\<lparr>events := g (events ch),
     index := (if index ch = KAdded \<and> g (events ch) = kNoneEvent then KDeleted else KAdded)\<rparr>"

lemma registered_fields [simp]:
  "chLoop (registered g ch) = chLoop ch" "chFd (registered g ch) = chFd ch"
  "events (registered g ch) = g (events ch)"
  by (simp_all add: registered_def)

text \<open>The \<open>epoll_ctl\<close> operation an update makes.\<close>

definition update_ctl :: "(uint32 \<Rightarrow> uint32) \<Rightarrow> channel \<Rightarrow> ctl_op" where
  "update_ctl g ch =
     (if index ch \<noteq> KAdded then CtlAdd else if g (events ch) = kNoneEvent then CtlDel else CtlMod)"

lemma change_events_unfold:
  assumes sync: "poller_sync ep w" and c: "chans w c = Some ch"
    and p: "pollers w (chLoop ch) = Some p"
  shows "change_events os g c w =
    (case sys_epoll_ctl os (epollfd p) (update_ctl g ch) (chFd ch) (g (events ch)) c (kern w) of
       (None, k) \<Rightarrow> Inr (put_entry c (registered g ch) p k w)
     | (Some e, k) \<Rightarrow> if update_ctl g ch = CtlDel then Inr (put_entry c (registered g ch) p k w)
                     else Inl ExitFailure)"
proof -
  have old: "put_poller (chLoop ch) (p\<lparr>channels := (channels p)(chFd ch \<mapsto> c)\<rparr>) w = w"
    if "index ch \<noteq> KNew"
  proof -
    have "(channels p)(chFd ch \<mapsto> c) = channels p"
      using that syncD(2) [OF sync c] p by (auto simp: channel_ok_def)
    with p show ?thesis by (simp add: put_poller_same)
  qed
  have idx: "index ch = KNew \<or> index ch = KAdded \<or> index ch = KDeleted"
    using syncD(2) [OF sync c] by (auto simp: channel_ok_def)
  have cl: "updateOperation os op (chLoop ch) c (put_channel c (set_index i (set_events g ch)) w') =
      (case sys_epoll_ctl os (epollfd p') op (chFd ch) (g (events ch)) c (kern w') of
         (None, k) \<Rightarrow> Inr ((put_channel c (set_index i (set_events g ch)) w')\<lparr>kern := k\<rparr>)
       | (Some e, k) \<Rightarrow> if op = CtlDel then Inr ((put_channel c (set_index i (set_events g ch)) w')\<lparr>kern := k\<rparr>)
                       else Inl ExitFailure)"
    if "pollers w' (chLoop ch) = Some p'" for i w' p' op
    using that by (simp add: updateOperation_def)
  have op: "updateOperation os op (chLoop ch) c (put_channel c (set_events g ch) w) =
      (case sys_epoll_ctl os (epollfd p) op (chFd ch) (g (events ch)) c (kern w) of
         (None, k) \<Rightarrow> Inr ((put_channel c (set_events g ch) w)\<lparr>kern := k\<rparr>)
       | (Some e, k) \<Rightarrow> if op = CtlDel then Inr ((put_channel c (set_events g ch) w)\<lparr>kern := k\<rparr>)
                       else Inl ExitFailure)" for op
    using p by (simp add: updateOperation_def)
  have reg: "registered g ch = (if index ch = KAdded then
      (if g (events ch) = kNoneEvent then set_index KDeleted (set_events g ch) else set_events g ch)
      else set_index KAdded (set_events g ch))"
    by (auto simp: registered_def set_index_def set_events_def)
  consider "index ch = KNew" | "index ch = KDeleted" | "index ch = KAdded"
    using idx by blast
  then show ?thesis
  proof cases
    case 1
    then show ?thesis
      using c p by (simp add: change_events_def channel_update_def loop_updateChannel_def
          poller_updateChannel_def update_ctl_def Let_def put_commute cl put_entry_def map_entry_def
          reg split: prod.splits option.splits)
  next
    case 2
    then show ?thesis
      using c p old by (simp add: change_events_def channel_update_def loop_updateChannel_def
          poller_updateChannel_def update_ctl_def Let_def put_commute cl [OF p] put_entry_def map_entry_def
          reg split: prod.splits option.splits)
  next
    case 3
    then show ?thesis
      using c p old by (auto simp: change_events_def channel_update_def loop_updateChannel_def
          poller_updateChannel_def update_ctl_def Let_def put_commute op put_entry_def map_entry_def
          isNoneEvent_def reg split: prod.splits option.splits)
  qed
qed

lemma kernel_view:
  assumes "poller_sync ep w" "pollers w l = Some p"
  shows "ep (kern w) (epollfd p) f = expected_interest p (chans w) f"
  using syncD(1) [OF assms] by (simp add: poller_ok_def)

lemma kernel_view_channel:
  assumes sync: "poller_sync ep w" and c: "chans w c = Some ch"
    and p: "pollers w (chLoop ch) = Some p" and ready: "channel_ready c w"
  shows "ep (kern w) (epollfd p) (chFd ch) = kernel_entry c ch"
    and "channels p (chFd ch) = map_entry c ch"
proof -
  show "channels p (chFd ch) = map_entry c ch"
    using syncD(2) [OF sync c] ready c p
    by (auto simp: channel_ok_def map_entry_def channel_ready_def)
  then show "ep (kern w) (epollfd p) (chFd ch) = kernel_entry c ch"
    using c kernel_view [OF sync p]
    by (auto simp: expected_interest_def map_entry_def kernel_entry_def)
qed

lemma update_ctl_legal:
  assumes "poller_sync ep w" "chans w c = Some ch" "pollers w (chLoop ch) = Some p" "channel_ready c w"
  shows "ctl_legal (update_ctl g ch) (chFd ch) (ep (kern w) (epollfd p))"
  by (simp add: ctl_legal_def update_ctl_def kernel_view_channel [OF assms] kernel_entry_def)

lemma update_ctl_effect:
  "ctl_effect (update_ctl g ch) f (g (events ch)) c m = m(f := kernel_entry c (registered g ch))"
  by (auto simp: ctl_effect_def update_ctl_def kernel_entry_def registered_def)

text \<open>
  Every change of a channel's events either ends the process in the LOG_FATAL of a refused ADD or
  MOD, which a kernel with enough resources never makes it do, or rewrites the channel's entry.
\<close>

lemma change_events_cases:
  assumes sync: "poller_sync ep w" and contract: "epoll_contract os ep" and ready: "channel_ready c w"
    and c: "chans w c = Some ch" and p: "pollers w (chLoop ch) = Some p"
  shows "(change_events os g c w = Inl ExitFailure \<and> \<not> epoll_resources os ep) \<or>
    (\<exists>k. change_events os g c w = Inr (put_entry c (registered g ch) p k w) \<and>
      poller_sync ep (put_entry c (registered g ch) p k w))"
proof -
  note u = change_events_unfold [OF sync c p, of os g]
  let ?op = "update_ctl g ch"
  note legal = update_ctl_legal [OF sync c p ready, of g]
  obtain r k where ctl: "sys_epoll_ctl os (epollfd p) ?op (chFd ch) (g (events ch)) c (kern w) = (r, k)"
    by fastforce
  note k = epoll_contractD [OF contract ctl]
  show ?thesis
  proof (cases r)
    case None
    have "poller_sync ep (put_entry c (registered g ch) p k w)"
    proof (rule put_entry_sync [OF sync c])
      show "channels p (chFd (registered g ch)) \<in> {None, Some c}"
        using kernel_view_channel(2) [OF sync c p ready] by (simp add: map_entry_def)
      show "ep k = (ep (kern w))(epollfd p := (ep (kern w) (epollfd p))
          (chFd (registered g ch) := kernel_entry c (registered g ch)))"
        using k(2) [OF None] by (simp add: update_ctl_effect)
    qed (use p in \<open>simp_all add: registered_def\<close>)
    then show ?thesis using u ctl None by auto
  next
    case (Some e)
    then have "?op \<noteq> CtlDel" using k(4) legal by auto
    moreover have "\<not> epoll_resources os ep"
      using legal ctl Some unfolding epoll_resources_def by (metis fst_conv option.distinct(1))
    ultimately show ?thesis using u ctl Some by simp
  qed
qed

lemma removeChannel_ok:
  assumes sync: "poller_sync ep w" and contract: "epoll_contract os ep" and ready: "channel_ready c w"
    and c: "chans w c = Some ch" and p: "pollers w (chLoop ch) = Some p"
  shows "\<exists>k. channel_remove os c w = Inr (put_entry c (set_index KNew ch) p k w) \<and>
      poller_sync ep (put_entry c (set_index KNew ch) p k w)"
proof -
  let ?p = "p\<lparr>channels := (channels p)(chFd ch := None)\<rparr>"
  let ?w = "put_poller (chLoop ch) ?p w"
  let ?r = "sys_epoll_ctl os (epollfd p) CtlDel (chFd ch) (events ch) c (kern w)"
  let ?k = "if index ch = KAdded then snd ?r else kern w"
  note view = kernel_view_channel [OF sync c p ready]
  have op: "updateOperation os CtlDel (chLoop ch) c ?w = Inr (?w\<lparr>kern := snd ?r\<rparr>)"
    using c by (simp add: updateOperation_def split: prod.splits option.splits)
  have put: "put_entry c (set_index KNew ch) p k w = put_channel c (set_index KNew ch) (?w\<lparr>kern := k\<rparr>)" for k
    by (simp add: put_entry_def map_entry_def put_commute)
  have kw: "?w\<lparr>kern := kern w\<rparr> = ?w" by (simp add: put_poller_def)
  have res: "channel_remove os c w = Inr (put_entry c (set_index KNew ch) p ?k w)"
    using c p by (simp add: channel_remove_def loop_removeChannel_def poller_removeChannel_def Let_def
        op put kw)
  have "ep ?k = (ep (kern w))(epollfd p := (ep (kern w) (epollfd p))(chFd ch := None))"
  proof (cases "index ch = KAdded")
    case True
    then have legal: "ctl_legal CtlDel (chFd ch) (ep (kern w) (epollfd p))"
      using view by (simp add: ctl_legal_def kernel_entry_def)
    have "?r = (fst ?r, snd ?r)" by simp
    note k = epoll_contractD [OF contract this]
    from k(2) k(4) legal True show ?thesis by (simp add: ctl_effect_def)
  next
    case False
    then show ?thesis using view by (auto simp: kernel_entry_def fun_eq_iff)
  qed
  then have "poller_sync ep (put_entry c (set_index KNew ch) p ?k w)"
    by (intro put_entry_sync [OF sync c])
      (use p view(2) in \<open>simp_all add: kernel_entry_def map_entry_def\<close>)
  with res show ?thesis by blast
qed

end
