(* ===== verification/Registry.thy ===== *)
theory Registry
  imports PollerInv
begin

unbundle bit_operations_syntax

text \<open>
  The poller as the owners of channels see it. The locale \<open>event_registry\<close> holds the laws: changing a
  channel's events changes its mask and, unless the mask is empty, makes the kernel monitor exactly
  that mask; removing it stops the monitoring; other channels are not affected. The interpretation
  \<open>er\<close> proves the laws for the code's poller under the contract of \<open>epoll_ctl\<close>.
\<close>

locale event_registry =
  fixes wf :: "'w \<Rightarrow> bool"
    and mask :: "'w \<Rightarrow> cid \<Rightarrow> uint32"
    and watched :: "'w \<Rightarrow> cid \<Rightarrow> uint32 option"
    and ready :: "cid \<Rightarrow> 'w \<Rightarrow> bool"
    and change :: "(uint32 \<Rightarrow> uint32) \<Rightarrow> cid \<Rightarrow> 'w \<Rightarrow> 'w result"
    and remove :: "cid \<Rightarrow> 'w \<Rightarrow> 'w result"
  assumes change_law: "wf w \<Longrightarrow> ready c w \<Longrightarrow> returns (change g c w)
      (\<lambda>w'. wf w' \<and> ready c w' \<and> mask w' c = g (mask w c) \<and>
        (g (mask w c) \<noteq> kNoneEvent \<longrightarrow> watched w' c = Some (g (mask w c))) \<and>
        (\<forall>d. d \<noteq> c \<longrightarrow> mask w' d = mask w d \<and> watched w' d = watched w d))"
    and remove_law: "wf w \<Longrightarrow> ready c w \<Longrightarrow> returns (remove c w)
      (\<lambda>w'. wf w' \<and> ready c w' \<and> mask w' c = mask w c \<and> watched w' c = None \<and>
        (\<forall>d. d \<noteq> c \<longrightarrow> mask w' d = mask w d \<and> watched w' d = watched w d))"
begin

text \<open>A run of changes and removals: \<open>Some g\<close> changes the mask by \<open>g\<close>, \<open>None\<close> removes the channel.\<close>

fun run_ops :: "(uint32 \<Rightarrow> uint32) option list \<Rightarrow> cid \<Rightarrow> 'w \<Rightarrow> 'w result" where
  "run_ops [] c w = Inr w"
| "run_ops (None # ops) c w = andThen (remove c w) (run_ops ops c)"
| "run_ops (Some g # ops) c w = andThen (change g c w) (run_ops ops c)"

lemma run_ops_fold:
  "wf w \<Longrightarrow> ready c w \<Longrightarrow> returns (run_ops ops c w)
    (\<lambda>w'. wf w' \<and> ready c w' \<and>
      mask w' c = fold (\<lambda>op e. case op of None \<Rightarrow> e | Some g \<Rightarrow> g e) ops (mask w c) \<and>
      (ops \<noteq> [] \<longrightarrow> last ops = None \<longrightarrow> watched w' c = None) \<and>
      (ops \<noteq> [] \<longrightarrow> last ops \<noteq> None \<longrightarrow> mask w' c \<noteq> kNoneEvent \<longrightarrow> watched w' c = Some (mask w' c)) \<and>
      (\<forall>d. d \<noteq> c \<longrightarrow> mask w' d = mask w d \<and> watched w' d = watched w d))"
proof (induction ops arbitrary: w)
  case (Cons op ops)
  show ?case
  proof (cases op)
    case None
    from remove_law [OF Cons.prems] obtain v where v: "remove c w = Inr v" "wf v" "ready c v"
      "mask v c = mask w c" "watched v c = None"
      "\<forall>d. d \<noteq> c \<longrightarrow> mask v d = mask w d \<and> watched v d = watched w d"
      by (auto simp: returns_iff)
    from Cons.IH [OF v(2,3)] show ?thesis
      using v None by (cases ops) (auto elim!: returns_mono)
  next
    case (Some g)
    from change_law [OF Cons.prems, of g] obtain v where v: "change g c w = Inr v" "wf v" "ready c v"
      "mask v c = g (mask w c)" "g (mask w c) \<noteq> kNoneEvent \<longrightarrow> watched v c = Some (g (mask w c))"
      "\<forall>d. d \<noteq> c \<longrightarrow> mask v d = mask w d \<and> watched v d = watched w d"
      by (auto simp: returns_iff)
    from Cons.IH [OF v(2,3)] show ?thesis
      using v Some by (cases ops) (auto elim!: returns_mono)
  qed
qed simp

lemma change_remove:
  "wf w \<Longrightarrow> ready c w \<Longrightarrow> returns (andThen (change g c w) (remove c))
    (\<lambda>w'. wf w' \<and> watched w' c = None \<and>
      (\<forall>d. d \<noteq> c \<longrightarrow> mask w' d = mask w d \<and> watched w' d = watched w d))"
  by (rule returns_andThen [OF change_law], assumption+)
    (auto elim!: returns_mono [OF remove_law])

end

subsection \<open>The code's poller\<close>

definition channel_mask :: "('k, 'z) poll_world_scheme \<Rightarrow> cid \<Rightarrow> uint32" where
  "channel_mask w c = (case chans w c of None \<Rightarrow> kNoneEvent | Some ch \<Rightarrow> events ch)"

text \<open>The mask under which the kernel monitors the descriptor for the channel, if it does.\<close>

definition kernel_mask :: "'k interest \<Rightarrow> ('k, 'z) poll_world_scheme \<Rightarrow> cid \<Rightarrow> uint32 option" where
  "kernel_mask ep w c =
     (case chans w c of None \<Rightarrow> None | Some ch \<Rightarrow>
      (case pollers w (chLoop ch) of None \<Rightarrow> None | Some p \<Rightarrow>
       (case ep (kern w) (epollfd p) (chFd ch) of
          Some (e, c') \<Rightarrow> if c' = c then Some e else None
        | None \<Rightarrow> None)))"

definition registry_wf :: "'k os \<Rightarrow> 'k interest \<Rightarrow> ('k, 'z) poll_world_scheme \<Rightarrow> bool" where
  "registry_wf os ep w \<longleftrightarrow> poller_sync ep w \<and> epoll_contract os ep \<and> epoll_resources os ep"

lemma kernel_mask_eq:
  assumes sync: "poller_sync ep w" and c: "chans w c = Some ch" and p: "pollers w (chLoop ch) = Some p"
  shows "kernel_mask ep w c = (if index ch = KAdded then Some (events ch) else None)"
  using syncD(2) [OF sync c] c p kernel_view [OF sync p, of "chFd ch"]
  by (auto simp: kernel_mask_def expected_interest_def channel_ok_def split: option.splits)

lemma kernel_mask_orphan:
  "chans w c = None \<or> (\<exists>ch. chans w c = Some ch \<and> pollers w (chLoop ch) = None) \<Longrightarrow>
    kernel_mask ep w c = None"
  by (auto simp: kernel_mask_def)

lemma put_entry_others:
  assumes sync: "poller_sync ep w" "poller_sync ep (put_entry c ch p k w)"
    and p: "pollers w (chLoop ch) = Some p" and d: "d \<noteq> c"
  shows "kernel_mask ep (put_entry c ch p k w) d = kernel_mask ep w d"
proof (cases "chans w d")
  case (Some cd)
  show ?thesis
  proof (cases "pollers w (chLoop cd)")
    case (Some q)
    then obtain q' where "pollers (put_entry c ch p k w) (chLoop cd) = Some q'"
      by (cases "chLoop cd = chLoop ch") auto
    with sync \<open>chans w d = Some cd\<close> Some d show ?thesis
      by (simp add: kernel_mask_eq)
  qed (use Some p d in \<open>auto simp: kernel_mask_def\<close>)
qed (use d in \<open>simp add: kernel_mask_def\<close>)

lemma put_entry_ready: "channel_ready c (put_entry c ch p k w)"
  by (simp add: channel_ready_def map_entry_def)

lemma change_events_law:
  assumes wf: "registry_wf os ep w" and ready: "channel_ready c w"
  shows "\<exists>ch p k. chans w c = Some ch \<and> pollers w (chLoop ch) = Some p \<and>
    change_events os g c w = Inr (put_entry c (registered g ch) p k w) \<and>
    registry_wf os ep (put_entry c (registered g ch) p k w)"
proof -
  from ready obtain ch p where c: "chans w c = Some ch" "pollers w (chLoop ch) = Some p"
    by (auto simp: channel_ready_def)
  with wf change_events_cases [OF _ _ ready c, of ep os g] show ?thesis
    by (auto simp: registry_wf_def)
qed

interpretation er: event_registry "registry_wf os ep" channel_mask "kernel_mask ep" channel_ready
  "change_events os" "channel_remove os" for os ep
proof unfold_locales
  fix w :: "('a, 'b) poll_world_scheme" and c g
  assume wf: "registry_wf os ep w" and ready: "channel_ready c w"
  from change_events_law [OF wf ready, of g] obtain ch p k where
    u: "chans w c = Some ch" "pollers w (chLoop ch) = Some p"
      "change_events os g c w = Inr (put_entry c (registered g ch) p k w)"
      "registry_wf os ep (put_entry c (registered g ch) p k w)" (is "registry_wf os ep ?w")
    by blast
  have "kernel_mask ep ?w c = Some (g (channel_mask w c))" if "g (channel_mask w c) \<noteq> kNoneEvent"
  proof -
    have "kernel_mask ep ?w c = (if index (registered g ch) = KAdded then Some (events (registered g ch)) else None)"
      by (rule kernel_mask_eq) (use u in \<open>simp_all add: registry_wf_def\<close>)
    with that u(1) show ?thesis by (simp add: registered_def channel_mask_def)
  qed
  with u put_entry_others [of ep w c "registered g ch" p k] wf
  show "returns (change_events os g c w)
      (\<lambda>w'. registry_wf os ep w' \<and> channel_ready c w' \<and> channel_mask w' c = g (channel_mask w c) \<and>
        (g (channel_mask w c) \<noteq> kNoneEvent \<longrightarrow> kernel_mask ep w' c = Some (g (channel_mask w c))) \<and>
        (\<forall>d. d \<noteq> c \<longrightarrow> channel_mask w' d = channel_mask w d \<and> kernel_mask ep w' d = kernel_mask ep w d))"
    by (simp add: put_entry_ready channel_mask_def registry_wf_def)
next
  fix w :: "('a, 'b) poll_world_scheme" and c
  assume wf: "registry_wf os ep w" and ready: "channel_ready c w"
  then obtain ch p where c: "chans w c = Some ch" "pollers w (chLoop ch) = Some p"
    by (auto simp: channel_ready_def)
  from removeChannel_ok [OF _ _ ready c, of ep os] wf obtain k where
    u: "channel_remove os c w = Inr (put_entry c (set_index KNew ch) p k w)"
      "poller_sync ep (put_entry c (set_index KNew ch) p k w)" (is "poller_sync ep ?w")
    by (auto simp: registry_wf_def)
  have "kernel_mask ep ?w c = (if index (set_index KNew ch) = KAdded then Some (events (set_index KNew ch)) else None)"
    by (rule kernel_mask_eq) (use u in simp_all)
  with u c put_entry_others [of ep w c "set_index KNew ch" p k] wf
  show "returns (channel_remove os c w)
      (\<lambda>w'. registry_wf os ep w' \<and> channel_ready c w' \<and> channel_mask w' c = channel_mask w c \<and>
        kernel_mask ep w' c = None \<and>
        (\<forall>d. d \<noteq> c \<longrightarrow> channel_mask w' d = channel_mask w d \<and> kernel_mask ep w' d = kernel_mask ep w d))"
    by (simp add: put_entry_ready channel_mask_def registry_wf_def)
qed

end
