(* ===== verification/EventLoop.thy ===== *)
theory EventLoop
  imports Registry
begin

unbundle bit_operations_syntax

text \<open>
  \<open>include/muduo/EventLoop.hpp\<close> and \<open>src/EventLoop.cpp\<close>, as one thread executes them; the interleaving
  of several threads on one loop is the subject of \<open>LoopThreads\<close>. A \<open>Functor\<close> is a value of the
  datatype \<open>functor_cb\<close>, one constructor per lambda the code passes to \<open>runInLoop\<close> or \<open>queueInLoop\<close>, with
  what it captures; running it is a parameter, supplied where all of them are defined. \<open>curThread\<close> is the
  thread that executes, so \<open>isInLoopThread\<close> compares with it. \<open>assertInLoopThread\<close> has no counterpart:
  the code calls \<open>isInLoopThread()\<close> and drops its result.
\<close>

datatype functor_cb =
    SendInLoop conn "byte list"       \<comment> \<open>TcpConnection::send\<close>
  | ShutdownInLoop conn               \<comment> \<open>TcpConnection::shutdown\<close>
  | WriteComplete conn                \<comment> \<open>sendInLoop, handleWrite\<close>
  | HighWaterMark conn size_t         \<comment> \<open>sendInLoop\<close>
  | ConnectEstablished conn           \<comment> \<open>TcpServer::newConnection\<close>
  | RemoveConnectionInLoop conn       \<comment> \<open>TcpServer::removeConnection\<close>
  | ConnectDestroyed conn             \<comment> \<open>removeConnectionInLoop and ~TcpServer\<close>
  | AcceptorListen                    \<comment> \<open>TcpServer::start\<close>
  | UserFunctor nat                   \<comment> \<open>a functor of the application\<close>

record event_loop =
  looping :: bool
  quitFlag :: bool
  threadId :: tid
  pollReturnTime :: timestamp
  wakeupFd :: fd
  wakeupChannel :: cid
  activeChannels :: "cid list"
  callingPendingFunctors :: bool
  pendingFunctors :: "functor_cb list"

record 'k loop_world = "'k poll_world" +
  loops :: "lid \<Rightarrow> event_loop option"
  curThread :: tid
  loopInThisThread :: "tid \<Rightarrow> lid option"

definition kPollTimeMs :: int where "kPollTimeMs = 10000"

definition with_loop :: "lid \<Rightarrow> ('k, 'z) loop_world_scheme \<Rightarrow> (event_loop \<Rightarrow> 'a result) \<Rightarrow> 'a result" where
  "with_loop l w f = (case loops w l of None \<Rightarrow> Inl Undefined | Some lp \<Rightarrow> f lp)"

definition put_loop :: "lid \<Rightarrow> event_loop \<Rightarrow> ('k, 'z) loop_world_scheme \<Rightarrow> ('k, 'z) loop_world_scheme" where
  "put_loop l lp w = w\<lparr>loops := (loops w)(l := Some lp)\<rparr>"

definition modify_loop :: "lid \<Rightarrow> (event_loop \<Rightarrow> event_loop) \<Rightarrow> ('k, 'z) loop_world_scheme \<Rightarrow>
    ('k, 'z) loop_world_scheme result" where
  "modify_loop l f w = with_loop l w (\<lambda>lp. Inr (put_loop l (f lp) w))"

definition isInLoopThread :: "event_loop \<Rightarrow> ('k, 'z) loop_world_scheme \<Rightarrow> bool" where
  "isInLoopThread lp w \<longleftrightarrow> threadId lp = curThread w"

definition newDefaultPoller :: "'k os \<Rightarrow> lid \<Rightarrow> ('k, 'z) poll_world_scheme \<Rightarrow> ('k, 'z) poll_world_scheme result" where
  "newDefaultPoller os l w = new_poller os l w"

definition createEventfd :: "'k os \<Rightarrow> ('k, 'z) loop_world_scheme \<Rightarrow> (fd \<times> ('k, 'z) loop_world_scheme) result" where
  "createEventfd os w =
     (case sys_eventfd os (kern w) of
        (Inl e, k) \<Rightarrow> Inl ExitFailure
      | (Inr f, k) \<Rightarrow> Inr (f, w\<lparr>kern := k\<rparr>))"

text \<open>
  The constructor; \<open>l\<close> and \<open>c\<close> are the addresses of the loop and of the channel \<open>new\<close> returns. The
  assignment \<open>t_loopInThisThread = this\<close> stands inside the \<open>if\<close>, after the LOG_FATAL, so no execution
  reaches it.
\<close>

definition new_event_loop :: "'k os \<Rightarrow> lid \<Rightarrow> cid \<Rightarrow> ('k, 'z) loop_world_scheme \<Rightarrow>
    ('k, 'z) loop_world_scheme result" where
  "new_event_loop os l c w =
     andThen (newDefaultPoller os l w) (\<lambda>w.
     andThen (createEventfd os w) (\<lambda>(f, w).
       let w = put_channel c (new_channel l f) w;
           w = put_loop l \<lparr>looping = False, quitFlag = False, threadId = curThread w,
                 pollReturnTime = 0, wakeupFd = f, wakeupChannel = c, activeChannels = [],
                 callingPendingFunctors = False, pendingFunctors = []\<rparr> w
       in if loopInThisThread w (curThread w) \<noteq> None then Inl ExitFailure
          else andThen (modify_channel c (setReadCallback (LoopHandleRead l)) w) (enableReading os c)))"

text \<open>The destructor, with that of the poller and the wakeup channel the loop owns.\<close>

definition destroy_event_loop :: "'k os \<Rightarrow> lid \<Rightarrow> ('k, 'z) loop_world_scheme \<Rightarrow>
    ('k, 'z) loop_world_scheme result" where
  "destroy_event_loop os l w =
     with_loop l w (\<lambda>lp.
     andThen (disableAll os (wakeupChannel lp) w) (\<lambda>w.
     andThen (channel_remove os (wakeupChannel lp) w) (\<lambda>w.
     with_poller l w (\<lambda>p.
       let k = sys_close os (wakeupFd lp) (kern w) in
       Inr (w\<lparr>kern := sys_close os (epollfd p) k,
              loopInThisThread := (loopInThisThread w)(curThread w := None),
              chans := (chans w)(wakeupChannel lp := None),
              pollers := (pollers w)(l := None),
              loops := (loops w)(l := None)\<rparr>)))))"

definition wakeup :: "'k os \<Rightarrow> lid \<Rightarrow> ('k, 'z) loop_world_scheme \<Rightarrow> ('k, 'z) loop_world_scheme result" where
  "wakeup os l w = with_loop l w (\<lambda>lp. Inr (w\<lparr>kern := sys_eventfd_write os (wakeupFd lp) (kern w)\<rparr>))"

definition loop_handleRead :: "'k os \<Rightarrow> lid \<Rightarrow> ('k, 'z) loop_world_scheme \<Rightarrow> ('k, 'z) loop_world_scheme result" where
  "loop_handleRead os l w = with_loop l w (\<lambda>lp. Inr (w\<lparr>kern := sys_eventfd_read os (wakeupFd lp) (kern w)\<rparr>))"

definition queueInLoop :: "'k os \<Rightarrow> lid \<Rightarrow> functor_cb \<Rightarrow> ('k, 'z) loop_world_scheme \<Rightarrow>
    ('k, 'z) loop_world_scheme result" where
  "queueInLoop os l f w =
     andThen (modify_loop l (\<lambda>lp. lp\<lparr>pendingFunctors := pendingFunctors lp @ [f]\<rparr>) w) (\<lambda>w.
     with_loop l w (\<lambda>lp.
       if \<not> isInLoopThread lp w \<or> callingPendingFunctors lp then wakeup os l w else Inr w))"

text \<open>\<open>runInLoop(cb)\<close>: \<open>body\<close> is what calling \<open>cb\<close> does, \<open>f\<close> is \<open>cb\<close> as a queued value.\<close>

definition runInLoop :: "'k os \<Rightarrow> lid \<Rightarrow> functor_cb \<Rightarrow>
    (('k, 'z) loop_world_scheme \<Rightarrow> ('k, 'z) loop_world_scheme result) \<Rightarrow>
    ('k, 'z) loop_world_scheme \<Rightarrow> ('k, 'z) loop_world_scheme result" where
  "runInLoop os l f body w =
     with_loop l w (\<lambda>lp. if isInLoopThread lp w then body w else queueInLoop os l f w)"

definition quit :: "'k os \<Rightarrow> lid \<Rightarrow> ('k, 'z) loop_world_scheme \<Rightarrow> ('k, 'z) loop_world_scheme result" where
  "quit os l w =
     andThen (modify_loop l (\<lambda>lp. lp\<lparr>quitFlag := True\<rparr>) w) (\<lambda>w.
     with_loop l w (\<lambda>lp. if \<not> isInLoopThread lp w then wakeup os l w else Inr w))"

text \<open>A \<open>for\<close> loop over a list whose body may fail.\<close>

fun each :: "('a \<Rightarrow> 'w \<Rightarrow> 'w result) \<Rightarrow> 'a list \<Rightarrow> 'w \<Rightarrow> 'w result" where
  "each f [] w = Inr w"
| "each f (x # xs) w = andThen (f x w) (each f xs)"

definition doPendingFunctors ::
  "(functor_cb \<Rightarrow> ('k, 'z) loop_world_scheme \<Rightarrow> ('k, 'z) loop_world_scheme result) \<Rightarrow> lid \<Rightarrow>
    ('k, 'z) loop_world_scheme \<Rightarrow> ('k, 'z) loop_world_scheme result" where
  "doPendingFunctors run l w =
     andThen (modify_loop l (\<lambda>lp. lp\<lparr>callingPendingFunctors := True\<rparr>) w) (\<lambda>w.
     with_loop l w (\<lambda>lp.
       let functors = pendingFunctors lp;
           w = put_loop l (lp\<lparr>pendingFunctors := []\<rparr>) w
       in andThen (each run functors w)
            (modify_loop l (\<lambda>lp. lp\<lparr>callingPendingFunctors := False\<rparr>))))"

text \<open>One turn of the \<open>while\<close> loop of \<open>loop()\<close>: poll, handle the active channels, run the queue.\<close>

definition loop_iteration :: "'k os \<Rightarrow> (conn \<Rightarrow> ('k, 'z) loop_world_scheme \<Rightarrow> bool) \<Rightarrow>
    (event_cb \<Rightarrow> timestamp \<Rightarrow> ('k, 'z) loop_world_scheme \<Rightarrow> ('k, 'z) loop_world_scheme result) \<Rightarrow>
    (functor_cb \<Rightarrow> ('k, 'z) loop_world_scheme \<Rightarrow> ('k, 'z) loop_world_scheme result) \<Rightarrow> lid \<Rightarrow>
    ('k, 'z) loop_world_scheme \<Rightarrow> ('k, 'z) loop_world_scheme result" where
  "loop_iteration os alive run_cb run_f l w =
     andThen (poll os l kPollTimeMs [] w) (\<lambda>(now, active, w).
     andThen (modify_loop l (\<lambda>lp. lp\<lparr>activeChannels := active, pollReturnTime := now\<rparr>) w) (\<lambda>w.
     andThen (each (handleEvent alive run_cb now) active w)
       (doPendingFunctors run_f l)))"

partial_function (option) loop_while :: "'k os \<Rightarrow> (conn \<Rightarrow> ('k, 'z) loop_world_scheme \<Rightarrow> bool) \<Rightarrow>
    (event_cb \<Rightarrow> timestamp \<Rightarrow> ('k, 'z) loop_world_scheme \<Rightarrow> ('k, 'z) loop_world_scheme result) \<Rightarrow>
    (functor_cb \<Rightarrow> ('k, 'z) loop_world_scheme \<Rightarrow> ('k, 'z) loop_world_scheme result) \<Rightarrow> lid \<Rightarrow>
    ('k, 'z) loop_world_scheme \<Rightarrow> ('k, 'z) loop_world_scheme result option" where
  "loop_while os alive run_cb run_f l w =
     (case loops w l of
        None \<Rightarrow> Some (Inl Undefined)
      | Some lp \<Rightarrow>
          if quitFlag lp then Some (Inr w)
          else (case loop_iteration os alive run_cb run_f l w of
                  Inl e \<Rightarrow> Some (Inl e)
                | Inr w' \<Rightarrow> loop_while os alive run_cb run_f l w'))"

text \<open>\<open>loop()\<close>; \<open>None\<close> when it never returns.\<close>

definition loop :: "'k os \<Rightarrow> (conn \<Rightarrow> ('k, 'z) loop_world_scheme \<Rightarrow> bool) \<Rightarrow>
    (event_cb \<Rightarrow> timestamp \<Rightarrow> ('k, 'z) loop_world_scheme \<Rightarrow> ('k, 'z) loop_world_scheme result) \<Rightarrow>
    (functor_cb \<Rightarrow> ('k, 'z) loop_world_scheme \<Rightarrow> ('k, 'z) loop_world_scheme result) \<Rightarrow> lid \<Rightarrow>
    ('k, 'z) loop_world_scheme \<Rightarrow> ('k, 'z) loop_world_scheme result option" where
  "loop os alive run_cb run_f l w =
     (case modify_loop l (\<lambda>lp. lp\<lparr>looping := True, quitFlag := False\<rparr>) w of
        Inl e \<Rightarrow> Some (Inl e)
      | Inr w \<Rightarrow> map_option (\<lambda>r. andThen r (modify_loop l (\<lambda>lp. lp\<lparr>looping := False\<rparr>)))
                  (loop_while os alive run_cb run_f l w))"

lemma with_loop_Some [simp]: "loops w l = Some lp \<Longrightarrow> with_loop l w f = f lp"
  by (simp add: with_loop_def)

lemma modify_loop_Some [simp]: "loops w l = Some lp \<Longrightarrow> modify_loop l f w = Inr (put_loop l (f lp) w)"
  by (simp add: modify_loop_def)

lemma put_loop_simps [simp]:
  "loops (put_loop l lp w) = (loops w)(l \<mapsto> lp)"
  "kern (put_loop l lp w) = kern w" "chans (put_loop l lp w) = chans w"
  "pollers (put_loop l lp w) = pollers w" "curThread (put_loop l lp w) = curThread w"
  "loopInThisThread (put_loop l lp w) = loopInThisThread w"
  "loops (put_channel c ch w) = loops w" "curThread (put_channel c ch w) = curThread w"
  "loops (put_poller l p w) = loops w" "curThread (put_poller l p w) = curThread w"
  "loopInThisThread (put_channel c ch w) = loopInThisThread w"
  "loopInThisThread (put_poller l p w) = loopInThisThread w"
  by (simp_all add: put_loop_def put_channel_def put_poller_def)

lemma put_entry_loops [simp]:
  "loops (put_entry c ch p k w) = loops w" "curThread (put_entry c ch p k w) = curThread w"
  "loopInThisThread (put_entry c ch p k w) = loopInThisThread w"
  by (simp_all add: put_entry_def)

lemma each_append: "each f (xs @ ys) w = andThen (each f xs w) (each f ys)"
  by (induction xs arbitrary: w) (auto simp: andThen_def split: sum.splits)

text \<open>\<open>queueInLoop\<close> in one equation.\<close>

lemma queueInLoop_eq:
  assumes "loops w l = Some lp"
  shows "queueInLoop os l f w = Inr
    ((put_loop l (lp\<lparr>pendingFunctors := pendingFunctors lp @ [f]\<rparr>) w)
      \<lparr>kern := if threadId lp \<noteq> curThread w \<or> callingPendingFunctors lp
               then sys_eventfd_write os (wakeupFd lp) (kern w) else kern w\<rparr>)"
  using assms
  by (simp add: queueInLoop_def isInLoopThread_def wakeup_def put_loop_def)

end
