(* ===== verification/Buffer.thy ===== *)
theory Buffer
  imports Prelude
begin

text \<open>
  The byte buffer of \<open>include/muduo/Buffer.hpp\<close> and \<open>src/Buffer.cpp\<close>: a vector of bytes with a
  reader and a writer index, all of type \<open>size_t\<close>, so that index arithmetic is arithmetic on 64-bit
  words. \<open>extrabuf_\<close>, the 64 KiB array the second \<open>iovec\<close> of \<open>readFd\<close> points to, is no part of the
  state: nothing reads it before \<open>readv\<close> has written it, so the spilled bytes are a local of the
  model's \<open>readFd\<close>. Allocation does not fail; a request beyond \<open>max_size()\<close> throws.
\<close>

record buffer =
  bytes :: "byte list"
  readerIndex :: size_t
  writerIndex :: size_t

definition kCheapPrepend :: size_t where "kCheapPrepend = 8"
definition kInitialSize :: size_t where "kInitialSize = 1024"
definition kExtraBufSize :: size_t where "kExtraBufSize = 65536"

text \<open>\<open>std::vector<char>::max_size()\<close>, the largest size an array of bytes can have.\<close>

definition max_size :: nat where "max_size = 2 ^ 63 - 1"

definition buffer_size :: "buffer \<Rightarrow> size_t" where
  "buffer_size b = of_nat (length (bytes b))"

definition vector_resize :: "nat \<Rightarrow> byte list \<Rightarrow> byte list result" where
  "vector_resize n xs =
     (if max_size < n then Inl LengthError
      else Inr (take n xs @ replicate (n - length xs) 0))"

definition new_buffer :: "size_t \<Rightarrow> buffer result" where
  "new_buffer initialSize =
     noexcept (andThen (vector_resize (unat (kCheapPrepend + initialSize)) []) (\<lambda>v.
       Inr \<lparr>bytes = v, readerIndex = kCheapPrepend, writerIndex = kCheapPrepend\<rparr>))"

definition readableBytes :: "buffer \<Rightarrow> size_t" where
  "readableBytes b = writerIndex b - readerIndex b"

definition writableBytes :: "buffer \<Rightarrow> size_t" where
  "writableBytes b = buffer_size b - writerIndex b"

definition prependableBytes :: "buffer \<Rightarrow> size_t" where
  "prependableBytes b = readerIndex b"

text \<open>The bytes at \<open>peek()\<close>: reading \<open>n\<close> of them.\<close>

definition peek :: "buffer \<Rightarrow> nat \<Rightarrow> byte list" where
  "peek b n = take n (drop (unat (readerIndex b)) (bytes b))"

definition resetIndices :: "buffer \<Rightarrow> buffer" where
  "resetIndices b = b\<lparr>readerIndex := kCheapPrepend, writerIndex := kCheapPrepend\<rparr>"

definition retrieve :: "size_t \<Rightarrow> buffer \<Rightarrow> buffer" where
  "retrieve len b =
     (let len = min len (readableBytes b);
          b' = b\<lparr>readerIndex := readerIndex b + len\<rparr>
      in if readerIndex b' = writerIndex b' then resetIndices b' else b')"

definition retrieveAll :: "buffer \<Rightarrow> buffer" where
  "retrieveAll b = resetIndices b"

definition retrieveAsString :: "size_t \<Rightarrow> buffer \<Rightarrow> byte list \<times> buffer" where
  "retrieveAsString len b =
     (let len = min len (readableBytes b) in (peek b (unat len), retrieve len b))"

definition retrieveAllAsString :: "buffer \<Rightarrow> byte list \<times> buffer" where
  "retrieveAllAsString b = retrieveAsString (readableBytes b) b"

text \<open>
  \<open>std::copy(first, last, d_first)\<close> forwards inside one array; a destination strictly inside the
  source range, or at its start, is excluded by the standard.
\<close>

definition copy_within :: "nat \<Rightarrow> nat \<Rightarrow> nat \<Rightarrow> byte list \<Rightarrow> byte list result" where
  "copy_within beg fin d_first xs =
     (if beg \<le> d_first \<and> d_first < fin then Inl Undefined
      else store_at d_first (segment beg fin xs) xs)"

definition makeSpace :: "size_t \<Rightarrow> buffer \<Rightarrow> buffer result" where
  "makeSpace len b =
     (if writableBytes b + prependableBytes b < len + kCheapPrepend
      then andThen (vector_resize (unat (writerIndex b + len)) (bytes b)) (\<lambda>v.
             Inr (b\<lparr>bytes := v\<rparr>))
      else let readable = readableBytes b in
           andThen (copy_within (unat (readerIndex b)) (unat (writerIndex b))
                      (unat kCheapPrepend) (bytes b)) (\<lambda>v.
             Inr (b\<lparr>bytes := v, readerIndex := kCheapPrepend,
                    writerIndex := kCheapPrepend + readable\<rparr>)))"

definition ensureWritableSpace :: "size_t \<Rightarrow> buffer \<Rightarrow> buffer result" where
  "ensureWritableSpace len b = (if writableBytes b < len then makeSpace len b else Inr b)"

definition buffer_append :: "byte list \<Rightarrow> buffer \<Rightarrow> buffer result" where
  "buffer_append data b =
     (let len = of_nat (length data) in
      andThen (ensureWritableSpace len b) (\<lambda>b.
      andThen (store_at (unat (writerIndex b)) data (bytes b)) (\<lambda>v.
        Inr (b\<lparr>bytes := v, writerIndex := writerIndex b + len\<rparr>))))"

definition handleReadResult :: "size_t \<Rightarrow> size_t \<Rightarrow> byte list \<Rightarrow> buffer \<Rightarrow> buffer result" where
  "handleReadResult n writable extrabuf b =
     (if n \<le> writable then Inr (b\<lparr>writerIndex := writerIndex b + n\<rparr>)
      else buffer_append (take (unat (n - writable)) extrabuf)
             (b\<lparr>writerIndex := buffer_size b\<rparr>))"

text \<open>
  \<open>readv\<close> is the system call, a parameter: given the lengths of the \<open>iovec\<close>s it fails with an
  \<open>errno\<close> or delivers bytes, which fill the first \<open>iovec\<close> and then the second.
\<close>

definition read_iov :: "buffer \<Rightarrow> size_t list" where
  "read_iov b =
     (let writable = writableBytes b
      in if writable < kExtraBufSize then [writable, kExtraBufSize] else [writable])"

definition readFd ::
  "(size_t list \<Rightarrow> errno + byte list) \<Rightarrow> buffer \<Rightarrow> ((errno + size_t) \<times> buffer) result" where
  "readFd readv b =
     (let writable = writableBytes b
      in case readv (read_iov b) of
           Inl e \<Rightarrow> Inr (Inl e, b)
         | Inr d \<Rightarrow>
             noexcept
               (andThen (store_at (unat (writerIndex b)) (take (unat writable) d) (bytes b)) (\<lambda>v.
                andThen (handleReadResult (of_nat (length d)) writable (drop (unat writable) d)
                           (b\<lparr>bytes := v\<rparr>)) (\<lambda>b.
                  Inr (Inr (of_nat (length d)), b)))))"

text \<open>\<open>write\<close> is the system call: given the bytes it fails or accepts a number of them.\<close>

definition writeFd :: "(byte list \<Rightarrow> errno + size_t) \<Rightarrow> buffer \<Rightarrow> (errno + size_t) \<times> buffer" where
  "writeFd wr b =
     (let readable = readableBytes b in
      case wr (peek b (unat readable)) of
        Inl e \<Rightarrow> (Inl e, b)
      | Inr n \<Rightarrow> (Inr n, b\<lparr>readerIndex := readerIndex b + n\<rparr>))"

subsection \<open>The invariant and the contents\<close>

text \<open>
  The indices are in order and inside the vector, the eight bytes of \<open>kCheapPrepend\<close> stay in front
  of the reader, and the vector is no longer than an array can be.
\<close>

definition buffer_inv :: "buffer \<Rightarrow> bool" where
  "buffer_inv b \<longleftrightarrow>
     unat kCheapPrepend \<le> unat (readerIndex b) \<and> unat (readerIndex b) \<le> unat (writerIndex b) \<and>
     unat (writerIndex b) \<le> length (bytes b) \<and> length (bytes b) \<le> max_size"

text \<open>The unread bytes: what the buffer means to its client.\<close>

definition contents :: "buffer \<Rightarrow> byte list" where
  "contents b = segment (unat (readerIndex b)) (unat (writerIndex b)) (bytes b)"

named_theorems buffer_ops \<open>the buffer's operations, to be unfolded together\<close>

declare readableBytes_def [buffer_ops] writableBytes_def [buffer_ops]
  prependableBytes_def [buffer_ops] buffer_size_def [buffer_ops] resetIndices_def [buffer_ops]

lemma unat_constants [simp]:
  "unat kCheapPrepend = 8" "unat kInitialSize = 1024" "unat kExtraBufSize = 65536"
  by (simp_all add: kCheapPrepend_def kInitialSize_def kExtraBufSize_def)

lemma buffer_invD:
  assumes "buffer_inv b"
  shows "8 \<le> unat (readerIndex b)" "unat (readerIndex b) \<le> unat (writerIndex b)"
    "unat (writerIndex b) \<le> length (bytes b)" "length (bytes b) < 2 ^ 63"
  using assms by (auto simp: buffer_inv_def max_size_def)

lemma unat_buffer_size: "buffer_inv b \<Longrightarrow> unat (buffer_size b) = length (bytes b)"
  using buffer_invD(4) [of b] by (simp add: buffer_size_def unats)

lemma length_contents:
  "buffer_inv b \<Longrightarrow> length (contents b) = unat (writerIndex b) - unat (readerIndex b)"
  by (simp add: contents_def length_segment buffer_invD)

lemma unat_readable: "buffer_inv b \<Longrightarrow> unat (readableBytes b) = length (contents b)"
  by (simp add: readableBytes_def length_contents unats buffer_invD)

lemma unat_writable:
  "buffer_inv b \<Longrightarrow> unat (writableBytes b) = length (bytes b) - unat (writerIndex b)"
  by (simp add: writableBytes_def unat_buffer_size unats buffer_invD)

lemma contents_bound: "buffer_inv b \<Longrightarrow> length (contents b) \<le> length (bytes b) - 8"
  using buffer_invD [of b] by (simp add: length_contents)

lemma readable_zero_iff: "buffer_inv b \<Longrightarrow> readableBytes b = 0 \<longleftrightarrow> contents b = []"
  by (simp add: unat_eq_zero [symmetric] unat_readable)

lemma peek_contents: "buffer_inv b \<Longrightarrow> n \<le> length (contents b) \<Longrightarrow> peek b n = take n (contents b)"
  using length_contents [of b]
  by (simp add: peek_def contents_def segment_def min_absorb1 del: length_take length_drop)

lemma peek_all: "buffer_inv b \<Longrightarrow> peek b (unat (readableBytes b)) = contents b"
  by (simp add: unat_readable peek_contents)

subsection \<open>Construction and consumption\<close>

lemma new_buffer_ok:
  assumes "unat n + 8 \<le> max_size"
  shows "returns (new_buffer n) (\<lambda>b. buffer_inv b \<and> contents b = [] \<and> length (bytes b) = unat n + 8)"
proof -
  have "unat (kCheapPrepend + n) = unat n + 8"
    using assms by (subst unat_plus_size) (simp_all add: max_size_def)
  with assms show ?thesis
    by (simp add: new_buffer_def vector_resize_def buffer_inv_def contents_def)
qed

lemma resetIndices_ok:
  "buffer_inv b \<Longrightarrow> buffer_inv (resetIndices b) \<and> contents (resetIndices b) = []"
  by (auto simp: resetIndices_def buffer_inv_def contents_def)

lemma bytes_retrieve [simp]: "bytes (retrieve n b) = bytes b"
  by (simp add: retrieve_def Let_def resetIndices_def)

lemma retrieve_ok:
  assumes "buffer_inv b"
  shows "buffer_inv (retrieve n b) \<and> contents (retrieve n b) = drop (unat n) (contents b)"
proof -
  let ?n = "min n (readableBytes b)"
  let ?b = "b\<lparr>readerIndex := readerIndex b + ?n\<rparr>"
  note inv = buffer_invD [OF assms]
  have n: "unat ?n = min (unat n) (length (contents b))"
    using assms by (simp add: unats unat_readable)
  then have r: "unat (readerIndex ?b) = unat (readerIndex b) + min (unat n) (length (contents b))"
    using inv length_contents [OF assms] by (simp add: unat_plus_size)
  have inv': "buffer_inv ?b"
    using assms inv r length_contents [OF assms] by (auto simp: buffer_inv_def)
  have "contents ?b = drop (min (unat n) (length (contents b))) (contents b)"
    using r by (simp add: contents_def segment_suffix)
  then have c: "contents ?b = drop (unat n) (contents b)"
    by (simp add: min_def)
  show ?thesis
  proof (cases "readerIndex ?b = writerIndex ?b")
    case True
    then have "contents ?b = []" by (simp add: contents_def)
    with True c inv' show ?thesis
      using resetIndices_ok [OF inv'] by (simp add: retrieve_def Let_def)
  next
    case False
    with c inv' show ?thesis by (simp add: retrieve_def Let_def)
  qed
qed

lemmas retrieve_inv [simp] = retrieve_ok [THEN conjunct1]
lemmas contents_retrieve [simp] = retrieve_ok [THEN conjunct2]

lemma retrieve_min: "retrieve (min n (readableBytes b)) b = retrieve n b"
  by (simp add: retrieve_def)

lemma take_min_length: "take (min n (length xs)) xs = take n xs"
  by (simp add: min_def)

lemma retrieveAsString_ok:
  assumes "buffer_inv b"
  shows "retrieveAsString n b = (take (unat n) (contents b), retrieve n b)"
  using assms
  by (simp add: retrieveAsString_def Let_def retrieve_min unat_min unat_readable peek_contents
      take_min_length)

lemma retrieveAllAsString_ok:
  assumes "buffer_inv b"
  shows "fst (retrieveAllAsString b) = contents b"
    and "buffer_inv (snd (retrieveAllAsString b))"
    and "contents (snd (retrieveAllAsString b)) = []"
  using assms by (simp_all add: retrieveAllAsString_def retrieveAsString_ok unat_readable)

subsection \<open>Making space and appending\<close>

text \<open>
  The branch of \<open>makeSpace\<close>: over the lengths of arrays that exist, the sums in its condition do
  not wrap, so it compares what it means to compare.
\<close>

lemma makeSpace_guard:
  assumes "buffer_inv b" "unat len \<le> max_size"
  shows "writableBytes b + prependableBytes b < len + kCheapPrepend \<longleftrightarrow>
    length (bytes b) - unat (writerIndex b) + unat (readerIndex b) < unat len + 8"
proof -
  note inv = buffer_invD [OF assms(1)]
  have "unat (writableBytes b + prependableBytes b)
      = length (bytes b) - unat (writerIndex b) + unat (readerIndex b)"
    using inv unat_writable [OF assms(1)] by (simp add: prependableBytes_def unat_plus_size)
  moreover have "unat (len + kCheapPrepend) = unat len + 8"
    using assms(2) by (simp add: max_size_def unat_plus_size)
  ultimately show ?thesis by (simp add: word_less_nat_alt)
qed

lemma makeSpace_grow:
  assumes inv: "buffer_inv b" and len: "unat len \<le> max_size" "writableBytes b < len"
    and short: "length (bytes b) - unat (writerIndex b) + unat (readerIndex b) < unat len + 8"
  shows "makeSpace len b =
    (if max_size < unat (writerIndex b) + unat len then Inl LengthError
     else Inr (b\<lparr>bytes := bytes b
            @ replicate (unat (writerIndex b) + unat len - length (bytes b)) 0\<rparr>))"
proof -
  note ii = buffer_invD [OF inv]
  have w: "unat (writerIndex b + len) = unat (writerIndex b) + unat len"
    using ii len(1) by (simp add: max_size_def unat_plus_size)
  have "length (bytes b) < unat (writerIndex b) + unat len"
    using len(2) ii unat_writable [OF inv] by (simp add: word_less_nat_alt)
  with w show ?thesis
    using short by (simp add: makeSpace_def makeSpace_guard [OF inv len(1)] vector_resize_def)
qed

lemma makeSpace_move:
  assumes inv: "buffer_inv b" and len: "unat len \<le> max_size" "writableBytes b < len"
    and room: "unat len + 8 \<le> length (bytes b) - unat (writerIndex b) + unat (readerIndex b)"
  shows "\<exists>v. makeSpace len b = Inr (b\<lparr>bytes := v, readerIndex := kCheapPrepend,
      writerIndex := kCheapPrepend + readableBytes b\<rparr>) \<and> length v = length (bytes b) \<and>
    segment 8 (8 + length (contents b)) v = contents b"
proof -
  note ii = buffer_invD [OF inv]
  have "length (bytes b) - unat (writerIndex b) < unat len"
    using len(2) unat_writable [OF inv] by (simp add: word_less_nat_alt)
  with room have r: "8 < unat (readerIndex b)" by linarith
  have fits: "8 + length (contents b) \<le> length (bytes b)"
    using ii r length_contents [OF inv] by linarith
  let ?v = "take 8 (bytes b) @ contents b @ drop (8 + length (contents b)) (bytes b)"
  have "copy_within (unat (readerIndex b)) (unat (writerIndex b)) (unat kCheapPrepend) (bytes b) = Inr ?v"
    using r fits by (simp add: copy_within_def store_at_def contents_def [symmetric])
  moreover have "length ?v = length (bytes b)" using fits by simp
  ultimately show ?thesis
    using room segment_store_at [OF fits]
    by (intro exI [of _ ?v]) (simp add: makeSpace_def makeSpace_guard [OF inv len(1)] Let_def)
qed

definition space_made :: "buffer \<Rightarrow> size_t \<Rightarrow> buffer \<Rightarrow> bool" where
  "space_made b len b' \<longleftrightarrow> buffer_inv b' \<and> contents b' = contents b \<and>
     unat len \<le> length (bytes b') - unat (writerIndex b') \<and>
     length (bytes b') \<le> max (length (bytes b)) (unat (writerIndex b) + unat len)"

lemma ensureWritableSpace_cases:
  assumes inv: "buffer_inv b" and len: "unat len \<le> max_size"
  shows "(ensureWritableSpace len b = Inl LengthError \<and> max_size < unat (writerIndex b) + unat len) \<or>
    returns (ensureWritableSpace len b) (space_made b len)"
proof (cases "writableBytes b < len")
  case False
  then show ?thesis
    using inv by (simp add: ensureWritableSpace_def space_made_def word_less_nat_alt unat_writable)
next
  case less: True
  note ii = buffer_invD [OF inv]
  show ?thesis
  proof (cases "length (bytes b) - unat (writerIndex b) + unat (readerIndex b) < unat len + 8")
    case True
    show ?thesis
    proof (cases "max_size < unat (writerIndex b) + unat len")
      case True': False
      let ?b = "b\<lparr>bytes := bytes b @ replicate (unat (writerIndex b) + unat len - length (bytes b)) 0\<rparr>"
      have "space_made b len ?b"
        using inv ii True' less unat_writable [OF inv]
        by (auto simp: space_made_def buffer_inv_def contents_def segment_append_left
            word_less_nat_alt)
      with True' show ?thesis
        by (simp add: ensureWritableSpace_def less makeSpace_grow [OF inv len less True])
    qed (simp add: ensureWritableSpace_def less makeSpace_grow [OF inv len less True])
  next
    case False
    then obtain v where v: "makeSpace len b = Inr (b\<lparr>bytes := v, readerIndex := kCheapPrepend,
        writerIndex := kCheapPrepend + readableBytes b\<rparr>)" "length v = length (bytes b)"
      "segment 8 (8 + length (contents b)) v = contents b"
      using makeSpace_move [OF inv len less] by auto
    have w: "unat (kCheapPrepend + readableBytes b) = 8 + length (contents b)"
      using ii length_contents [OF inv] by (simp add: unat_plus_size unat_readable [OF inv])
    have "space_made b len (b\<lparr>bytes := v, readerIndex := kCheapPrepend,
        writerIndex := kCheapPrepend + readableBytes b\<rparr>)"
      using False ii v w length_contents [OF inv] inv
      by (auto simp: space_made_def buffer_inv_def contents_def max_size_def)
    with v show ?thesis by (simp add: ensureWritableSpace_def less)
  qed
qed

definition appended :: "buffer \<Rightarrow> byte list \<Rightarrow> buffer \<Rightarrow> bool" where
  "appended b d b' \<longleftrightarrow> buffer_inv b' \<and> contents b' = contents b @ d \<and>
     length (bytes b') \<le> max (length (bytes b)) (unat (writerIndex b) + length d)"

lemma write_into_space:
  assumes s: "space_made b (of_nat (length d)) b'" and d: "length d \<le> max_size"
  shows "returns (andThen (store_at (unat (writerIndex b')) d (bytes b')) (\<lambda>v.
      Inr (b'\<lparr>bytes := v, writerIndex := writerIndex b' + of_nat (length d)\<rparr>))) (appended b d)"
proof -
  have inv': "buffer_inv b'" using s by (simp add: space_made_def)
  note ii = buffer_invD [OF inv']
  have d': "unat (of_nat (length d) :: size_t) = length d"
    using d by (simp add: max_size_def unats)
  with s have "length d \<le> length (bytes b') - unat (writerIndex b')"
    by (simp add: space_made_def)
  with ii have fits: "unat (writerIndex b') + length d \<le> length (bytes b')"
    by linarith
  then have w: "unat (writerIndex b' + of_nat (length d)) = unat (writerIndex b') + length d"
    using ii d' by (simp add: unat_plus_size)
  show ?thesis
    using s fits w d' ii
    by (auto simp: store_at_def appended_def space_made_def buffer_inv_def contents_def
        segment_store_after)
qed

lemma buffer_append_cases:
  assumes inv: "buffer_inv b" and d: "length d \<le> max_size"
  shows "(buffer_append d b = Inl LengthError \<and> max_size < unat (writerIndex b) + length d) \<or>
    returns (buffer_append d b) (appended b d)"
proof -
  have d': "unat (of_nat (length d) :: size_t) = length d"
    using d by (simp add: max_size_def unats)
  consider "ensureWritableSpace (of_nat (length d)) b = Inl LengthError"
      "max_size < unat (writerIndex b) + length d"
    | b' where "ensureWritableSpace (of_nat (length d)) b = Inr b'" "space_made b (of_nat (length d)) b'"
    using ensureWritableSpace_cases [OF inv, of "of_nat (length d)"] d d' by (auto simp: returns_iff)
  then show ?thesis
  proof cases
    case 2
    with write_into_space [OF 2(2) d] show ?thesis by (simp add: buffer_append_def Let_def)
  qed (simp add: buffer_append_def)
qed

lemma buffer_append_ok:
  "buffer_inv b \<Longrightarrow> unat (writerIndex b) + length d \<le> max_size \<Longrightarrow>
    returns (buffer_append d b) (appended b d)"
  using buffer_append_cases [of b d] by auto

text \<open>Where the unread and the new bytes fit behind the prepend area, the vector keeps its size.\<close>

lemma buffer_append_in_place:
  assumes inv: "buffer_inv b" and d: "length d \<le> max_size"
    and fits: "length (contents b) + length d + 8 \<le> length (bytes b)"
  shows "returns (buffer_append d b) (\<lambda>b'. length (bytes b') = length (bytes b))"
proof -
  note ii = buffer_invD [OF inv] and c = length_contents [OF inv]
  let ?len = "of_nat (length d) :: size_t"
  have d': "unat ?len = length d"
    using d by (simp add: max_size_def unats)
  have room: "unat ?len + 8 \<le> length (bytes b) - unat (writerIndex b) + unat (readerIndex b)"
    using fits c ii d' by linarith
  have keep: "returns (ensureWritableSpace ?len b) (\<lambda>b'. length (bytes b') = length (bytes b))"
  proof (cases "writableBytes b < ?len")
    case True
    from makeSpace_move [OF inv _ True room] d d' show ?thesis
      by (auto simp: ensureWritableSpace_def True)
  qed (simp add: ensureWritableSpace_def)
  then obtain b1 where b1: "ensureWritableSpace ?len b = Inr b1" "length (bytes b1) = length (bytes b)"
    by (auto simp: returns_iff)
  then have s: "space_made b ?len b1"
    using ensureWritableSpace_cases [OF inv, of ?len] d d' by auto
  from write_into_space [OF s d] b1 show ?thesis
    by (auto simp: buffer_append_def Let_def returns_iff store_at_def split: if_splits)
qed

subsection \<open>System calls on the buffer\<close>

text \<open>
  What the kernel promises: \<open>readv\<close> delivers no more bytes than its \<open>iovec\<close>s hold, \<open>write\<close> accepts no
  more than it was given.
\<close>

definition readv_contract :: "(size_t list \<Rightarrow> errno + byte list) \<Rightarrow> bool" where
  "readv_contract readv \<longleftrightarrow>
     (\<forall>vec d. readv vec = Inr d \<longrightarrow> length d \<le> sum_list (map unat vec))"

definition write_contract :: "(byte list \<Rightarrow> errno + size_t) \<Rightarrow> bool" where
  "write_contract wr \<longleftrightarrow> (\<forall>d n. wr d = Inr n \<longrightarrow> unat n \<le> length d)"

lemma handleReadResult_cases:
  assumes inv: "buffer_inv b"
    and v: "v = take (unat (writerIndex b)) (bytes b) @ take k d
        @ drop (unat (writerIndex b) + length (take k d)) (bytes b)"
    and k: "k = length (bytes b) - unat (writerIndex b)" and d: "length d \<le> k + 65536"
  shows "(handleReadResult (of_nat (length d)) (writableBytes b) (drop k d) (b\<lparr>bytes := v\<rparr>) = Inl LengthError \<and>
      max_size < length (bytes b) + 65536) \<or>
    returns (handleReadResult (of_nat (length d)) (writableBytes b) (drop k d) (b\<lparr>bytes := v\<rparr>))
    (\<lambda>b'. buffer_inv b' \<and> contents b' = contents b @ d \<and>
      length (bytes b') \<le> length (bytes b) + 65536)"
proof -
  note ii = buffer_invD [OF inv]
  have k': "unat (writableBytes b) = k" using k by (simp add: unat_writable [OF inv])
  have d': "unat (of_nat (length d) :: size_t) = length d"
    using d k ii by (simp add: unats)
  have lv: "length v = length (bytes b)"
    using ii v k by (simp add: length_store)
  have seg: "segment (unat (readerIndex b)) (unat (writerIndex b) + length (take k d)) v
      = contents b @ take k d"
    unfolding v contents_def by (rule segment_store_after) (use ii k in auto)
  show ?thesis
  proof (cases "length d \<le> k")
    case True
    then have w: "unat (writerIndex b + of_nat (length d)) = unat (writerIndex b) + length d"
      using ii d' k by (simp add: unat_plus_size)
    have "of_nat (length d) \<le> writableBytes b"
      using True d' k' by (simp add: word_le_nat_alt)
    with True seg w lv ii k inv show ?thesis
      by (simp add: handleReadResult_def buffer_inv_def contents_def)
  next
    case False
    let ?b = "b\<lparr>bytes := v, writerIndex := buffer_size (b\<lparr>bytes := v\<rparr>)\<rparr>"
    have sz: "unat (buffer_size (b\<lparr>bytes := v\<rparr>)) = length (bytes b)"
      using ii lv by (simp add: buffer_size_def unats)
    have invb: "buffer_inv ?b"
      using inv ii lv sz by (simp add: buffer_inv_def)
    have c: "contents ?b = contents b @ take k d"
      using seg False k ii sz by (simp add: contents_def)
    have n: "unat (of_nat (length d) - writableBytes b) = length d - k"
      using False d' k' by (simp add: unat_minus_size)
    have call: "handleReadResult (of_nat (length d)) (writableBytes b) (drop k d) (b\<lparr>bytes := v\<rparr>) =
        buffer_append (drop k d) ?b"
      using False d' k' n by (simp add: handleReadResult_def word_le_nat_alt)
    have "length (drop k d) \<le> max_size" using d by (simp add: max_size_def)
    from buffer_append_cases [OF invb this] show ?thesis
    proof
      assume "buffer_append (drop k d) ?b = Inl LengthError \<and> max_size < unat (writerIndex ?b) + length (drop k d)"
      then show ?thesis using call sz d by auto
    next
      assume "returns (buffer_append (drop k d) ?b) (appended ?b (drop k d))"
      then have "returns (buffer_append (drop k d) ?b) (\<lambda>b'. buffer_inv b' \<and> contents b' = contents b @ d \<and>
          length (bytes b') \<le> length (bytes b) + 65536)"
        by (rule returns_mono) (use c sz lv d in \<open>auto simp: appended_def\<close>)
      then show ?thesis using call by simp
    qed
  qed
qed

lemma read_iov_sum:
  assumes "buffer_inv b"
  shows "sum_list (map unat (read_iov b)) \<le> length (bytes b) - unat (writerIndex b) + 65536"
  using unat_writable [OF assms] by (simp add: read_iov_def Let_def)

definition read_done :: "buffer \<Rightarrow> byte list \<Rightarrow> (errno + size_t) \<times> buffer \<Rightarrow> bool" where
  "read_done b d r \<longleftrightarrow> fst r = Inr (of_nat (length d)) \<and> buffer_inv (snd r) \<and>
     contents (snd r) = contents b @ d \<and> length (bytes (snd r)) \<le> length (bytes b) + 65536"

lemma readFd_cases:
  assumes inv: "buffer_inv b" and kernel: "readv_contract readv"
  shows "case readv (read_iov b) of
      Inl e \<Rightarrow> readFd readv b = Inr (Inl e, b)
    | Inr d \<Rightarrow> (readFd readv b = Inl Terminate \<and> max_size < length (bytes b) + 65536) \<or>
        returns (readFd readv b) (read_done b d)"
proof (cases "readv (read_iov b)")
  case (Inr d)
  note ii = buffer_invD [OF inv]
  let ?k = "length (bytes b) - unat (writerIndex b)"
  have d: "length d \<le> ?k + 65536"
    using kernel Inr read_iov_sum [OF inv] by (force simp: readv_contract_def)
  have st: "store_at (unat (writerIndex b)) (take ?k d) (bytes b) = Inr (take (unat (writerIndex b)) (bytes b)
      @ take ?k d @ drop (unat (writerIndex b) + length (take ?k d)) (bytes b))" (is "_ = Inr ?v")
    using ii by (simp add: store_at_def)
  from handleReadResult_cases [OF inv refl refl d] show ?thesis
    using Inr st by (auto simp: readFd_def Let_def unat_writable [OF inv] read_done_def returns_iff)
qed (simp add: readFd_def)

lemma readFd_ok:
  assumes "buffer_inv b" and "length (bytes b) + 65536 \<le> max_size" and "readv_contract readv"
  shows "case readv (read_iov b) of
      Inl e \<Rightarrow> readFd readv b = Inr (Inl e, b)
    | Inr d \<Rightarrow> returns (readFd readv b) (read_done b d)"
  using readFd_cases [OF assms(1,3)] assms(2) by (auto split: sum.splits)

lemma writeFd_ok:
  assumes inv: "buffer_inv b" and kernel: "write_contract wr"
  shows "case wr (contents b) of
      Inl e \<Rightarrow> writeFd wr b = (Inl e, b)
    | Inr n \<Rightarrow> fst (writeFd wr b) = Inr n \<and> buffer_inv (snd (writeFd wr b)) \<and>
        contents (snd (writeFd wr b)) = drop (unat n) (contents b)"
proof (cases "wr (contents b)")
  case (Inr n)
  note ii = buffer_invD [OF inv]
  have n: "unat n \<le> length (contents b)"
    using kernel Inr by (auto simp: write_contract_def)
  then have r: "unat (readerIndex b + n) = unat (readerIndex b) + unat n"
    using ii length_contents [OF inv] by (simp add: unat_plus_size)
  have "contents (b\<lparr>readerIndex := readerIndex b + n\<rparr>) = drop (unat n) (contents b)"
    using r by (simp add: contents_def segment_suffix)
  moreover have "buffer_inv (b\<lparr>readerIndex := readerIndex b + n\<rparr>)"
    using inv ii r n length_contents [OF inv] by (simp add: buffer_inv_def)
  ultimately show ?thesis
    using Inr by (simp add: writeFd_def Let_def peek_all [OF inv])
qed (simp add: writeFd_def Let_def peek_all [OF inv])

lemma bytes_writeFd [simp]: "bytes (snd (writeFd wr b)) = bytes b"
  by (simp add: writeFd_def Let_def split: sum.splits)

end
