(* ===== verification/ByteQueue.thy ===== *)
theory ByteQueue
  imports Buffer
begin

text \<open>
  What a client of the buffer relies on, as an interface: a queue of bytes with an operation that
  appends at the back and one that takes from the front. \<open>space q n\<close> says that \<open>n\<close> more bytes can be
  appended. The client lemmas are proved once inside the locale; the interpretation at the end
  discharges its laws for the buffer of the code, and the properties of this theory rest on it.
\<close>

text \<open>A client's use of the queue: a list of calls, and the run that collects what is taken out.\<close>

datatype queue_op = Put "byte list" | Get size_t

fun put_bytes :: "queue_op list \<Rightarrow> byte list" where
  "put_bytes [] = []"
| "put_bytes (Put d # ops) = d @ put_bytes ops"
| "put_bytes (Get n # ops) = put_bytes ops"

fun run_queue ::
  "(byte list \<Rightarrow> 'q \<Rightarrow> 'q result) \<Rightarrow> (size_t \<Rightarrow> 'q \<Rightarrow> byte list \<times> 'q) \<Rightarrow> queue_op list \<Rightarrow> 'q \<Rightarrow>
    (byte list \<times> 'q) result" where
  "run_queue put get [] q = Inr ([], q)"
| "run_queue put get (Put d # ops) q = andThen (put d q) (run_queue put get ops)"
| "run_queue put get (Get n # ops) q =
     (let (xs, q') = get n q in
      andThen (run_queue put get ops q') (\<lambda>(ys, q''). Inr (xs @ ys, q'')))"

locale byte_queue =
  fixes inv :: "'q \<Rightarrow> bool"
    and contents :: "'q \<Rightarrow> byte list"
    and space :: "'q \<Rightarrow> nat \<Rightarrow> bool"
    and put :: "byte list \<Rightarrow> 'q \<Rightarrow> 'q result"
    and get :: "size_t \<Rightarrow> 'q \<Rightarrow> byte list \<times> 'q"
  assumes put_law: "inv q \<Longrightarrow> space q (length d + n) \<Longrightarrow>
      returns (put d q) (\<lambda>q'. inv q' \<and> contents q' = contents q @ d \<and> space q' n)"
    and get_law: "inv q \<Longrightarrow>
      inv (snd (get m q)) \<and> fst (get m q) = take (unat m) (contents q) \<and>
      contents (snd (get m q)) = drop (unat m) (contents q) \<and>
      (space q n \<longrightarrow> space (snd (get m q)) n)"
begin

lemma put_returns:
  "inv q \<Longrightarrow> space q (length d) \<Longrightarrow>
    returns (put d q) (\<lambda>q'. inv q' \<and> contents q' = contents q @ d)"
  using put_law [of q d 0] by (auto elim: returns_mono)

lemma put_get:
  "inv q \<Longrightarrow> space q (length d) \<Longrightarrow> contents q = [] \<Longrightarrow>
    returns (put d q) (\<lambda>q'. unat m = length d \<longrightarrow>
      fst (get m q') = d \<and> contents (snd (get m q')) = [])"
  using put_returns [of q d] by (auto simp: get_law elim!: returns_mono)

lemma run_fifo:
  "inv q \<Longrightarrow> space q (length (put_bytes ops)) \<Longrightarrow>
    returns (run_queue put get ops q)
      (\<lambda>(out, q'). inv q' \<and> out @ contents q' = contents q @ put_bytes ops)"
proof (induction ops arbitrary: q rule: put_bytes.induct)
  case (2 d ops)
  from "2.prems" have "returns (put d q)
      (\<lambda>q'. inv q' \<and> contents q' = contents q @ d \<and> space q' (length (put_bytes ops)))"
    by (simp add: put_law)
  then show ?case using "2.IH" by (force simp: returns_iff)
next
  case (3 n ops)
  obtain xs q' where g: "get n q = (xs, q')" by (cases "get n q")
  have l: "inv q'" "xs @ contents q' = contents q" "space q' (length (put_bytes ops))"
    using get_law [of q n] "3.prems" g by auto
  from "3.IH" [OF l(1,3)] g l(2) show ?case
    by (auto simp: returns_iff)
qed simp

end

definition buffer_space :: "buffer \<Rightarrow> nat \<Rightarrow> bool" where
  "buffer_space b n \<longleftrightarrow> length (bytes b) + n \<le> max_size"

interpretation bq: byte_queue buffer_inv contents buffer_space buffer_append retrieveAsString
proof unfold_locales
  fix q and d :: "byte list" and n
  assume q: "buffer_inv q" and s: "buffer_space q (length d + n)"
  note ii = buffer_invD [OF q]
  have "unat (writerIndex q) + length d \<le> max_size"
    using ii s by (simp add: buffer_space_def)
  from buffer_append_ok [OF q this]
  show "returns (buffer_append d q)
      (\<lambda>q'. buffer_inv q' \<and> contents q' = contents q @ d \<and> buffer_space q' n)"
    by (rule returns_mono) (use s ii in \<open>auto simp: appended_def buffer_space_def\<close>)
qed (auto simp: retrieveAsString_ok buffer_space_def)

text \<open>A concrete buffer the witnesses use: four spare bytes and the unread bytes 1, 2.\<close>

definition sample_buffer :: buffer where
  "sample_buffer = \<lparr>bytes = [0, 0, 0, 0, 0, 0, 0, 0, 0, 1, 2, 0, 0], readerIndex = 9, writerIndex = 11\<rparr>"

lemma sample_buffer_simps [simp]:
  "buffer_inv sample_buffer" "contents sample_buffer = [1, 2]"
  "length (bytes sample_buffer) = 13" "unat (writerIndex sample_buffer) = 11"
  "unat (readerIndex sample_buffer) = 9"
  by (simp_all add: sample_buffer_def buffer_inv_def contents_def segment_def max_size_def)

section \<open>Properties of the buffer\<close>

text \<open>
  C14. The buffer is a first-in first-out byte stream. For any sequence of \<open>append\<close> and
  \<open>retrieveAsString\<close> calls (whatever lengths are asked for, whichever branch of \<open>makeSpace\<close> each
  append takes) on a buffer in a consistent state, the bytes handed out followed by the bytes
  still held are the bytes held before followed by all that was appended, in order; no call
  reads or writes outside the vector, and the state stays consistent.
\<close>

theorem buffer_stream_fifo:
  assumes "buffer_inv b" and "length (bytes b) + length (put_bytes ops) \<le> max_size"
  shows "returns (run_queue buffer_append retrieveAsString ops b)
    (\<lambda>(out, b'). buffer_inv b' \<and> out @ contents b' = contents b @ put_bytes ops)"
  using bq.run_fifo [OF assms(1)] assms(2) by (simp add: buffer_space_def)

theorem buffer_stream_fifo_witness:
  "returns (run_queue buffer_append retrieveAsString [Put [7, 8, 9], Get 1, Put [6], Get 100] sample_buffer)
    (\<lambda>(out, b'). buffer_inv b' \<and> out @ contents b' = [1, 2, 7, 8, 9, 6])"
  using buffer_stream_fifo [of sample_buffer "[Put [7, 8, 9], Get 1, Put [6], Get 100]"]
  by (simp add: max_size_def)

text \<open>
  \<open>append\<close> on every branch. Given any array of bytes that can exist, \<open>append\<close> either succeeds,
  and then the bytes held are extended by exactly the new ones, the state is consistent, and the
  vector has grown at most to the old writer index plus the new bytes (not at all when they fit
  after moving the unread bytes to the front); or it throws \<open>std::length_error\<close>, which happens
  only if those bytes cannot fit a vector. It never copies outside the vector or onto an
  overlapping destination, which the model would report as \<open>Undefined\<close>.
\<close>

theorem buffer_append_branches:
  assumes inv: "buffer_inv b" and d: "length d \<le> max_size"
  shows "case buffer_append d b of
      Inl e \<Rightarrow> e = LengthError \<and> max_size < unat (writerIndex b) + length d
    | Inr b' \<Rightarrow> buffer_inv b' \<and> contents b' = contents b @ d \<and>
        length (bytes b') \<le> max (length (bytes b)) (unat (writerIndex b) + length d) \<and>
        (length (contents b) + length d + 8 \<le> length (bytes b) \<longrightarrow> length (bytes b') = length (bytes b))"
proof (cases "buffer_append d b")
  case (Inl e)
  with buffer_append_cases [OF inv d] show ?thesis by auto
next
  case (Inr b')
  with buffer_append_cases [OF inv d] have a: "appended b d b'" by auto
  have "length (bytes b') = length (bytes b)" if "length (contents b) + length d + 8 \<le> length (bytes b)"
    using buffer_append_in_place [OF inv d that] Inr by simp
  with Inr a show ?thesis by (auto simp: appended_def)
qed

theorem buffer_append_branches_witness:
  "case buffer_append [5, 6, 7] sample_buffer of
      Inl e \<Rightarrow> e = LengthError \<and> max_size < 14
    | Inr b' \<Rightarrow> buffer_inv b' \<and> contents b' = [1, 2, 5, 6, 7] \<and> length (bytes b') = 13"
  using buffer_append_branches [of sample_buffer "[5, 6, 7]"]
  by (simp add: max_size_def split: sum.splits)

text \<open>
  C28. \<open>readFd\<close> with any kernel that honours the contract of \<open>readv\<close>: on an error it returns it and
  leaves the buffer alone; otherwise the bytes the kernel delivered, whether they fit the free
  space of the vector or spill into the 64 KiB array, are appended to the unread bytes in order
  and counted in the result. Being \<open>noexcept\<close>, it does not terminate the process as long as the
  vector can still grow by 64 KiB.
\<close>

theorem readFd_appends_delivered:
  assumes "buffer_inv b" and "length (bytes b) + 65536 \<le> max_size" and "readv_contract readv"
  shows "\<exists>r b'. readFd readv b = Inr (r, b') \<and> buffer_inv b' \<and>
    (case readv (read_iov b) of
       Inl e \<Rightarrow> r = Inl e \<and> b' = b
     | Inr d \<Rightarrow> r = Inr (of_nat (length d)) \<and> contents b' = contents b @ d)"
  using readFd_ok [OF assms] assms(1)
  by (auto simp: returns_iff read_done_def split: sum.splits)

theorem readFd_appends_delivered_witness:
  "\<exists>r b'. readFd (\<lambda>vec. Inr [3, 4, 5]) sample_buffer = Inr (r, b') \<and> buffer_inv b' \<and>
    r = Inr 3 \<and> contents b' = [1, 2, 3, 4, 5]"
proof -
  let ?readv = "\<lambda>vec. Inr (take (sum_list (map unat vec)) [3, 4, 5]) :: errno + byte list"
  have k: "readv_contract ?readv" by (simp add: readv_contract_def)
  have w: "writableBytes sample_buffer = 2"
    by (simp add: writableBytes_def buffer_size_def sample_buffer_def)
  have i: "read_iov sample_buffer = [2, 65536]"
    by (simp add: read_iov_def w kExtraBufSize_def)
  show ?thesis
    using readFd_appends_delivered [of sample_buffer ?readv, OF _ _ k] i
    by (simp add: max_size_def readFd_def)
qed

end
