(* ===== verification/TcpConnection.thy ===== *)
theory TcpConnection
  imports EventLoop ByteQueue
begin

unbundle bit_operations_syntax

text \<open>
  \<open>include/muduo/TcpConnection.hpp\<close>, with the operations of \<open>Socket.hpp\<close> it uses. A connection is a
  record of its fields; the connections live in a store indexed by their address, as the channels
  do, and \<open>weak_ptr::lock\<close> and a captured \<open>this\<close> look into it. A callback the application (or the
  server) set is a number; what calling it does is the parameter \<open>app\<close>, a record of functions. Log
  output is not modelled.
\<close>

datatype conn_state = Disconnected | Connecting | Connected | Disconnecting

record tcp_connection =
  cLoop :: lid
  cName :: string
  cState :: conn_state
  cSock :: fd
  cChan :: cid
  localAddr :: sockaddr
  peerAddr :: sockaddr
  inputBuffer :: buffer
  outputBuffer :: buffer
  onConnection :: "nat option"
  onMessage :: "nat option"
  onWriteComplete :: "nat option"
  onClose :: "nat option"
  onHighWaterMark :: "nat option"
  highWaterMark :: size_t

record 'k conn_world = "'k loop_world" +
  conns :: "conn \<Rightarrow> tcp_connection option"

record 'w app =
  app_connection :: "nat \<Rightarrow> conn \<Rightarrow> 'w \<Rightarrow> 'w result"
  app_message :: "nat \<Rightarrow> conn \<Rightarrow> timestamp \<Rightarrow> 'w \<Rightarrow> 'w result"
  app_writeComplete :: "nat \<Rightarrow> conn \<Rightarrow> 'w \<Rightarrow> 'w result"
  app_close :: "nat \<Rightarrow> conn \<Rightarrow> 'w \<Rightarrow> 'w result"
  app_highWater :: "nat \<Rightarrow> conn \<Rightarrow> size_t \<Rightarrow> 'w \<Rightarrow> 'w result"

definition with_conn :: "conn \<Rightarrow> ('k, 'z) conn_world_scheme \<Rightarrow> (tcp_connection \<Rightarrow> 'a result) \<Rightarrow> 'a result" where
  "with_conn i w f = (case conns w i of None \<Rightarrow> Inl Undefined | Some co \<Rightarrow> f co)"

definition put_conn :: "conn \<Rightarrow> tcp_connection \<Rightarrow> ('k, 'z) conn_world_scheme \<Rightarrow> ('k, 'z) conn_world_scheme" where
  "put_conn i co w = w\<lparr>conns := (conns w)(i := Some co)\<rparr>"

definition modify_conn :: "conn \<Rightarrow> (tcp_connection \<Rightarrow> tcp_connection) \<Rightarrow> ('k, 'z) conn_world_scheme \<Rightarrow>
    ('k, 'z) conn_world_scheme result" where
  "modify_conn i f w = with_conn i w (\<lambda>co. Inr (put_conn i (f co) w))"

definition state_name :: "conn_state \<Rightarrow> string" where
  "state_name s = (case s of Disconnected \<Rightarrow> ''Disconnected'' | Connecting \<Rightarrow> ''Connecting''
     | Connected \<Rightarrow> ''Connected'' | Disconnecting \<Rightarrow> ''Disconnecting'')"

text \<open>\<open>if (callback) callback(...)\<close>\<close>

definition call :: "('a \<Rightarrow> 'w \<Rightarrow> 'w result) \<Rightarrow> 'a option \<Rightarrow> 'w \<Rightarrow> 'w result" where
  "call f cb w = (case cb of None \<Rightarrow> Inr w | Some h \<Rightarrow> f h w)"

definition connected :: "tcp_connection \<Rightarrow> bool" where
  "connected co \<longleftrightarrow> cState co = Connected"

definition isBlockingError :: "errno \<Rightarrow> bool" where
  "isBlockingError e \<longleftrightarrow> e = 11" \<comment> \<open>EAGAIN and EWOULDBLOCK, which are equal on Linux\<close>

definition shutdownWrite :: "'k os \<Rightarrow> fd \<Rightarrow> ('k, 'z) conn_world_scheme \<Rightarrow> ('k, 'z) conn_world_scheme" where
  "shutdownWrite os f w = w\<lparr>kern := snd (sys_shutdown_wr os f (kern w))\<rparr>"

definition setOption :: "'k os \<Rightarrow> sock_option \<Rightarrow> bool \<Rightarrow> fd \<Rightarrow> ('k, 'z) chan_world_scheme \<Rightarrow> ('k, 'z) chan_world_scheme" where
  "setOption os opt on f w = w\<lparr>kern := snd (sys_setsockopt os f opt on (kern w))\<rparr>"

text \<open>The socket's pending error; on failure the \<open>errno\<close> of the call itself.\<close>

definition getSocketError :: "'k os \<Rightarrow> fd \<Rightarrow> ('k, 'z) chan_world_scheme \<Rightarrow> errno \<times> ('k, 'z) chan_world_scheme" where
  "getSocketError os f w =
     (case sys_getsockopt_error os f (kern w) of
        (Inl e, k) \<Rightarrow> (e, w\<lparr>kern := k\<rparr>)
      | (Inr e, k) \<Rightarrow> (e, w\<lparr>kern := k\<rparr>))"

subsection \<open>Construction and destruction\<close>

definition configureSocketOptions :: "'k os \<Rightarrow> fd \<Rightarrow> ('k, 'z) chan_world_scheme \<Rightarrow> ('k, 'z) chan_world_scheme" where
  "configureSocketOptions os f w = setOption os KeepAlive True f (setOption os TcpNoDelay True f w)"

definition setupChannelCallbacks :: "conn \<Rightarrow> channel \<Rightarrow> channel" where
  "setupChannelCallbacks i ch =
     setErrorCallback (ConnHandleError i) (setCloseCallback (ConnHandleClose i)
       (setWriteCallback (ConnHandleWrite i) (setReadCallback (ConnHandleRead i) ch)))"

definition kDefaultHighWaterMark :: size_t where "kDefaultHighWaterMark = 64 * 1024 * 1024"

definition new_connection :: "'k os \<Rightarrow> conn \<Rightarrow> cid \<Rightarrow> lid \<Rightarrow> string \<Rightarrow> fd \<Rightarrow> sockaddr \<Rightarrow> sockaddr \<Rightarrow>
    ('k, 'z) conn_world_scheme \<Rightarrow> ('k, 'z) conn_world_scheme result" where
  "new_connection os i c l name sockfd local peer w =
     andThen (new_buffer kInitialSize) (\<lambda>ib.
     andThen (new_buffer kInitialSize) (\<lambda>ob.
       let co = \<lparr>cLoop = l, cName = name, cState = Connecting, cSock = sockfd, cChan = c,
             localAddr = local, peerAddr = peer, inputBuffer = ib, outputBuffer = ob,
             onConnection = None, onMessage = None, onWriteComplete = None, onClose = None,
             onHighWaterMark = None, highWaterMark = kDefaultHighWaterMark\<rparr>;
           w = configureSocketOptions os sockfd (put_conn i co (put_channel c (new_channel l sockfd) w))
       in modify_channel c (setupChannelCallbacks i) w))"

text \<open>The destructor: the channel is freed and \<open>~Socket\<close> closes the descriptor.\<close>

definition destroy_connection :: "'k os \<Rightarrow> conn \<Rightarrow> ('k, 'z) conn_world_scheme \<Rightarrow> ('k, 'z) conn_world_scheme result" where
  "destroy_connection os i w =
     with_conn i w (\<lambda>co.
       Inr (w\<lparr>conns := (conns w)(i := None), chans := (chans w)(cChan co := None),
              kern := (if cSock co \<ge> 0 then sys_close os (cSock co) (kern w) else kern w)\<rparr>))"

definition conn_setConnectionCallback :: "nat option \<Rightarrow> tcp_connection \<Rightarrow> tcp_connection" where
  "conn_setConnectionCallback cb co = co\<lparr>onConnection := cb\<rparr>"

definition conn_setMessageCallback :: "nat option \<Rightarrow> tcp_connection \<Rightarrow> tcp_connection" where
  "conn_setMessageCallback cb co = co\<lparr>onMessage := cb\<rparr>"

definition conn_setWriteCompleteCallback :: "nat option \<Rightarrow> tcp_connection \<Rightarrow> tcp_connection" where
  "conn_setWriteCompleteCallback cb co = co\<lparr>onWriteComplete := cb\<rparr>"

definition conn_setCloseCallback :: "nat option \<Rightarrow> tcp_connection \<Rightarrow> tcp_connection" where
  "conn_setCloseCallback cb co = co\<lparr>onClose := cb\<rparr>"

definition conn_setHighWaterMarkCallback :: "nat option \<Rightarrow> size_t \<Rightarrow> tcp_connection \<Rightarrow> tcp_connection" where
  "conn_setHighWaterMarkCallback cb mark co = co\<lparr>onHighWaterMark := cb, highWaterMark := mark\<rparr>"

subsection \<open>Sending\<close>

text \<open>
  \<open>sendInLoop\<close> is in two parts. \<open>send_direct\<close> is the first \<open>if\<close>: it writes to the socket when nothing is
  queued before, and yields \<open>nwrote\<close>, \<open>remaining\<close> and \<open>error\<close>. \<open>send_rest\<close> is the second: it queues what
  remains in the output buffer.
\<close>

definition send_direct :: "'k os \<Rightarrow> byte list \<Rightarrow> conn \<Rightarrow> ('k, 'z) conn_world_scheme \<Rightarrow>
    (size_t \<times> size_t \<times> bool \<times> ('k, 'z) conn_world_scheme) result" where
  "send_direct os data i w =
     (let len = of_nat (length data) in
      with_conn i w (\<lambda>co. with_channel (cChan co) w (\<lambda>ch.
        if \<not> isWriting ch \<and> readableBytes (outputBuffer co) = 0
        then (case sys_write os (chFd ch) data (kern w) of
                (Inr n, k) \<Rightarrow>
                  andThen
                    (if len - n = 0 \<and> onWriteComplete co \<noteq> None
                     then queueInLoop os (cLoop co) (WriteComplete i) (w\<lparr>kern := k\<rparr>)
                     else Inr (w\<lparr>kern := k\<rparr>)) (\<lambda>w.
                  Inr (n, len - n, False, w))
              | (Inl e, k) \<Rightarrow>
                  if broken_pipe os e then Inl Killed else Inr (0, len, \<not> isBlockingError e, w\<lparr>kern := k\<rparr>))
        else Inr (0, len, False, w))))"

definition send_rest :: "'k os \<Rightarrow> byte list \<Rightarrow> conn \<Rightarrow>
    size_t \<times> size_t \<times> bool \<times> ('k, 'z) conn_world_scheme \<Rightarrow> ('k, 'z) conn_world_scheme result" where
  "send_rest os data i = (\<lambda>(nwrote, remaining, err, w).
     if \<not> err \<and> remaining > 0
     then with_conn i w (\<lambda>co.
       let oldLen = readableBytes (outputBuffer co) in
       andThen (buffer_append (take (unat remaining) (drop (unat nwrote) data)) (outputBuffer co)) (\<lambda>b.
       let w = put_conn i (co\<lparr>outputBuffer := b\<rparr>) w in
       andThen
         (if oldLen < highWaterMark co \<and> oldLen + remaining \<ge> highWaterMark co \<and> onHighWaterMark co \<noteq> None
          then queueInLoop os (cLoop co) (HighWaterMark i (oldLen + remaining)) w else Inr w) (\<lambda>w.
       with_channel (cChan co) w (\<lambda>ch.
         if \<not> isWriting ch then enableWriting os (cChan co) w else Inr w))))
     else Inr w)"

definition sendInLoop :: "'k os \<Rightarrow> byte list \<Rightarrow> conn \<Rightarrow> ('k, 'z) conn_world_scheme \<Rightarrow>
    ('k, 'z) conn_world_scheme result" where
  "sendInLoop os data i w = noexcept (andThen (send_direct os data i w) (send_rest os data i))"

definition send :: "'k os \<Rightarrow> byte list \<Rightarrow> conn \<Rightarrow> ('k, 'z) conn_world_scheme \<Rightarrow>
    ('k, 'z) conn_world_scheme result" where
  "send os data i w =
     with_conn i w (\<lambda>co.
       if cState co \<noteq> Connected then Inr w
       else with_loop (cLoop co) w (\<lambda>lp.
         if isInLoopThread lp w then sendInLoop os data i w
         else queueInLoop os (cLoop co) (SendInLoop i data) w))"

definition shutdownInLoop :: "'k os \<Rightarrow> conn \<Rightarrow> ('k, 'z) conn_world_scheme \<Rightarrow> ('k, 'z) conn_world_scheme result" where
  "shutdownInLoop os i w =
     with_conn i w (\<lambda>co. with_channel (cChan co) w (\<lambda>ch.
       if \<not> isWriting ch then Inr (shutdownWrite os (cSock co) w) else Inr w))"

definition shutdown :: "'k os \<Rightarrow> conn \<Rightarrow> ('k, 'z) conn_world_scheme \<Rightarrow> ('k, 'z) conn_world_scheme result" where
  "shutdown os i w =
     with_conn i w (\<lambda>co.
       let w = put_conn i (co\<lparr>cState := Disconnecting\<rparr>) w in
       if cState co = Connected
       then runInLoop os (cLoop co) (ShutdownInLoop i) (shutdownInLoop os i) w
       else Inr w)"

subsection \<open>The life cycle\<close>

definition connectEstablished :: "'k os \<Rightarrow> ('k, 'z) conn_world_scheme app \<Rightarrow> conn \<Rightarrow> ('k, 'z) conn_world_scheme \<Rightarrow>
    ('k, 'z) conn_world_scheme result" where
  "connectEstablished os app i w =
     with_conn i w (\<lambda>co.
     let w = put_conn i (co\<lparr>cState := Connected\<rparr>) w in
     andThen (modify_channel (cChan co) (tie i) w) (\<lambda>w.
     andThen (enableReading os (cChan co) w)
       (call (\<lambda>h. app_connection app h i) (onConnection co))))"

definition connectDestroyed :: "'k os \<Rightarrow> ('k, 'z) conn_world_scheme app \<Rightarrow> conn \<Rightarrow> ('k, 'z) conn_world_scheme \<Rightarrow>
    ('k, 'z) conn_world_scheme result" where
  "connectDestroyed os app i w =
     with_conn i w (\<lambda>co.
     let w = put_conn i (co\<lparr>cState := Disconnected\<rparr>) w in
     andThen
       (if cState co = Connected
        then andThen (disableAll os (cChan co) w) (call (\<lambda>h. app_connection app h i) (onConnection co))
        else Inr w)
       (channel_remove os (cChan co)))"

subsection \<open>The channel's callbacks\<close>

definition handleClose :: "'k os \<Rightarrow> ('k, 'z) conn_world_scheme app \<Rightarrow> conn \<Rightarrow> ('k, 'z) conn_world_scheme \<Rightarrow>
    ('k, 'z) conn_world_scheme result" where
  "handleClose os app i w =
     noexcept (with_conn i w (\<lambda>co.
     let w = put_conn i (co\<lparr>cState := Disconnected\<rparr>) w in
     andThen (disableAll os (cChan co) w) (\<lambda>w.
     andThen (call (\<lambda>h. app_connection app h i) (onConnection co) w) (\<lambda>w.
       with_conn i w (\<lambda>co. call (\<lambda>h. app_close app h i) (onClose co) w)))))"

definition handleError :: "'k os \<Rightarrow> conn \<Rightarrow> ('k, 'z) conn_world_scheme \<Rightarrow> ('k, 'z) conn_world_scheme result" where
  "handleError os i w = with_conn i w (\<lambda>co. Inr (snd (getSocketError os (cSock co) w)))"

definition handleRead :: "'k os \<Rightarrow> ('k, 'z) conn_world_scheme app \<Rightarrow> timestamp \<Rightarrow> conn \<Rightarrow>
    ('k, 'z) conn_world_scheme \<Rightarrow> ('k, 'z) conn_world_scheme result" where
  "handleRead os app receiveTime i w =
     noexcept (with_conn i w (\<lambda>co. with_channel (cChan co) w (\<lambda>ch.
     andThen (readFd (\<lambda>v. fst (sys_readv os (chFd ch) v (kern w))) (inputBuffer co)) (\<lambda>(n, b).
     let k = snd (sys_readv os (chFd ch) (read_iov (inputBuffer co)) (kern w));
         w = put_conn i (co\<lparr>inputBuffer := b\<rparr>) (w\<lparr>kern := k\<rparr>)
     in case n of
          Inr n \<Rightarrow> if n \<noteq> 0
                   then call (\<lambda>h. app_message app h i receiveTime) (onMessage co) w
                   else handleClose os app i w
        | Inl e \<Rightarrow> handleError os i w))))"

text \<open>What \<open>handleWrite\<close> does once the output buffer is empty.\<close>

definition write_drained :: "'k os \<Rightarrow> conn \<Rightarrow> ('k, 'z) conn_world_scheme \<Rightarrow> ('k, 'z) conn_world_scheme result" where
  "write_drained os i w =
     with_conn i w (\<lambda>co.
     andThen (disableWriting os (cChan co) w) (\<lambda>w.
     andThen (if onWriteComplete co \<noteq> None then queueInLoop os (cLoop co) (WriteComplete i) w else Inr w) (\<lambda>w.
       if cState co = Disconnecting then shutdownInLoop os i w else Inr w)))"

definition handleWrite :: "'k os \<Rightarrow> conn \<Rightarrow> ('k, 'z) conn_world_scheme \<Rightarrow> ('k, 'z) conn_world_scheme result" where
  "handleWrite os i w =
     noexcept (with_conn i w (\<lambda>co. with_channel (cChan co) w (\<lambda>ch.
     if isWriting ch
     then (let (n, b) = writeFd (\<lambda>d. fst (sys_write os (chFd ch) d (kern w))) (outputBuffer co);
               k = snd (sys_write os (chFd ch) (peek (outputBuffer co) (unat (readableBytes (outputBuffer co)))) (kern w))
           in case n of
                Inr n \<Rightarrow>
                  if n \<noteq> 0
                  then (let b = retrieve n b;
                            w = put_conn i (co\<lparr>outputBuffer := b\<rparr>) (w\<lparr>kern := k\<rparr>)
                        in if readableBytes b = 0 then write_drained os i w else Inr w)
                  else Inr (put_conn i (co\<lparr>outputBuffer := b\<rparr>) (w\<lparr>kern := k\<rparr>))
              | Inl e \<Rightarrow>
                  if broken_pipe os e then Inl Killed else Inr (put_conn i (co\<lparr>outputBuffer := b\<rparr>) (w\<lparr>kern := k\<rparr>)))
     else Inr w)))"

text \<open>
  The channel's callbacks of a connection, and the functors a connection queues. What other
  components store and queue is passed on to \<open>other\<close>.
\<close>

definition run_conn_callback :: "'k os \<Rightarrow> ('k, 'z) conn_world_scheme app \<Rightarrow>
    (event_cb \<Rightarrow> timestamp \<Rightarrow> ('k, 'z) conn_world_scheme \<Rightarrow> ('k, 'z) conn_world_scheme result) \<Rightarrow>
    event_cb \<Rightarrow> timestamp \<Rightarrow> ('k, 'z) conn_world_scheme \<Rightarrow> ('k, 'z) conn_world_scheme result" where
  "run_conn_callback os app other cb t w =
     (case cb of
        ConnHandleRead i \<Rightarrow> handleRead os app t i w
      | ConnHandleWrite i \<Rightarrow> handleWrite os i w
      | ConnHandleClose i \<Rightarrow> handleClose os app i w
      | ConnHandleError i \<Rightarrow> handleError os i w
      | LoopHandleRead l \<Rightarrow> loop_handleRead os l w
      | _ \<Rightarrow> other cb t w)"

definition run_conn_functor :: "'k os \<Rightarrow> ('k, 'z) conn_world_scheme app \<Rightarrow>
    (functor_cb \<Rightarrow> ('k, 'z) conn_world_scheme \<Rightarrow> ('k, 'z) conn_world_scheme result) \<Rightarrow>
    functor_cb \<Rightarrow> ('k, 'z) conn_world_scheme \<Rightarrow> ('k, 'z) conn_world_scheme result" where
  "run_conn_functor os app other f w =
     (case f of
        SendInLoop i d \<Rightarrow> sendInLoop os d i w
      | ShutdownInLoop i \<Rightarrow> shutdownInLoop os i w
      | WriteComplete i \<Rightarrow> with_conn i w (\<lambda>co.
          case onWriteComplete co of None \<Rightarrow> Inl BadFunctionCall | Some h \<Rightarrow> app_writeComplete app h i w)
      | HighWaterMark i n \<Rightarrow> with_conn i w (\<lambda>co.
          case onHighWaterMark co of None \<Rightarrow> Inl BadFunctionCall | Some h \<Rightarrow> app_highWater app h i n w)
      | ConnectEstablished i \<Rightarrow> connectEstablished os app i w
      | ConnectDestroyed i \<Rightarrow> connectDestroyed os app i w
      | _ \<Rightarrow> other f w)"

lemma with_conn_Some [simp]: "conns w i = Some co \<Longrightarrow> with_conn i w f = f co"
  by (simp add: with_conn_def)

lemma modify_conn_Some [simp]: "conns w i = Some co \<Longrightarrow> modify_conn i f w = Inr (put_conn i (f co) w)"
  by (simp add: modify_conn_def)

lemma put_conn_simps [simp]:
  "conns (put_conn i co w) = (conns w)(i \<mapsto> co)"
  "kern (put_conn i co w) = kern w" "chans (put_conn i co w) = chans w"
  "pollers (put_conn i co w) = pollers w" "loops (put_conn i co w) = loops w"
  "curThread (put_conn i co w) = curThread w"
  "conns (put_loop l lp w) = conns w" "conns (put_channel c ch w) = conns w"
  "conns (put_poller l p w) = conns w" "conns (put_entry c ch p k w) = conns w"
  by (simp_all add: put_conn_def put_loop_def put_channel_def put_poller_def put_entry_def)

lemma call_simps [simp]: "call f None w = Inr w" "call f (Some h) w = f h w"
  by (simp_all add: call_def)

end
