(* ===== verification/ConnectionInv.thy ===== *)
theory ConnectionInv
  imports TcpConnection
begin

unbundle bit_operations_syntax

text \<open>
  The invariant of a connection and the facts its proofs share: what the kernel promises about a
  socket's byte stream, which changes of the state a queued functor makes (none a connection can
  see), and how the channel's write interest follows the output buffer.
\<close>

subsection \<open>The byte stream of a socket\<close>

text \<open>
  \<open>acc k f\<close> is what the kernel has accepted for the descriptor \<open>f\<close> so far. A \<open>write\<close> accepts a prefix of
  its data; the other calls of the send path accept nothing.
\<close>

type_synonym 'k accepted = "'k \<Rightarrow> fd \<Rightarrow> byte list"

definition stream_contract :: "'k os \<Rightarrow> 'k accepted \<Rightarrow> bool" where
  "stream_contract os acc \<longleftrightarrow>
     (\<forall>f d k n k'. sys_write os f d k = (Inr n, k') \<longrightarrow>
        unat n \<le> length d \<and> acc k' = (acc k)(f := acc k f @ take (unat n) d)) \<and>
     (\<forall>f d k e k'. sys_write os f d k = (Inl e, k') \<longrightarrow> acc k' = acc k) \<and>
     (\<forall>e op f ev c k. acc (snd (sys_epoll_ctl os e op f ev c k)) = acc k) \<and>
     (\<forall>f k. acc (sys_eventfd_write os f k) = acc k) \<and>
     (\<forall>f k. acc (snd (sys_shutdown_wr os f k)) = acc k)"

lemma stream_contractD:
  assumes "stream_contract os acc"
  shows "sys_write os f d k = (Inr n, k') \<Longrightarrow> unat n \<le> length d"
    and "sys_write os f d k = (Inr n, k') \<Longrightarrow> acc k' = (acc k)(f := acc k f @ take (unat n) d)"
    and "sys_write os f d k = (Inl e, k') \<Longrightarrow> acc k' = acc k"
    and "acc (snd (sys_epoll_ctl os ed op f ev c k)) = acc k"
    and "acc (sys_eventfd_write os f k) = acc k"
    and "acc (snd (sys_shutdown_wr os f k)) = acc k"
  using assms unfolding stream_contract_def by blast+

text \<open>What the connection's peer has been or will be sent.\<close>

definition out_stream :: "'k accepted \<Rightarrow> ('k, 'z) conn_world_scheme \<Rightarrow> tcp_connection \<Rightarrow> byte list" where
  "out_stream acc w co = acc (kern w) (cSock co) @ contents (outputBuffer co)"

text \<open>The kernel's promises together, in a process that ignores SIGPIPE.\<close>

definition kernel_ok :: "'k os \<Rightarrow> 'k interest \<Rightarrow> 'k accepted \<Rightarrow> bool" where
  "kernel_ok os ep acc \<longleftrightarrow> epoll_contract os ep \<and> epoll_resources os ep \<and>
     io_keeps_interest os ep \<and> stream_contract os acc \<and>
     (\<forall>f v k. acc (snd (sys_readv os f v k)) = acc k) \<and> sigpipe_ignored os"

lemma toy_stream [simp]: "stream_contract toy_os toy_out"
  by (auto simp: stream_contract_def toy_os_def toy_write_def toy_ctl_def Let_def
      intro: order_trans [OF unat_of_nat_le] split: list.splits)

subsection \<open>Steps a connection does not notice\<close>

definition quiet :: "'k interest \<Rightarrow> 'k accepted \<Rightarrow> ('k, 'z) conn_world_scheme \<Rightarrow>
    ('k, 'z) conn_world_scheme \<Rightarrow> bool" where
  "quiet ep acc w w' \<longleftrightarrow> conns w' = conns w \<and> chans w' = chans w \<and> pollers w' = pollers w \<and>
     ep (kern w') = ep (kern w) \<and> acc (kern w') = acc (kern w) \<and> curThread w' = curThread w \<and>
     (\<forall>l. map_option threadId (loops w' l) = map_option threadId (loops w l))"

lemma quiet_refl [simp]: "quiet ep acc w w"
  by (simp add: quiet_def)

lemma quiet_trans: "quiet ep acc u v \<Longrightarrow> quiet ep acc v w \<Longrightarrow> quiet ep acc u w"
  by (simp add: quiet_def)

lemma kernel_okD:
  assumes "kernel_ok os ep acc"
  shows "epoll_contract os ep" "epoll_resources os ep" "stream_contract os acc"
    and "ep (snd (sys_write os f d k)) = ep k" "ep (sys_eventfd_write os f k) = ep k"
    and "ep (snd (sys_shutdown_wr os f k)) = ep k" "ep (snd (sys_readv os f v k)) = ep k"
    and "ep (snd (sys_getsockopt_error os f k)) = ep k" "acc (snd (sys_readv os f v k)) = acc k"
    and "\<not> broken_pipe os e"
  using assms by (auto simp: kernel_ok_def io_keeps_interest_def broken_pipe_def)

lemma queue_quiet:
  assumes "kernel_ok os ep acc" "loops w l \<noteq> None"
  shows "returns (queueInLoop os l f w) (quiet ep acc w)"
  using assms(2) kernel_okD(5) [OF assms(1)] stream_contractD(5) [OF kernel_okD(3) [OF assms(1)]]
  by (auto simp: queueInLoop_eq quiet_def put_loop_def)

lemma queue_if_quiet:
  assumes "kernel_ok os ep acc" "loops w l \<noteq> None"
  shows "returns (if b then queueInLoop os l f w else Inr w) (quiet ep acc w)"
  using queue_quiet [OF assms] by simp

lemma registry_cong:
  assumes "pollers w' = pollers w" "chans w' = chans w" "ep (kern w') = ep (kern w)"
  shows "registry_wf os ep w' = registry_wf os ep w" "channel_ready c w' = channel_ready c w"
  by (simp_all only: registry_wf_def poller_sync_def poller_ok_def channel_ready_def assms)

lemma registry_quiet:
  "quiet ep acc w w' \<Longrightarrow> registry_wf os ep w' = registry_wf os ep w"
  "quiet ep acc w w' \<Longrightarrow> channel_ready c w' = channel_ready c w"
  by (intro registry_cong; simp add: quiet_def)+

subsection \<open>The invariant of a connection\<close>

text \<open>
  The connection and its channel are alive and belong together, its loop exists and its channel can
  be given to the poller, and the buffers are consistent.
\<close>

definition conn_live :: "conn \<Rightarrow> ('k, 'z) conn_world_scheme \<Rightarrow> tcp_connection \<Rightarrow> channel \<Rightarrow> bool" where
  "conn_live i w co ch \<longleftrightarrow> conns w i = Some co \<and> chans w (cChan co) = Some ch \<and>
     chFd ch = cSock co \<and> chLoop ch = cLoop co \<and> loops w (cLoop co) \<noteq> None \<and>
     channel_ready (cChan co) w \<and> buffer_inv (inputBuffer co) \<and> buffer_inv (outputBuffer co)"

text \<open>Between two handlers the channel waits for the socket to become writable only while bytes are queued.\<close>

definition conn_wf :: "conn \<Rightarrow> ('k, 'z) conn_world_scheme \<Rightarrow> tcp_connection \<Rightarrow> channel \<Rightarrow> bool" where
  "conn_wf i w co ch \<longleftrightarrow> conn_live i w co ch \<and> (isWriting ch \<longrightarrow> contents (outputBuffer co) \<noteq> [])"

lemma quiet_loops: "quiet ep acc w w' \<Longrightarrow> loops w' l = None \<longleftrightarrow> loops w l = None"
proof -
  assume "quiet ep acc w w'"
  then have "map_option threadId (loops w' l) = map_option threadId (loops w l)"
    by (simp add: quiet_def)
  then show ?thesis by (metis map_option_is_None)
qed

lemma conn_wf_quiet: "quiet ep acc w w' \<Longrightarrow> conn_wf i w co ch \<Longrightarrow> conn_wf i w' co ch"
  using quiet_loops [of ep acc w w' "cLoop co"]
  by (auto simp: conn_wf_def conn_live_def registry_quiet(2)) (simp_all add: quiet_def)

lemma conn_liveD:
  assumes "conn_live i w co ch"
  shows "conns w i = Some co" "chans w (cChan co) = Some ch" "chFd ch = cSock co"
    "chLoop ch = cLoop co" "loops w (cLoop co) \<noteq> None" "channel_ready (cChan co) w"
    "buffer_inv (inputBuffer co)" "buffer_inv (outputBuffer co)"
  using assms by (auto simp: conn_live_def)

lemma conn_wfD:
  assumes "conn_wf i w co ch"
  shows "conns w i = Some co" "chans w (cChan co) = Some ch" "chFd ch = cSock co"
    "chLoop ch = cLoop co" "loops w (cLoop co) \<noteq> None" "channel_ready (cChan co) w"
    "buffer_inv (inputBuffer co)" "buffer_inv (outputBuffer co)"
    "isWriting ch \<Longrightarrow> contents (outputBuffer co) \<noteq> []" "conn_live i w co ch"
  using assms by (auto simp: conn_wf_def conn_live_def)

subsection \<open>Event masks\<close>

lemma event_masks_nonzero [simp]: "kWriteEvent \<noteq> 0" "kReadEvent \<noteq> 0"
  by (simp_all add: kWriteEvent_def kReadEvent_def EPOLLIN_def EPOLLPRI_def EPOLLOUT_def)

lemma mask_bits [simp]:
  "(e OR kWriteEvent) AND kWriteEvent \<noteq> 0"
  "(e OR kReadEvent) AND kReadEvent \<noteq> 0"
  "(e AND NOT kWriteEvent) AND kWriteEvent = 0"
  "(e AND NOT kReadEvent) AND kReadEvent = 0"
  by (simp_all add: kWriteEvent_def kReadEvent_def EPOLLIN_def EPOLLPRI_def EPOLLOUT_def
      bit_eq_iff bit_simps) (auto intro: exI [of _ 2] exI [of _ 0] exI [of _ 1])

lemma isWriting_registered [simp]:
  "isWriting (registered (\<lambda>e. e OR kWriteEvent) ch)"
  "\<not> isWriting (registered (\<lambda>e. e AND NOT kWriteEvent) ch)"
  "\<not> isWriting (registered (\<lambda>e. kNoneEvent) ch)"
  by (simp_all add: isWriting_def kNoneEvent_def)

text \<open>The registry's law with the connection's part of the state spelled out.\<close>

lemma conn_change_events:
  assumes k: "kernel_ok os ep acc" and reg: "registry_wf os ep w" and wf: "conn_live i w co ch"
  shows "\<exists>p k. change_events os g (cChan co) w = Inr (put_entry (cChan co) (registered g ch) p k w) \<and>
    registry_wf os ep (put_entry (cChan co) (registered g ch) p k w) \<and> acc k = acc (kern w)"
proof -
  note c = conn_liveD [OF wf]
  from change_events_law [OF reg c(6), of g] c(2) obtain p k where
    p: "pollers w (chLoop ch) = Some p" and
    u: "change_events os g (cChan co) w = Inr (put_entry (cChan co) (registered g ch) p k w)" and
    r: "registry_wf os ep (put_entry (cChan co) (registered g ch) p k w)"
    by auto
  have "poller_sync ep w" using reg by (simp add: registry_wf_def)
  from change_events_unfold [OF this c(2) p, of os g] u
  obtain q where "put_entry (cChan co) (registered g ch) p k w
      = put_entry (cChan co) (registered g ch) p
          (snd (sys_epoll_ctl os (epollfd p) (update_ctl g ch) (chFd ch) (g (events ch)) (cChan co) (kern w))) w"
    by (auto split: prod.splits option.splits if_splits)
  then have "kern (put_entry (cChan co) (registered g ch) p k w)
      = snd (sys_epoll_ctl os (epollfd p) (update_ctl g ch) (chFd ch) (g (events ch)) (cChan co) (kern w))"
    by (metis put_entry_fields(1))
  then have "acc k = acc (kern w)"
    by (simp add: stream_contractD(4) [OF kernel_okD(3) [OF k]])
  with u r show ?thesis by blast
qed

end
