(* ===== verification/ConnectionSend.thy ===== *)
theory ConnectionSend
  imports ConnectionInv
begin

unbundle bit_operations_syntax

text \<open>
  Sending: \<open>sendInLoop\<close> extends the connection's outgoing byte stream by the data, and keeps the
  invariant; shutting down waits for the output buffer.
\<close>

subsection \<open>Moving the invariant across the parts of a step\<close>

lemma registry_other_fields [simp]:
  "registry_wf os ep (put_conn i co w) = registry_wf os ep w"
  "channel_ready c (put_conn i co w) = channel_ready c w"
  "registry_wf os ep (put_loop l lp w) = registry_wf os ep w"
  "channel_ready c (put_loop l lp w) = channel_ready c w"
  by (intro registry_cong; simp)+

lemma registry_kern:
  fixes ep :: "'k interest"
  assumes "ep k = ep (kern w)"
  shows "registry_wf os ep (w\<lparr>kern := k\<rparr>) = registry_wf os ep w"
    and "channel_ready c (w\<lparr>kern := k\<rparr>) = channel_ready c w"
  using assms by (intro registry_cong; simp)+

lemma conn_wf_kern: "conn_wf i (w\<lparr>kern := k\<rparr>) co ch = conn_wf i w co ch"
  by (simp add: conn_wf_def conn_live_def channel_ready_def)

lemma conn_live_kern: "conn_live i (w\<lparr>kern := k\<rparr>) co ch = conn_live i w co ch"
  by (simp add: conn_live_def channel_ready_def)

lemma conn_wf_buffers:
  assumes "conn_wf i w co ch" "buffer_inv b" "buffer_inv b'" "isWriting ch \<longrightarrow> contents b' \<noteq> []"
  shows "conn_wf i (put_conn i (co\<lparr>inputBuffer := b, outputBuffer := b'\<rparr>) w)
    (co\<lparr>inputBuffer := b, outputBuffer := b'\<rparr>) ch"
  using assms by (simp add: conn_wf_def conn_live_def)

lemma conn_wf_output:
  assumes "conn_wf i w co ch" "buffer_inv b" "isWriting ch \<longrightarrow> contents b \<noteq> []"
  shows "conn_wf i (put_conn i (co\<lparr>outputBuffer := b\<rparr>) w) (co\<lparr>outputBuffer := b\<rparr>) ch"
  using conn_wf_buffers [OF assms(1) conn_wfD(7) [OF assms(1)] assms(2,3)] by simp

lemma conn_wf_put_entry:
  assumes "conn_live i w co ch" "isWriting (registered g ch) \<longrightarrow> contents (outputBuffer co) \<noteq> []"
  shows "conn_wf i (put_entry (cChan co) (registered g ch) p k w) co (registered g ch)"
  using assms put_entry_ready [of "cChan co" "registered g ch" p k w]
  by (simp add: conn_wf_def conn_live_def)

subsection \<open>The direct write\<close>

definition idle :: "tcp_connection \<Rightarrow> channel \<Rightarrow> bool" where
  "idle co ch \<longleftrightarrow> \<not> isWriting ch \<and> contents (outputBuffer co) = []"

lemma idle_guard: "conn_wf i w co ch \<Longrightarrow>
    (\<not> isWriting ch \<and> readableBytes (outputBuffer co) = 0) = idle co ch"
  by (simp add: idle_def readable_zero_iff conn_wfD)

text \<open>What the first part of \<open>sendInLoop\<close> establishes for the second.\<close>

definition sent_part :: "'k os \<Rightarrow> 'k interest \<Rightarrow> 'k accepted \<Rightarrow> byte list \<Rightarrow> conn \<Rightarrow>
    ('k, 'z) conn_world_scheme \<Rightarrow> tcp_connection \<Rightarrow> channel \<Rightarrow>
    size_t \<times> size_t \<times> bool \<times> ('k, 'z) conn_world_scheme \<Rightarrow> bool" where
  "sent_part os ep acc data i w co ch = (\<lambda>(m, rem, err, w').
     unat m \<le> length data \<and> unat rem = length data - unat m \<and>
     conn_wf i w' co ch \<and> registry_wf os ep w' \<and>
     acc (kern w') (cSock co) = acc (kern w) (cSock co) @ take (unat m) data \<and>
     (m = 0 \<or> idle co ch) \<and>
     (err \<longleftrightarrow> idle co ch \<and> (\<exists>e. fst (sys_write os (cSock co) data (kern w)) = Inl e \<and> \<not> isBlockingError e)) \<and>
     (err \<longrightarrow> m = 0))"

lemma send_direct_ok:
  assumes k: "kernel_ok os ep acc" and reg: "registry_wf os ep w" and wf: "conn_wf i w co ch"
    and len: "length data \<le> max_size"
  shows "returns (send_direct os data i w) (sent_part os ep acc data i w co ch)"
proof -
  note c = conn_wfD [OF wf] and s = stream_contractD [OF kernel_okD(3) [OF k]]
  have l: "unat (of_nat (length data) :: size_t) = length data"
    using len by (simp add: max_size_def unats)
  show ?thesis
  proof (cases "idle co ch")
    case False
    then show ?thesis
      using wf reg l c by (simp add: send_direct_def Let_def idle_guard [OF wf] sent_part_def)
  next
    case True
    obtain r k' where wr: "sys_write os (cSock co) data (kern w) = (r, k')" by fastforce
    have ep: "ep k' = ep (kern w)" using kernel_okD(4) [OF k, of "cSock co" data "kern w"] wr by simp
    note wf' = conn_wf_kern [THEN iffD2, OF wf]
      and reg' = registry_kern(1) [of ep, OF ep, THEN iffD2, OF reg]
    show ?thesis
    proof (cases r)
      case (Inl e)
      then show ?thesis
        using True wr c s(3) [of "cSock co" data "kern w" e k'] wf' reg' l kernel_okD(10) [OF k]
        by (simp add: send_direct_def Let_def idle_guard [OF wf] sent_part_def)
    next
      case (Inr n)
      note n = s(1,2) [OF wr [unfolded Inr]]
      have rem: "unat (of_nat (length data) - n) = length data - unat n"
        using n(1) l by (simp add: unat_minus_size)
      let ?q = "if of_nat (length data) - n = 0 \<and> onWriteComplete co \<noteq> None
          then queueInLoop os (cLoop co) (WriteComplete i) (w\<lparr>kern := k'\<rparr>) else Inr (w\<lparr>kern := k'\<rparr>)"
      have "returns ?q (quiet ep acc (w\<lparr>kern := k'\<rparr>))"
        by (rule queue_if_quiet [OF k]) (use c in simp)
      then obtain x where x: "?q = Inr x" "quiet ep acc (w\<lparr>kern := k'\<rparr>) x"
        by (auto simp: returns_iff)
      have "sent_part os ep acc data i w co ch (n, of_nat (length data) - n, False, x)"
        using True n rem wr Inr conn_wf_quiet [OF x(2) wf'] registry_quiet(1) [OF x(2)] reg' x(2)
        by (simp add: sent_part_def quiet_def)
      moreover have "send_direct os data i w = Inr (n, of_nat (length data) - n, False, x)"
        using True wr Inr c x(1) by (simp add: send_direct_def Let_def idle_guard [OF wf])
      ultimately show ?thesis by simp
    qed
  qed
qed

subsection \<open>Queueing the rest\<close>

text \<open>The outcome of a send: the invariant, the stream, and the write interest.\<close>

definition sent :: "'k os \<Rightarrow> 'k interest \<Rightarrow> conn \<Rightarrow> tcp_connection \<Rightarrow>
    ('k, 'z) conn_world_scheme \<Rightarrow> tcp_connection \<Rightarrow> channel \<Rightarrow> bool" where
  "sent os ep i co w' co' ch' \<longleftrightarrow> conn_wf i w' co' ch' \<and> registry_wf os ep w' \<and>
     co' = co\<lparr>outputBuffer := outputBuffer co'\<rparr>"

lemma raise_writing_entry:
  assumes k: "kernel_ok os ep acc" and reg: "registry_wf os ep w" and wf: "conn_wf i w co ch"
    and out: "contents (outputBuffer co) \<noteq> []"
  shows "returns (with_channel (cChan co) w (\<lambda>ch.
      if \<not> isWriting ch then enableWriting os (cChan co) w else Inr w))
    (\<lambda>w'. \<exists>ch'. sent os ep i co w' co ch' \<and> isWriting ch' \<and> acc (kern w') = acc (kern w))"
proof (cases "isWriting ch")
  case False
  note live = conn_wfD(10) [OF wf]
  from conn_change_events [OF k reg live, of "\<lambda>e. e OR kWriteEvent"] obtain p k' where
    "enableWriting os (cChan co) w = Inr (put_entry (cChan co) (registered (\<lambda>e. e OR kWriteEvent) ch) p k' w)"
    "registry_wf os ep (put_entry (cChan co) (registered (\<lambda>e. e OR kWriteEvent) ch) p k' w)"
    "acc k' = acc (kern w)"
    by (auto simp: channel_ops_change)
  with False out conn_wf_put_entry [OF live] conn_wfD(2) [OF wf] show ?thesis
    by (fastforce simp: sent_def)
next
  case True
  then show ?thesis using wf reg conn_wfD(2) [OF wf] by (auto simp: sent_def)
qed

lemma send_rest_ok:
  assumes k: "kernel_ok os ep acc" and part: "sent_part os ep acc data i w co ch (m, rem, err, v)"
    and run: "\<not> err" "rem > 0"
    and space: "length (bytes (outputBuffer co)) + length data \<le> max_size"
  shows "returns (send_rest os data i (m, rem, err, v))
    (\<lambda>w'. \<exists>co' ch'. sent os ep i co w' co' ch' \<and> isWriting ch' \<and>
      contents (outputBuffer co') = contents (outputBuffer co) @ drop (unat m) data \<and>
      acc (kern w') (cSock co) = acc (kern w) (cSock co) @ take (unat m) data)"
proof -
  have v: "conn_wf i v co ch" "registry_wf os ep v" "unat m \<le> length data"
    "unat rem = length data - unat m"
    "acc (kern v) (cSock co) = acc (kern w) (cSock co) @ take (unat m) data"
    using part by (auto simp: sent_part_def)
  note c = conn_wfD [OF v(1)]
  have rest: "take (unat rem) (drop (unat m) data) = drop (unat m) data" (is "?rest = _")
    using v(4) by simp
  have ne: "drop (unat m) data \<noteq> []" using run(2) v(4) by (simp add: word_less_nat_alt)
  have "unat (writerIndex (outputBuffer co)) + length ?rest \<le> max_size"
    using buffer_invD(3) [OF c(8)] space v(4) by simp
  from buffer_append_ok [OF c(8) this] obtain b where
    ap: "buffer_append ?rest (outputBuffer co) = Inr b" "appended (outputBuffer co) ?rest b"
    unfolding returns_iff by blast
  have b: "buffer_append ?rest (outputBuffer co) = Inr b" "buffer_inv b"
      "contents b = contents (outputBuffer co) @ drop (unat m) data"
    using ap unfolding rest appended_def by blast+
  let ?co = "co\<lparr>outputBuffer := b\<rparr>" and ?old = "readableBytes (outputBuffer co)"
  let ?u = "put_conn i ?co v"
  have u: "conn_wf i ?u ?co ch" "registry_wf os ep ?u"
    using conn_wf_output [OF v(1) b(2)] b(3) ne v(2) by simp_all
  have "returns (if ?old < highWaterMark co \<and> ?old + rem \<ge> highWaterMark co \<and> onHighWaterMark co \<noteq> None
      then queueInLoop os (cLoop co) (HighWaterMark i (?old + rem)) ?u else Inr ?u) (quiet ep acc ?u)"
    by (rule queue_if_quiet [OF k]) (use c in simp)
  then obtain x where x: "(if ?old < highWaterMark co \<and> ?old + rem \<ge> highWaterMark co \<and> onHighWaterMark co \<noteq> None
      then queueInLoop os (cLoop co) (HighWaterMark i (?old + rem)) ?u else Inr ?u) = Inr x"
    "quiet ep acc ?u x"
    by (auto simp: returns_iff)
  have xw: "conn_wf i x ?co ch" "registry_wf os ep x" "acc (kern x) = acc (kern v)"
    using conn_wf_quiet [OF x(2) u(1)] registry_quiet(1) [OF x(2)] u(2) x(2) by (simp_all add: quiet_def)
  have same: "cChan ?co = cChan co" by simp
  have "returns (with_channel (cChan co) x (\<lambda>ch.
      if \<not> isWriting ch then enableWriting os (cChan co) x else Inr x))
    (\<lambda>w'. \<exists>ch'. sent os ep i ?co w' ?co ch' \<and> isWriting ch' \<and> acc (kern w') = acc (kern x))"
    by (rule raise_writing_entry [OF k xw(2,1), unfolded same]) (use b(3) ne in simp)
  then have "returns (with_channel (cChan co) x (\<lambda>ch.
      if \<not> isWriting ch then enableWriting os (cChan co) x else Inr x))
    (\<lambda>w'. \<exists>co' ch'. sent os ep i co w' co' ch' \<and> isWriting ch' \<and>
      contents (outputBuffer co') = contents (outputBuffer co) @ drop (unat m) data \<and>
      acc (kern w') (cSock co) = acc (kern w) (cSock co) @ take (unat m) data)"
    by (rule returns_mono) (use b xw v in \<open>auto simp: sent_def intro!: exI [of _ ?co]\<close>)
  then show ?thesis
    using run b(1) c(1) x(1) by (simp add: send_rest_def Let_def)
qed

lemma sendInLoop_ok:
  assumes k: "kernel_ok os ep acc" and reg: "registry_wf os ep w" and wf: "conn_wf i w co ch"
    and space: "length (bytes (outputBuffer co)) + length data \<le> max_size"
  shows "returns (sendInLoop os data i w) (\<lambda>w'. \<exists>co' ch'. sent os ep i co w' co' ch' \<and>
    (if idle co ch \<and> (\<exists>e. fst (sys_write os (cSock co) data (kern w)) = Inl e \<and> \<not> isBlockingError e)
     then out_stream acc w' co' = out_stream acc w co \<and> idle co' ch'
     else out_stream acc w' co' = out_stream acc w co @ data \<and>
       (data \<noteq> [] \<or> (isWriting ch \<longleftrightarrow> contents (outputBuffer co) \<noteq> []) \<longrightarrow>
         (isWriting ch' \<longleftrightarrow> contents (outputBuffer co') \<noteq> []))))"
proof -
  have "length data \<le> max_size" using space by simp
  from send_direct_ok [OF k reg wf this] obtain m rem err v where
    d: "send_direct os data i w = Inr (m, rem, err, v)" and
    part: "sent_part os ep acc data i w co ch (m, rem, err, v)"
    unfolding returns_iff by (metis prod_cases4)
  note p = part [unfolded sent_part_def, simplified]
  show ?thesis
  proof (cases "\<not> err \<and> rem > 0")
    case True
    from send_rest_ok [OF k part _ _ space] True have
      "returns (send_rest os data i (m, rem, err, v)) (\<lambda>w'. \<exists>co' ch'. sent os ep i co w' co' ch' \<and>
        isWriting ch' \<and> contents (outputBuffer co') = contents (outputBuffer co) @ drop (unat m) data \<and>
        acc (kern w') (cSock co) = acc (kern w) (cSock co) @ take (unat m) data)"
      by blast
    then show ?thesis
      unfolding sendInLoop_def d noexcept_returns andThen_simps
    proof (rule returns_mono)
      fix w'
      assume "\<exists>co' ch'. sent os ep i co w' co' ch' \<and>
        isWriting ch' \<and> contents (outputBuffer co') = contents (outputBuffer co) @ drop (unat m) data \<and>
        acc (kern w') (cSock co) = acc (kern w) (cSock co) @ take (unat m) data"
      then obtain co' ch' where s: "sent os ep i co w' co' ch'" "isWriting ch'"
        "contents (outputBuffer co') = contents (outputBuffer co) @ drop (unat m) data"
        "acc (kern w') (cSock co) = acc (kern w) (cSock co) @ take (unat m) data" by blast
      have sock: "cSock co' = cSock co"
        using s(1) unfolding sent_def by (metis tcp_connection.select_convs(4) tcp_connection.surjective tcp_connection.update_convs(9))
      have "out_stream acc w' co' = out_stream acc w co @ data"
        using s p sock by (auto simp: out_stream_def idle_def)
      moreover have "contents (outputBuffer co') \<noteq> []"
        using s(3) True p by (auto simp: word_less_nat_alt)
      ultimately show "\<exists>co' ch'. sent os ep i co w' co' ch' \<and>
        (if idle co ch \<and> (\<exists>e. fst (sys_write os (cSock co) data (kern w)) = Inl e \<and> \<not> isBlockingError e)
         then out_stream acc w' co' = out_stream acc w co \<and> idle co' ch'
         else out_stream acc w' co' = out_stream acc w co @ data \<and>
           (data \<noteq> [] \<or> (isWriting ch \<longleftrightarrow> contents (outputBuffer co) \<noteq> []) \<longrightarrow>
         (isWriting ch' \<longleftrightarrow> contents (outputBuffer co') \<noteq> [])))"
        by (intro exI [of _ co'] exI [of _ ch']) (use s p True in auto)
    qed
  next
    case False
    then have r: "send_rest os data i (m, rem, err, v) = Inr v"
      by (auto simp: send_rest_def)
    have "sent os ep i co v co ch" using p by (simp add: sent_def)
    moreover have "out_stream acc v co = out_stream acc w co @ data" if "\<not> err"
    proof -
      have "unat m = length data" using False that p by (auto simp: word_less_nat_alt)
      then show ?thesis using p by (cases "data = []") (auto simp: out_stream_def idle_def)
    qed
    moreover have "out_stream acc v co = out_stream acc w co" if err
      using p that by (simp add: out_stream_def)
    moreover have "idle co ch" if "\<not> err" "data \<noteq> []"
      using False that p by (auto simp: word_less_nat_alt)
    ultimately show ?thesis
      unfolding sendInLoop_def d noexcept_returns andThen_simps r returns_simps
      using p by (intro exI [of _ co] exI [of _ ch]) (auto simp: idle_def)
  qed
qed

end
