(* ===== verification/ConnectionHandlers.thy ===== *)
theory ConnectionHandlers
  imports ConnectionSend
begin

unbundle bit_operations_syntax

text \<open>
  The channel's callbacks of a connection: what \<open>handleWrite\<close> does to the outgoing stream, when the
  write side is shut down, what \<open>handleRead\<close> delivers, and the state changes of the life cycle.
\<close>

subsection \<open>The end of the outgoing stream\<close>

text \<open>
  \<open>fin k f\<close>: the write side of the descriptor \<open>f\<close> has been shut down. Only \<open>shutdown(2)\<close> does that.
\<close>

definition fin_contract :: "'k os \<Rightarrow> ('k \<Rightarrow> fd \<Rightarrow> bool) \<Rightarrow> bool" where
  "fin_contract os fin \<longleftrightarrow>
     (\<forall>f k. fin (snd (sys_shutdown_wr os f k)) = (fin k)(f := True)) \<and>
     (\<forall>f d k. fin (snd (sys_write os f d k)) = fin k) \<and>
     (\<forall>f v k. fin (snd (sys_readv os f v k)) = fin k) \<and>
     (\<forall>e op f ev c k. fin (snd (sys_epoll_ctl os e op f ev c k)) = fin k) \<and>
     (\<forall>f k. fin (sys_eventfd_write os f k) = fin k)"

lemma fin_contractD:
  assumes "fin_contract os fin"
  shows "fin (snd (sys_shutdown_wr os f k)) = (fin k)(f := True)"
    and "fin (snd (sys_write os f d k)) = fin k"
    and "fin (snd (sys_readv os f v k)) = fin k"
    and "fin (snd (sys_epoll_ctl os ed op f ev c k)) = fin k"
    and "fin (sys_eventfd_write os f k) = fin k"
  using assms unfolding fin_contract_def by blast+

definition toy_fin :: "toy \<Rightarrow> fd \<Rightarrow> bool" where
  "toy_fin k f \<longleftrightarrow> f \<in> set (toy_shut k)"

lemma toy_fin_contract [simp]: "fin_contract toy_os toy_fin"
  by (auto simp: fin_contract_def toy_os_def toy_fin_def toy_ctl_def toy_write_def toy_readv_def
      Let_def fun_eq_iff split: list.splits)

text \<open>The kernel after a channel's update, over the views of the kernel that \<open>epoll_ctl\<close> keeps.\<close>

lemma change_events_kern:
  assumes reg: "registry_wf os ep w" and wf: "conn_live i w co ch"
    and keeps: "\<And>e op f ev c k. view (snd (sys_epoll_ctl os e op f ev c k)) = view k"
    and u: "change_events os g (cChan co) w = Inr w'"
  shows "view (kern w') = view (kern w)"
proof -
  note c = conn_liveD [OF wf]
  obtain p where p: "pollers w (chLoop ch) = Some p"
    using c(2,6) by (auto simp: channel_ready_def)
  have "poller_sync ep w" using reg by (simp add: registry_wf_def)
  from change_events_unfold [OF this c(2) p, of os g] u
  have "kern w' = snd (sys_epoll_ctl os (epollfd p) (update_ctl g ch) (chFd ch) (g (events ch)) (cChan co) (kern w))"
    by (auto split: prod.splits option.splits if_splits)
  then show ?thesis by (simp add: keeps)
qed

subsection \<open>Shutting down\<close>

lemma shutdownInLoop_eq:
  assumes "conn_wf i w co ch"
  shows "shutdownInLoop os i w =
    Inr (if isWriting ch then w else w\<lparr>kern := snd (sys_shutdown_wr os (cSock co) (kern w))\<rparr>)"
  using conn_wfD(1,2) [OF assms] by (simp add: shutdownInLoop_def shutdownWrite_def)

lemma conn_wf_state:
  "conn_wf i w co ch \<Longrightarrow> conn_wf i (put_conn i (co\<lparr>cState := s\<rparr>) w) (co\<lparr>cState := s\<rparr>) ch"
  by (simp add: conn_wf_def conn_live_def)

lemma shutdown_eq:
  assumes wf: "conn_wf i w co ch" and here: "loops w (cLoop co) = Some lp" "isInLoopThread lp w"
  shows "shutdown os i w = (let w = put_conn i (co\<lparr>cState := Disconnecting\<rparr>) w in
    Inr (if cState co \<noteq> Connected \<or> isWriting ch then w
         else w\<lparr>kern := snd (sys_shutdown_wr os (cSock co) (kern w))\<rparr>))"
  using conn_wfD(1) [OF wf] here shutdownInLoop_eq [OF conn_wf_state [OF wf]]
  by (simp add: shutdown_def Let_def runInLoop_def isInLoopThread_def)

subsection \<open>Writing what is queued\<close>

text \<open>What \<open>handleWrite\<close> leaves in the output buffer when the kernel accepted \<open>n\<close> bytes of it.\<close>

lemma write_then_retrieve:
  assumes b: "buffer_inv b" and wr: "wr (contents b) = Inr n" "unat n \<le> length (contents b)"
  shows "writeFd wr b = (Inr n, b\<lparr>readerIndex := readerIndex b + n\<rparr>)"
    and "buffer_inv (b\<lparr>readerIndex := readerIndex b + n\<rparr>)"
    and "contents (b\<lparr>readerIndex := readerIndex b + n\<rparr>) = drop (unat n) (contents b)"
    and "buffer_inv (retrieve n (b\<lparr>readerIndex := readerIndex b + n\<rparr>))"
    and "contents (retrieve n (b\<lparr>readerIndex := readerIndex b + n\<rparr>)) = drop (2 * unat n) (contents b)"
proof -
  let ?wr = "\<lambda>d. if d = contents b then Inr n else Inl (0 :: errno)"
  have c: "write_contract ?wr" using wr(2) by (simp add: write_contract_def)
  have eq: "writeFd ?wr b = (Inr n, b\<lparr>readerIndex := readerIndex b + n\<rparr>)"
    by (simp add: writeFd_def Let_def peek_all [OF b])
  show "writeFd wr b = (Inr n, b\<lparr>readerIndex := readerIndex b + n\<rparr>)"
    using wr(1) by (simp add: writeFd_def Let_def peek_all [OF b])
  from writeFd_ok [OF b c] eq
  show inv: "buffer_inv (b\<lparr>readerIndex := readerIndex b + n\<rparr>)"
    and con: "contents (b\<lparr>readerIndex := readerIndex b + n\<rparr>) = drop (unat n) (contents b)"
    by simp_all
  from retrieve_ok [OF inv, of n] con
  show "buffer_inv (retrieve n (b\<lparr>readerIndex := readerIndex b + n\<rparr>))"
    and "contents (retrieve n (b\<lparr>readerIndex := readerIndex b + n\<rparr>)) = drop (2 * unat n) (contents b)"
    by (simp_all add: mult_2)
qed

text \<open>The views of the kernel a step leaves alone, and what it does to the others.\<close>

definition drained :: "'k os \<Rightarrow> 'k interest \<Rightarrow> 'k accepted \<Rightarrow> ('k \<Rightarrow> fd \<Rightarrow> bool) \<Rightarrow> conn \<Rightarrow>
    ('k, 'z) conn_world_scheme \<Rightarrow> tcp_connection \<Rightarrow> ('k, 'z) conn_world_scheme \<Rightarrow> bool" where
  "drained os ep acc fin i w co w' \<longleftrightarrow>
     (\<exists>ch'. conn_wf i w' co ch' \<and> registry_wf os ep w' \<and> \<not> isWriting ch' \<and>
        acc (kern w') = acc (kern w) \<and>
        fin (kern w') = (if cState co = Disconnecting then (fin (kern w))(cSock co := True) else fin (kern w)))"

lemma write_drained_ok:
  assumes k: "kernel_ok os ep acc" "fin_contract os fin" and reg: "registry_wf os ep w"
    and wf: "conn_live i w co ch"
  shows "returns (write_drained os i w) (drained os ep acc fin i w co)"
proof -
  note c = conn_liveD [OF wf] and s = stream_contractD [OF kernel_okD(3) [OF k(1)]]
    and fn = fin_contractD [OF k(2)]
  let ?ch = "registered (\<lambda>e. e AND NOT kWriteEvent) ch"
  from conn_change_events [OF k(1) reg wf, of "\<lambda>e. e AND NOT kWriteEvent"] obtain p k' where
    u: "change_events os (\<lambda>e. e AND NOT kWriteEvent) (cChan co) w = Inr (put_entry (cChan co) ?ch p k' w)"
    "registry_wf os ep (put_entry (cChan co) ?ch p k' w)" "acc k' = acc (kern w)" by blast
  let ?v = "put_entry (cChan co) ?ch p k' w"
  have v: "conn_wf i ?v co ?ch" by (rule conn_wf_put_entry [OF wf]) simp
  have vf: "fin (kern ?v) = fin (kern w)"
    by (rule change_events_kern [OF reg wf _ u(1)]) (rule fn(4))
  let ?q = "if onWriteComplete co \<noteq> None then queueInLoop os (cLoop co) (WriteComplete i) ?v else Inr ?v"
  have "returns ?q (\<lambda>x. quiet ep acc ?v x \<and> fin (kern x) = fin (kern ?v))"
    using queue_if_quiet [OF k(1), of ?v "cLoop co" "onWriteComplete co \<noteq> None" "WriteComplete i"] c(5) fn(5)
    by (auto simp: returns_iff queueInLoop_eq)
  then obtain x where x: "?q = Inr x" "quiet ep acc ?v x" "fin (kern x) = fin (kern ?v)"
    by (auto simp: returns_iff)
  have xw: "conn_wf i x co ?ch" "registry_wf os ep x"
    using conn_wf_quiet [OF x(2) v] registry_quiet(1) [OF x(2)] u(2) by simp_all
  let ?k = "snd (sys_shutdown_wr os (cSock co) (kern x))"
  have "conn_wf i (x\<lparr>kern := ?k\<rparr>) co ?ch" "registry_wf os ep (x\<lparr>kern := ?k\<rparr>)"
    using xw registry_kern(1) [of ep ?k x, OF kernel_okD(6) [OF k(1)]] by (simp_all add: conn_wf_kern)
  then have "returns (if cState co = Disconnecting then shutdownInLoop os i x else Inr x)
      (drained os ep acc fin i w co)"
    using xw u(3) vf x(2,3) fn(1) s(6)
    by (auto simp: shutdownInLoop_eq [OF xw(1)] drained_def quiet_def intro!: exI [of _ ?ch])
  then show ?thesis
    using c(1) u(1) x(1) by (simp add: write_drained_def channel_ops_change)
qed

text \<open>How many bytes of the output buffer the kernel accepts in this call of \<open>handleWrite\<close>.\<close>

definition accepted_now :: "'k os \<Rightarrow> ('k, 'z) conn_world_scheme \<Rightarrow> tcp_connection \<Rightarrow> nat" where
  "accepted_now os w co =
     (case fst (sys_write os (cSock co) (contents (outputBuffer co)) (kern w)) of
        Inl e \<Rightarrow> 0 | Inr n \<Rightarrow> unat n)"

definition written :: "'k os \<Rightarrow> 'k interest \<Rightarrow> 'k accepted \<Rightarrow> ('k \<Rightarrow> fd \<Rightarrow> bool) \<Rightarrow> conn \<Rightarrow>
    ('k, 'z) conn_world_scheme \<Rightarrow> tcp_connection \<Rightarrow> ('k, 'z) conn_world_scheme \<Rightarrow> bool" where
  "written os ep acc fin i w co w' \<longleftrightarrow>
     (let n = accepted_now os w co; out = contents (outputBuffer co) in
      \<exists>co' ch'. conn_wf i w' co' ch' \<and> registry_wf os ep w' \<and>
        co' = co\<lparr>outputBuffer := outputBuffer co'\<rparr> \<and>
        acc (kern w') (cSock co) = acc (kern w) (cSock co) @ take n out \<and>
        contents (outputBuffer co') = drop (2 * n) out \<and>
        (isWriting ch' \<longleftrightarrow> contents (outputBuffer co') \<noteq> []) \<and>
        (fin (kern w') (cSock co) \<longleftrightarrow> fin (kern w) (cSock co) \<or>
           cState co = Disconnecting \<and> contents (outputBuffer co') = []))"

lemma handleWrite_ok:
  assumes k: "kernel_ok os ep acc" "fin_contract os fin" and reg: "registry_wf os ep w"
    and wf: "conn_wf i w co ch" and wr: "isWriting ch"
  shows "returns (handleWrite os i w) (written os ep acc fin i w co)"
proof -
  note c = conn_wfD [OF wf] and s = stream_contractD [OF kernel_okD(3) [OF k(1)]]
    and fn = fin_contractD [OF k(2)]
  let ?out = "contents (outputBuffer co)"
  obtain r k' where w: "sys_write os (cSock co) ?out (kern w) = (r, k')" by fastforce
  have ep: "ep k' = ep (kern w)" using kernel_okD(4) [OF k(1), of "cSock co" ?out "kern w"] w by simp
  have f: "fin k' = fin (kern w)" using fn(2) [of "cSock co" ?out "kern w"] w by simp
  note wf' = conn_wf_kern [THEN iffD2, OF wf, of k']
    and reg' = registry_kern(1) [of ep, OF ep, THEN iffD2, OF reg]
  have stay: "conn_wf i (put_conn i co (w\<lparr>kern := k'\<rparr>)) co ch" "registry_wf os ep (put_conn i co (w\<lparr>kern := k'\<rparr>))"
    using wf' reg' by (simp_all add: conn_wf_def conn_live_def)
  show ?thesis
  proof (cases "accepted_now os w co = 0")
    case True
    then have "acc k' (cSock co) = acc (kern w) (cSock co)"
      using w s(2) [of "cSock co" ?out "kern w" _ k'] s(3) [of "cSock co" ?out "kern w" _ k']
      by (cases r) (auto simp: accepted_now_def)
    moreover have "handleWrite os i w = Inr (put_conn i co (w\<lparr>kern := k'\<rparr>))"
      using True w c wr kernel_okD(10) [OF k(1)]
      by (cases r) (auto simp: handleWrite_def writeFd_def Let_def peek_all accepted_now_def
          unat_eq_zero)
    ultimately show ?thesis
      using stay f wr c(9) True
      by (auto simp: written_def Let_def intro!: exI [of _ co] exI [of _ ch])
  next
    case False
    then obtain n where n': "r = Inr n" and acn: "accepted_now os w co = unat n"
      using w by (cases r) (auto simp: accepted_now_def)
    have r: "r = Inr n" "n \<noteq> 0" using n' False acn by auto
    note n = s(1,2) [OF w [unfolded r(1)]]
    let ?b = "(outputBuffer co)\<lparr>readerIndex := readerIndex (outputBuffer co) + n\<rparr>"
    note wb = write_then_retrieve [OF c(8) _ n(1), of "\<lambda>d. fst (sys_write os (cSock co) d (kern w))"]
    let ?r = "retrieve n ?b"
    have wb': "writeFd (\<lambda>d. fst (sys_write os (cSock co) d (kern w))) (outputBuffer co) = (Inr n, ?b)"
      "buffer_inv ?r" "contents ?r = drop (2 * unat n) ?out"
      using wb w r(1) by simp_all
    let ?co = "co\<lparr>outputBuffer := ?r\<rparr>" and ?v = "put_conn i (co\<lparr>outputBuffer := ?r\<rparr>) (w\<lparr>kern := k'\<rparr>)"
    have step: "handleWrite os i w = noexcept (if contents ?r = [] then write_drained os i ?v else Inr ?v)"
      using w c wr r wb' by (simp add: handleWrite_def Let_def peek_all readable_zero_iff)
    show ?thesis
    proof (cases "contents ?r = []")
      case False
      then have "conn_wf i ?v ?co ch" "registry_wf os ep ?v"
        using conn_wf_output [OF wf' wb'(2)] reg' by simp_all
      then show ?thesis
        using False step wb' acn n f wr
        by (auto simp: written_def Let_def intro!: exI [of _ ?co] exI [of _ ch])
    next
      case True
      have "returns (write_drained os i ?v) (drained os ep acc fin i ?v ?co)"
        by (rule write_drained_ok [OF k, where ch = ch])
          (use conn_wfD(10) [OF wf'] reg' wb'(2) in \<open>simp_all add: conn_live_def\<close>)
      then have "returns (handleWrite os i w) (drained os ep acc fin i ?v ?co)"
        using True step by simp
      then show ?thesis
      proof (rule returns_mono)
        fix w' assume "drained os ep acc fin i ?v ?co w'"
        then show "written os ep acc fin i w co w'"
          using wb' True acn n f by (auto simp: written_def Let_def drained_def intro!: exI [of _ ?co])
      qed
    qed
  qed
qed

end
