(* ===== verification/Samples.thy ===== *)
theory Samples
  imports ConnectionHandlers
begin

unbundle bit_operations_syntax

text \<open>
  A small concrete state the witnesses evaluate on: loop 0 of thread 1 with its poller (epoll
  descriptor 3) and its wakeup channel 0 on descriptor 4, and connection 7 with channel 1 on
  descriptor 9, over the kernel \<open>toy_os\<close>. The arguments are the connection's state, its output
  buffer, its event mask and the numbers of bytes the next writes accept.
\<close>

definition sample_loop :: event_loop where
  "sample_loop = \<lparr>looping = True, quitFlag = False, threadId = 1, pollReturnTime = 0, wakeupFd = 4,
     wakeupChannel = 0, activeChannels = [], callingPendingFunctors = False, pendingFunctors = []\<rparr>"

definition sample_poller :: poller where
  "sample_poller = \<lparr>ownerLoop = 0, epollfd = 3, evcap = 16,
     channels = (\<lambda>_. None)(4 := Some 0, 9 := Some 1)\<rparr>"

definition wake_channel :: channel where
  "wake_channel = (new_channel 0 4)\<lparr>events := kReadEvent, index := 1,
     readCallback := Some (LoopHandleRead 0)\<rparr>"

definition sample_channel :: "uint32 \<Rightarrow> channel" where
  "sample_channel ev = setupChannelCallbacks 7
     ((new_channel 0 9)\<lparr>events := ev, index := 1, tie_obj := Some 7, tied := True\<rparr>)"

definition sample_conn :: "conn_state \<Rightarrow> buffer \<Rightarrow> tcp_connection" where
  "sample_conn st b = \<lparr>cLoop = 0, cName = ''c'', cState = st, cSock = 9, cChan = 1,
     localAddr = \<lparr>sin_port = 1, sin_addr = 1\<rparr>, peerAddr = \<lparr>sin_port = 2, sin_addr = 2\<rparr>,
     inputBuffer = \<lparr>bytes = replicate 16 0, readerIndex = 8, writerIndex = 8\<rparr>,
     outputBuffer = b, onConnection = Some 0, onMessage = Some 0, onWriteComplete = Some 0,
     onClose = Some 0, onHighWaterMark = Some 0, highWaterMark = 4\<rparr>"

definition sample_kernel :: "uint32 \<Rightarrow> nat list \<Rightarrow> toy" where
  "sample_kernel ev ns = toy0\<lparr>toy_ep := (\<lambda>_ _. None)(3 := (\<lambda>_. None)(4 := Some (kReadEvent, 0), 9 := Some (ev, 1))),
     toy_accept := ns\<rparr>"

definition sample_world :: "conn_state \<Rightarrow> buffer \<Rightarrow> uint32 \<Rightarrow> nat list \<Rightarrow> toy conn_world" where
  "sample_world st b ev ns =
     \<lparr>kern = sample_kernel ev ns, chans = (\<lambda>_. None)(0 := Some wake_channel, 1 := Some (sample_channel ev)),
      pollers = (\<lambda>_. None)(0 := Some sample_poller), loops = (\<lambda>_. None)(0 := Some sample_loop),
      curThread = 1, loopInThisThread = (\<lambda>_. None),
      conns = (\<lambda>_. None)(7 := Some (sample_conn st b))\<rparr>"

lemma toy_kernel_ok [simp]: "kernel_ok toy_os toy_ep toy_out"
  by (simp add: kernel_ok_def) (simp add: toy_os_def toy_readv_def split: list.splits)

lemma sample_channel_fields [simp]:
  "chLoop (sample_channel ev) = 0" "chFd (sample_channel ev) = 9" "events (sample_channel ev) = ev"
  "index (sample_channel ev) = KAdded"
  by (simp_all add: sample_channel_def setupChannelCallbacks_def setErrorCallback_def
      setCloseCallback_def setWriteCallback_def setReadCallback_def new_channel_def KAdded_def)

lemma wake_channel_fields [simp]:
  "chLoop wake_channel = 0" "chFd wake_channel = 4" "events wake_channel = kReadEvent"
  "index wake_channel = KAdded"
  by (simp_all add: wake_channel_def new_channel_def KAdded_def)

lemma sample_fields [simp]:
  "conns (sample_world st b ev ns) 7 = Some (sample_conn st b)"
  "chans (sample_world st b ev ns) = (\<lambda>_. None)(0 := Some wake_channel, 1 := Some (sample_channel ev))"
  "pollers (sample_world st b ev ns) = (\<lambda>_. None)(0 := Some sample_poller)"
  "loops (sample_world st b ev ns) = (\<lambda>_. None)(0 := Some sample_loop)"
  "kern (sample_world st b ev ns) = sample_kernel ev ns" "curThread (sample_world st b ev ns) = 1"
  "channels sample_poller = (\<lambda>_. None)(4 := Some 0, 9 := Some 1)" "epollfd sample_poller = 3"
  "toy_ep (sample_kernel ev ns) 3 = (\<lambda>_. None)(4 := Some (kReadEvent, 0), 9 := Some (ev, 1))"
  "toy_out (sample_kernel ev ns) f = []" "toy_accept (sample_kernel ev ns) = ns"
  "toy_shut (sample_kernel ev ns) = []" "threadId sample_loop = 1"
  by (simp_all add: sample_world_def sample_poller_def sample_kernel_def toy0_def sample_loop_def)

lemma sample_conn_fields [simp]:
  "cLoop (sample_conn st b) = 0" "cSock (sample_conn st b) = 9" "cChan (sample_conn st b) = 1"
  "cState (sample_conn st b) = st" "outputBuffer (sample_conn st b) = b"
  "onConnection (sample_conn st b) = Some 0" "onClose (sample_conn st b) = Some 0"
  "onMessage (sample_conn st b) = Some 0" "onWriteComplete (sample_conn st b) = Some 0"
  "onHighWaterMark (sample_conn st b) = Some 0" "highWaterMark (sample_conn st b) = 4"
  by (simp_all add: sample_conn_def)

lemma sample_registry_any:
  assumes "chans w = (\<lambda>_. None)(0 := Some wake_channel, 1 := Some (sample_channel ev))"
    and "pollers w = (\<lambda>_. None)(0 := Some sample_poller)" and "kern w = sample_kernel ev ns"
  shows "registry_wf toy_os toy_ep w"
proof -
  have "expected_interest sample_poller (chans w) f = toy_ep (sample_kernel ev ns) 3 f" for f
    by (simp add: expected_interest_def assms)
  then have "poller_ok toy_ep (sample_kernel ev ns) (chans w) 0 sample_poller"
    by (auto simp: poller_ok_def assms)
  then show ?thesis
    by (auto simp: registry_wf_def poller_sync_def channel_ok_def assms split: if_splits)
qed

lemma sample_registry [simp]: "registry_wf toy_os toy_ep (sample_world st b ev ns)"
  by (rule sample_registry_any) simp_all

lemma sample_input [simp]: "buffer_inv (inputBuffer (sample_conn st b))"
  by (simp add: sample_conn_def buffer_inv_def max_size_def)

lemma sample_conn_wf:
  "buffer_inv b \<Longrightarrow> (ev AND kWriteEvent \<noteq> 0 \<Longrightarrow> contents b \<noteq> []) \<Longrightarrow>
    conn_wf 7 (sample_world st b ev ns) (sample_conn st b) (sample_channel ev)"
  by (simp add: conn_wf_def conn_live_def channel_ready_def isWriting_def)

lemma sample_masks [simp]:
  "isWriting (sample_channel 7)" "\<not> isWriting (sample_channel 3)"
  "(3 :: uint32) AND kWriteEvent = 0" "(7 :: uint32) AND kWriteEvent \<noteq> 0"
  by (simp_all add: isWriting_def kWriteEvent_def EPOLLOUT_def)

lemma sample_conn_wf_idle [simp]:
  "buffer_inv b \<Longrightarrow> conn_wf 7 (sample_world st b 3 ns) (sample_conn st b) (sample_channel 3)"
  by (rule sample_conn_wf) simp_all

lemma sample_conn_wf_busy [simp]:
  "buffer_inv b \<Longrightarrow> contents b \<noteq> [] \<Longrightarrow>
    conn_wf 7 (sample_world st b 7 ns) (sample_conn st b) (sample_channel 7)"
  by (rule sample_conn_wf) simp_all

text \<open>An empty buffer, and one that holds the bytes 1 to 4.\<close>

definition empty_buffer :: buffer where
  "empty_buffer = \<lparr>bytes = replicate 16 0, readerIndex = 8, writerIndex = 8\<rparr>"

definition four_buffer :: buffer where
  "four_buffer = \<lparr>bytes = [0, 0, 0, 0, 0, 0, 0, 0, 1, 2, 3, 4], readerIndex = 8, writerIndex = 12\<rparr>"

lemma sample_buffers [simp]:
  "buffer_inv empty_buffer" "contents empty_buffer = []" "length (bytes empty_buffer) = 16"
  "buffer_inv four_buffer" "contents four_buffer = [1, 2, 3, 4]" "length (bytes four_buffer) = 12"
  by (simp_all add: empty_buffer_def four_buffer_def buffer_inv_def contents_def segment_def max_size_def)

lemma toy_write_result [simp]:
  "fst (sys_write toy_os f d (sample_kernel ev (n # ns))) = Inr (of_nat (min n (length d)))"
  "fst (sys_write toy_os f d (sample_kernel ev [])) = Inr (of_nat (length d))"
  by (simp_all add: toy_os_def toy_write_def Let_def)

text \<open>
  A kernel that also keeps a log of some kind: the calls act on the first component. The witnesses
  use it to see in which order functors and callbacks ran.
\<close>

definition on_fst :: "('k \<Rightarrow> 'a \<times> 'k) \<Rightarrow> 'k \<times> 'l \<Rightarrow> 'a \<times> 'k \<times> 'l" where
  "on_fst f x = (let (a, k) = f (fst x) in (a, k, snd x))"

definition on_fst_unit :: "('k \<Rightarrow> 'k) \<Rightarrow> 'k \<times> 'l \<Rightarrow> 'k \<times> 'l" where
  "on_fst_unit f x = (f (fst x), snd x)"

definition logged_os :: "'k os \<Rightarrow> ('k \<times> 'l) os" where
  "logged_os os = \<lparr>sys_epoll_create = (on_fst (sys_epoll_create os)),
     sys_epoll_ctl = (\<lambda>e op f ev c. on_fst (sys_epoll_ctl os e op f ev c)),
     sys_epoll_wait = (\<lambda>e n t. on_fst (sys_epoll_wait os e n t)),
     sys_eventfd = (on_fst (sys_eventfd os)),
     sys_eventfd_read = (\<lambda>f. on_fst_unit (sys_eventfd_read os f)),
     sys_eventfd_write = (\<lambda>f. on_fst_unit (sys_eventfd_write os f)),
     sys_readv = (\<lambda>f v. on_fst (sys_readv os f v)),
     sys_write = (\<lambda>f d. on_fst (sys_write os f d)),
     sys_shutdown_wr = (\<lambda>f. on_fst (sys_shutdown_wr os f)),
     sys_close = (\<lambda>f. on_fst_unit (sys_close os f)),
     sys_socket = (on_fst (sys_socket os)),
     sys_bind = (\<lambda>f a. on_fst (sys_bind os f a)),
     sys_listen = (\<lambda>f n. on_fst (sys_listen os f n)),
     sys_accept = (\<lambda>f. on_fst (sys_accept os f)),
     sys_setsockopt = (\<lambda>f opt b. on_fst (sys_setsockopt os f opt b)),
     sys_getsockopt_error = (\<lambda>f. on_fst (sys_getsockopt_error os f)),
     sys_getsockname = (\<lambda>f. on_fst (sys_getsockname os f)),
     sys_now = (on_fst (sys_now os)),
     sigpipe_ignored = sigpipe_ignored os\<rparr>"

text \<open>An application whose callbacks do nothing.\<close>

definition silent_app :: "'w app" where
  "silent_app = \<lparr>app_connection = (\<lambda>h i w. Inr w), app_message = (\<lambda>h i t w. Inr w),
     app_writeComplete = (\<lambda>h i w. Inr w), app_close = (\<lambda>h i w. Inr w), app_highWater = (\<lambda>h i n w. Inr w)\<rparr>"

lemma silent_app_simps [simp]:
  "app_connection silent_app h i w = Inr w" "app_message silent_app h i t w = Inr w"
  "app_writeComplete silent_app h i w = Inr w" "app_close silent_app h i w = Inr w"
  "app_highWater silent_app h i n w = Inr w"
  by (simp_all add: silent_app_def)

lemma sample_read_iov [simp]: "read_iov (inputBuffer (sample_conn st b)) = [8, 65536]"
  by (simp add: read_iov_def sample_conn_def writableBytes_def buffer_size_def kExtraBufSize_def)

lemma sample_input_empty [simp]: "contents (inputBuffer (sample_conn st b)) = []"
  "length (bytes (inputBuffer (sample_conn st b))) = 16"
  by (simp_all add: sample_conn_def contents_def)

end
