(* ===== verification/ConnectionLife.thy ===== *)
theory ConnectionLife
  imports Samples
begin

unbundle bit_operations_syntax

text \<open>
  The properties of a connection's life cycle: reading, closing, and the notifications the
  application gets.
\<close>

section \<open>Reading\<close>

lemma readFd_eof:
  assumes "buffer_inv b" "readv (read_iov b) = Inr []"
  shows "readFd readv b = Inr (Inr 0, b)"
  using assms buffer_invD [OF assms(1)]
  by (simp add: readFd_def store_at_def handleReadResult_def Let_def)

lemma noexcept_idem [simp]: "noexcept (noexcept r) = noexcept r"
  by (cases r rule: noexcept.cases) auto

lemma put_conn_same: "conns w i = Some co \<Longrightarrow> put_conn i co w = w"
  by (simp add: put_conn_def fun_upd_idem)

lemma noexcept_handleClose: "noexcept (handleClose os app i w) = handleClose os app i w"
  by (simp add: handleClose_def)

lemma handleRead_eq:
  assumes "conn_wf i w co ch" and "length (bytes (inputBuffer co)) + 65536 \<le> max_size"
    and "readv_contract (\<lambda>v. fst (sys_readv os (cSock co) v (kern w)))"
    and "sys_readv os (cSock co) (read_iov (inputBuffer co)) (kern w) = (r, k)"
  shows "case r of
      Inl e \<Rightarrow> handleRead os app t i w = Inr (w\<lparr>kern := snd (sys_getsockopt_error os (cSock co) k)\<rparr>)
    | Inr d \<Rightarrow>
        (if d = [] then handleRead os app t i w = handleClose os app i (w\<lparr>kern := k\<rparr>)
         else \<exists>b. contents b = contents (inputBuffer co) @ d \<and>
           (let w' = put_conn i (co\<lparr>inputBuffer := b\<rparr>) (w\<lparr>kern := k\<rparr>) in
            conn_wf i w' (co\<lparr>inputBuffer := b\<rparr>) ch \<and>
            handleRead os app t i w = noexcept (call (\<lambda>h. app_message app h i t) (onMessage co) w')))"
proof -
  note c = conn_wfD [OF assms(1)]
  let ?readv = "\<lambda>v. fst (sys_readv os (cSock co) v (kern w))"
  have rv: "?readv (read_iov (inputBuffer co)) = r" using assms(4) by simp
  note ok = readFd_ok [OF c(7) assms(2,3)]
  show ?thesis
  proof (cases r)
    case (Inl e)
    with ok rv assms(4) c put_conn_same [of "w\<lparr>kern := k\<rparr>" i co] show ?thesis
      by (simp add: handleRead_def handleError_def getSocketError_def Let_def split: prod.splits sum.splits)
  next
    case (Inr d)
    show ?thesis
    proof (cases "d = []")
      case True
      with readFd_eof [OF c(7), of ?readv] rv Inr assms(4) c put_conn_same [of "w\<lparr>kern := k\<rparr>" i co]
      show ?thesis by (simp add: handleRead_def noexcept_handleClose)
    next
      case False
      from ok rv Inr obtain b where b: "readFd ?readv (inputBuffer co) = Inr (Inr (of_nat (length d)), b)"
        "buffer_inv b" "contents b = contents (inputBuffer co) @ d"
        by (auto simp: returns_iff read_done_def)
      have "length d \<le> max_size"
        using length_contents [OF b(2)] buffer_invD [OF b(2)] b(3) by (simp add: max_size_def)
      then have "unat (of_nat (length d) :: size_t) = length d" by (simp add: max_size_def unats)
      then have n: "(of_nat (length d) :: size_t) \<noteq> 0" using False by force
      have "conn_wf i (put_conn i (co\<lparr>inputBuffer := b\<rparr>) (w\<lparr>kern := k\<rparr>)) (co\<lparr>inputBuffer := b\<rparr>) ch"
        using conn_wf_buffers [OF conn_wf_kern [THEN iffD2, OF assms(1)] b(2) c(8)] c(9) by simp
      with b(1,3) n Inr False c assms(4) show ?thesis
        by (auto simp: handleRead_def Let_def intro!: exI [of _ b])
    qed
  qed
qed

text \<open>
  C24. What \<open>handleRead\<close> does with each result of \<open>readv\<close>. Bytes: they are appended to the input buffer,
  the state stays consistent, and then the message callback is called, once, with the receive time,
  on a connection whose input buffer already holds them. End of file: the connection is closed as
  \<open>handleClose\<close> does. An error: the pending socket error is fetched, and nothing else happens; the
  connection stays open and its channel registered.
\<close>

theorem handleRead_cases:
  assumes "conn_wf i w co ch" and "length (bytes (inputBuffer co)) + 65536 \<le> max_size"
    and "readv_contract (\<lambda>v. fst (sys_readv os (cSock co) v (kern w)))"
    and "sys_readv os (cSock co) (read_iov (inputBuffer co)) (kern w) = (r, k)"
  shows "case r of
      Inl e \<Rightarrow> handleRead os app t i w = Inr (w\<lparr>kern := snd (sys_getsockopt_error os (cSock co) k)\<rparr>)
    | Inr d \<Rightarrow>
        (if d = [] then handleRead os app t i w = handleClose os app i (w\<lparr>kern := k\<rparr>)
         else \<exists>b. contents b = contents (inputBuffer co) @ d \<and>
           (let w' = put_conn i (co\<lparr>inputBuffer := b\<rparr>) (w\<lparr>kern := k\<rparr>) in
            conn_wf i w' (co\<lparr>inputBuffer := b\<rparr>) ch \<and>
            handleRead os app t i w = noexcept (call (\<lambda>h. app_message app h i t) (onMessage co) w')))"
  by (rule handleRead_eq [OF assms])

theorem handleRead_cases_witness:
  "\<exists>w' co'. handleRead (toy_os\<lparr>sys_readv := (\<lambda>f v k. (Inr (take (sum_list (map unat v)) [5, 6]), k))\<rparr>) silent_app 0 7
      (sample_world Connected empty_buffer 3 []) = Inr w' \<and> conn_wf 7 w' co' (sample_channel 3) \<and>
    contents (inputBuffer co') = [5, 6]"
proof -
  let ?os = "toy_os\<lparr>sys_readv := (\<lambda>f v k. (Inr (take (sum_list (map unat v)) [5, 6]), k))\<rparr>"
  let ?w = "sample_world Connected empty_buffer 3 []" and ?co = "sample_conn Connected empty_buffer"
  have "conn_wf 7 ?w ?co (sample_channel 3)" "length (bytes (inputBuffer ?co)) + 65536 \<le> max_size"
    "readv_contract (\<lambda>v. fst (sys_readv ?os (cSock ?co) v (kern ?w)))"
    "sys_readv ?os (cSock ?co) (read_iov (inputBuffer ?co)) (kern ?w) = (Inr [5, 6], kern ?w)"
    by (simp_all add: max_size_def readv_contract_def)
  from handleRead_cases [OF this, of silent_app 0] show ?thesis
    by (auto simp: Let_def call_def intro!: exI [of _ "?co\<lparr>inputBuffer := _\<rparr>"])
qed

section \<open>Closing\<close>

text \<open>The state in which the callbacks of \<open>handleClose\<close> run, and the one \<open>connectDestroyed\<close> leaves.\<close>

definition closed_state :: "conn \<Rightarrow> tcp_connection \<Rightarrow> channel \<Rightarrow> poller \<Rightarrow> 'k \<Rightarrow> ('k, 'z) conn_world_scheme \<Rightarrow>
    ('k, 'z) conn_world_scheme" where
  "closed_state i co ch p k w =
     put_entry (cChan co) (registered (\<lambda>e. kNoneEvent) ch) p k (put_conn i (co\<lparr>cState := Disconnected\<rparr>) w)"

definition removed_state :: "conn \<Rightarrow> tcp_connection \<Rightarrow> channel \<Rightarrow> poller \<Rightarrow> 'k \<Rightarrow> ('k, 'z) conn_world_scheme \<Rightarrow>
    ('k, 'z) conn_world_scheme" where
  "removed_state i co ch p k w =
     put_entry (cChan co) (set_index KNew ch) p k (put_conn i (co\<lparr>cState := Disconnected\<rparr>) w)"

lemma handleClose_eq:
  assumes "kernel_ok os ep acc" and "registry_wf os ep w" and "conn_wf i w co ch"
  shows "\<exists>p k. handleClose os app i w = noexcept (andThen
      (call (\<lambda>h. app_connection app h i) (onConnection co) (closed_state i co ch p k w))
      (\<lambda>w2. with_conn i w2 (\<lambda>co2. call (\<lambda>h. app_close app h i) (onClose co2) w2))) \<and>
    registry_wf os ep (closed_state i co ch p k w) \<and>
    conn_wf i (closed_state i co ch p k w) (co\<lparr>cState := Disconnected\<rparr>) (registered (\<lambda>e. kNoneEvent) ch) \<and>
    kernel_mask ep (closed_state i co ch p k w) (cChan co) = (if index ch = KAdded then None else Some 0) \<and>
    acc k = acc (kern w)"
proof -
  let ?co = "co\<lparr>cState := Disconnected\<rparr>" let ?w = "put_conn i ?co w"
  have wf: "conn_live i ?w ?co ch" using conn_wfD(10) [OF conn_wf_state [OF assms(3)]] .
  have reg: "registry_wf os ep ?w" using assms(2) by simp
  let ?ch = "registered (\<lambda>e. kNoneEvent) ch"
  from conn_change_events [OF assms(1) reg wf, of "\<lambda>e. kNoneEvent"] obtain p k where
    u: "change_events os (\<lambda>e. kNoneEvent) (cChan co) ?w = Inr (closed_state i co ch p k w)"
      "registry_wf os ep (closed_state i co ch p k w)" "acc k = acc (kern w)"
    by (auto simp: closed_state_def)
  have ch: "chans (closed_state i co ch p k w) (cChan co) = Some ?ch"
    by (simp add: closed_state_def)
  have "pollers (closed_state i co ch p k w) (chLoop ?ch) \<noteq> None"
    by (simp add: closed_state_def)
  then have "kernel_mask ep (closed_state i co ch p k w) (cChan co) =
      (if index ?ch = KAdded then Some (events ?ch) else None)"
    using kernel_mask_eq [OF _ ch] u(2) by (auto simp: registry_wf_def)
  moreover have "conn_wf i (closed_state i co ch p k w) ?co ?ch"
    unfolding closed_state_def using conn_wf_put_entry [OF wf, of "\<lambda>e. kNoneEvent" p k] by simp
  moreover have "handleClose os app i w = noexcept (andThen
      (call (\<lambda>h. app_connection app h i) (onConnection co) (closed_state i co ch p k w))
      (\<lambda>w2. with_conn i w2 (\<lambda>co2. call (\<lambda>h. app_close app h i) (onClose co2) w2)))"
    using conn_wfD(1) [OF assms(3)] u(1) by (simp add: handleClose_def channel_ops_change Let_def)
  ultimately show ?thesis
    using u by (intro exI [of _ p] exI [of _ k]) (simp add: registered_def kNoneEvent_def)
qed

text \<open>
  C26. \<open>handleClose\<close>. Whatever state the connection is in, it becomes Disconnected and its mask empty, and,
  if its channel was registered, the kernel stops monitoring it (if it was not, the kernel now monitors it
  with the empty mask); only then is the connection
  callback called, and after that the close callback that is set at that time. Nothing asks whether the connection
  was closed before: a second call notifies the application again.
\<close>

theorem handleClose_notifies:
  assumes "kernel_ok os ep acc" and "registry_wf os ep w" and "conn_wf i w co ch"
  shows "\<exists>w1. handleClose os app i w = noexcept (andThen (call (\<lambda>h. app_connection app h i) (onConnection co) w1)
      (\<lambda>w2. with_conn i w2 (\<lambda>co2. call (\<lambda>h. app_close app h i) (onClose co2) w2))) \<and>
    conns w1 = (conns w)(i \<mapsto> co\<lparr>cState := Disconnected\<rparr>) \<and> registry_wf os ep w1 \<and>
    channel_mask w1 (cChan co) = 0 \<and> kernel_mask ep w1 (cChan co) = (if index ch = KAdded then None else Some 0) \<and>
    acc (kern w1) = acc (kern w) \<and> loops w1 = loops w"
proof -
  from handleClose_eq [OF assms, of app] obtain p k where
    "handleClose os app i w = noexcept (andThen
      (call (\<lambda>h. app_connection app h i) (onConnection co) (closed_state i co ch p k w))
      (\<lambda>w2. with_conn i w2 (\<lambda>co2. call (\<lambda>h. app_close app h i) (onClose co2) w2)))"
    "registry_wf os ep (closed_state i co ch p k w)"
    "kernel_mask ep (closed_state i co ch p k w) (cChan co) = (if index ch = KAdded then None else Some 0)"
    "acc k = acc (kern w)" by blast
  then show ?thesis
    by (intro exI [of _ "closed_state i co ch p k w"]) (simp add: closed_state_def channel_mask_def kNoneEvent_def)
qed

theorem handleClose_notifies_witness:
  "\<exists>w1. handleClose toy_os silent_app 7 (sample_world Disconnected empty_buffer 3 []) = Inr w1 \<and>
    kernel_mask toy_ep w1 1 = None \<and> channel_mask w1 1 = 0"
  using handleClose_notifies [OF toy_kernel_ok sample_registry, of 7 Disconnected empty_buffer 3 "[]"
      "sample_conn Disconnected empty_buffer" "sample_channel 3" silent_app]
  by (auto simp: call_def)

lemma connectDestroyed_eq:
  assumes "registry_wf os ep w" and "conn_wf i w co ch" and "cState co \<noteq> Connected"
  shows "\<exists>p k. connectDestroyed os app i w = Inr (removed_state i co ch p k w) \<and>
    registry_wf os ep (removed_state i co ch p k w) \<and>
    kernel_mask ep (removed_state i co ch p k w) (cChan co) = None \<and>
    hasChannel (cLoop co) (cChan co) (removed_state i co ch p k w) = Inr False"
proof -
  let ?co = "co\<lparr>cState := Disconnected\<rparr>" let ?w = "put_conn i ?co w"
  have wf: "conn_live i ?w ?co ch" using conn_wfD(10) [OF conn_wf_state [OF assms(2)]] .
  note c = conn_liveD [OF wf]
  have reg: "registry_wf os ep ?w" using assms(1) by simp
  from c(6) c(2) obtain p where p: "pollers ?w (chLoop ch) = Some p" by (auto simp: channel_ready_def)
  from reg removeChannel_ok [of ep ?w os "cChan co" ch p] c(2,6) p obtain k where
    u: "channel_remove os (cChan co) ?w = Inr (removed_state i co ch p k w)"
      "poller_sync ep (removed_state i co ch p k w)"
    by (auto simp: registry_wf_def removed_state_def)
  have ch: "chans (removed_state i co ch p k w) (cChan co) = Some (set_index KNew ch)"
    "pollers (removed_state i co ch p k w) (chLoop (set_index KNew ch)) \<noteq> None"
    by (simp_all add: removed_state_def)
  have "kernel_mask ep (removed_state i co ch p k w) (cChan co) = None"
    using kernel_mask_eq [OF u(2) ch(1)] ch(2) by auto
  moreover have "connectDestroyed os app i w = Inr (removed_state i co ch p k w)"
    using conn_wfD(1) [OF assms(2)] u(1) assms(3) by (simp add: connectDestroyed_def Let_def)
  ultimately show ?thesis
    using u(2) reg c(4)
    by (intro exI [of _ p] exI [of _ k])
      (simp add: registry_wf_def hasChannel_def map_entry_def removed_state_def)
qed

text \<open>
  \<open>connectDestroyed\<close> after the connection was closed. On a connection that is not Connected it makes
  no callback: the state becomes Disconnected, the channel is taken out of the poller's map and of
  the kernel's interest list, and its descriptor is free for the next connection. (On a Connected one,
  which \<open>~TcpServer\<close> destroys without closing it, the application is notified in between.)
\<close>

theorem connectDestroyed_silent_after_close:
  assumes "registry_wf os ep w" and "conn_wf i w co ch" and "cState co \<noteq> Connected"
  shows "\<exists>w'. connectDestroyed os app i w = Inr w' \<and> registry_wf os ep w' \<and>
    conns w' = (conns w)(i \<mapsto> co\<lparr>cState := Disconnected\<rparr>) \<and> loops w' = loops w \<and>
    kernel_mask ep w' (cChan co) = None \<and> hasChannel (cLoop co) (cChan co) w' = Inr False"
proof -
  from connectDestroyed_eq [OF assms, of app] obtain p k where
    "connectDestroyed os app i w = Inr (removed_state i co ch p k w)"
    "registry_wf os ep (removed_state i co ch p k w)"
    "kernel_mask ep (removed_state i co ch p k w) (cChan co) = None"
    "hasChannel (cLoop co) (cChan co) (removed_state i co ch p k w) = Inr False" by blast
  then show ?thesis
    by (intro exI [of _ "removed_state i co ch p k w"]) (simp add: removed_state_def)
qed

theorem connectDestroyed_silent_after_close_witness:
  "\<exists>w'. connectDestroyed toy_os silent_app 7 (sample_world Disconnecting empty_buffer 3 []) = Inr w' \<and>
    kernel_mask toy_ep w' 1 = None \<and> hasChannel 0 1 w' = Inr False"
  using connectDestroyed_silent_after_close [OF sample_registry, of 7 Disconnecting empty_buffer 3 "[]"
      "sample_conn Disconnecting empty_buffer" "sample_channel 3" silent_app]
  by auto

section \<open>Notifications of the sending side\<close>

text \<open>The first part of \<open>sendInLoop\<close> and the loop's queue.\<close>

lemma send_direct_queue:
  assumes wf: "conn_wf i w co ch" and l: "loops w (cLoop co) = Some lp"
    and d: "send_direct os data i w = Inr (m, rem, err, v)"
  shows "m = (if idle co ch then (case fst (sys_write os (cSock co) data (kern w)) of Inl e \<Rightarrow> 0 | Inr n \<Rightarrow> n) else 0)"
    and "\<exists>lp'. loops v (cLoop co) = Some lp' \<and> pendingFunctors lp' = pendingFunctors lp @
      (if idle co ch \<and> (\<exists>n. fst (sys_write os (cSock co) data (kern w)) = Inr n) \<and> rem = 0 \<and> onWriteComplete co \<noteq> None
       then [WriteComplete i] else [])"
proof -
  note c = conn_wfD [OF wf]
  obtain r k where w: "sys_write os (cSock co) data (kern w) = (r, k)" by fastforce
  have "loops (w\<lparr>kern := k\<rparr>) (cLoop co) = Some lp" using l by simp
  note q = queueInLoop_eq [OF this, of os "WriteComplete i"]
  show "m = (if idle co ch then (case fst (sys_write os (cSock co) data (kern w)) of Inl e \<Rightarrow> 0 | Inr n \<Rightarrow> n) else 0)"
    using d c w idle_guard [OF wf] q by (cases r) (auto simp: send_direct_def Let_def split: if_splits)
  show "\<exists>lp'. loops v (cLoop co) = Some lp' \<and> pendingFunctors lp' = pendingFunctors lp @
      (if idle co ch \<and> (\<exists>n. fst (sys_write os (cSock co) data (kern w)) = Inr n) \<and> rem = 0 \<and> onWriteComplete co \<noteq> None
       then [WriteComplete i] else [])"
    using d c w l idle_guard [OF wf] q by (cases r) (auto simp: send_direct_def Let_def put_loop_def split: if_splits)
qed

lemma raise_writing_loops:
  assumes "kernel_ok os ep acc" "registry_wf os ep w" "conn_wf i w co ch"
    and "with_channel (cChan co) w (\<lambda>ch. if \<not> isWriting ch then enableWriting os (cChan co) w else Inr w) = Inr w'"
  shows "loops w' = loops w"
  using assms(4) conn_wfD(2) [OF assms(3)]
    conn_change_events [OF assms(1,2) conn_wfD(10) [OF assms(3)], of "\<lambda>e. e OR kWriteEvent"]
  by (auto simp: channel_ops_change split: if_splits)

lemma send_rest_queue:
  assumes k: "kernel_ok os ep acc" and reg: "registry_wf os ep v" and wf: "conn_wf i v co ch"
    and l: "loops v (cLoop co) = Some lp" and r: "send_rest os data i (m, rem, err, v) = Inr w'"
    and space: "length (bytes (outputBuffer co)) + length data \<le> max_size"
  shows "\<exists>lp'. loops w' (cLoop co) = Some lp' \<and> pendingFunctors lp' = pendingFunctors lp @
    (let old = readableBytes (outputBuffer co) in
     if \<not> err \<and> rem > 0 \<and> old < highWaterMark co \<and> old + rem \<ge> highWaterMark co \<and> onHighWaterMark co \<noteq> None
     then [HighWaterMark i (old + rem)] else [])"
proof (cases "\<not> err \<and> rem > 0")
  case False
  then have "w' = v" using r by (auto simp: send_rest_def)
  with False l show ?thesis by auto
next
  case True
  note c = conn_wfD [OF wf]
  let ?d = "take (unat rem) (drop (unat m) data)" and ?old = "readableBytes (outputBuffer co)"
  let ?hit = "?old < highWaterMark co \<and> ?old + rem \<ge> highWaterMark co \<and> onHighWaterMark co \<noteq> None"
  have "unat (writerIndex (outputBuffer co)) + length ?d \<le> max_size"
    using buffer_invD(3) [OF c(8)] space by simp
  from buffer_append_ok [OF c(8) this] obtain b where
    b: "buffer_append ?d (outputBuffer co) = Inr b" "buffer_inv b" "contents b = contents (outputBuffer co) @ ?d"
    by (auto simp: returns_iff appended_def)
  let ?u = "put_conn i (co\<lparr>outputBuffer := b\<rparr>) v"
  have u: "conn_wf i ?u (co\<lparr>outputBuffer := b\<rparr>) ch" "registry_wf os ep ?u"
    using conn_wf_output [OF wf b(2)] b(3) c(9) reg by auto
  have lu: "loops ?u (cLoop co) = Some lp" using l by simp
  obtain x where x: "(if ?hit then queueInLoop os (cLoop co) (HighWaterMark i (?old + rem)) ?u else Inr ?u) = Inr x"
    "quiet ep acc ?u x"
    using queue_if_quiet [OF k, of ?u "cLoop co" ?hit "HighWaterMark i (?old + rem)"] lu
    by (auto simp: returns_iff)
  have lx: "\<exists>lp'. loops x (cLoop co) = Some lp' \<and> pendingFunctors lp' =
      pendingFunctors lp @ (if ?hit then [HighWaterMark i (?old + rem)] else [])"
    using x(1) lu queueInLoop_eq [OF lu, of os "HighWaterMark i (?old + rem)"]
    by (auto simp: put_loop_def split: if_splits)
  have xw: "conn_wf i x (co\<lparr>outputBuffer := b\<rparr>) ch" "registry_wf os ep x"
    using conn_wf_quiet [OF x(2) u(1)] registry_quiet(1) [OF x(2)] u(2) by simp_all
  have "with_channel (cChan co) x (\<lambda>ch. if \<not> isWriting ch then enableWriting os (cChan co) x else Inr x) = Inr w'"
    using r True b(1) c(1) x(1) by (simp add: send_rest_def Let_def)
  moreover have same: "cChan (co\<lparr>outputBuffer := b\<rparr>) = cChan co" by simp
  ultimately have "loops w' = loops x"
    using raise_writing_loops [OF k xw(2,1), of w', unfolded same] by blast
  with lx True show ?thesis by (simp add: Let_def)
qed

text \<open>The high-water mark, in numbers.\<close>

lemma mark_passed:
  assumes "buffer_inv b" and "length (contents b) + unat rem < 2 ^ 64"
  shows "readableBytes b + rem = of_nat (length (contents b) + unat rem)"
    and "readableBytes b < h \<and> h \<le> readableBytes b + rem \<longleftrightarrow>
      length (contents b) < unat h \<and> unat h \<le> length (contents b) + unat rem"
proof -
  have old: "unat (readableBytes b) = length (contents b)" by (simp add: unat_readable [OF assms(1)])
  show "readableBytes b + rem = of_nat (length (contents b) + unat rem)" by (simp flip: old)
  show "readableBytes b < h \<and> h \<le> readableBytes b + rem \<longleftrightarrow>
      length (contents b) < unat h \<and> unat h \<le> length (contents b) + unat rem"
    using assms(2) by (simp add: unat_order(1,2) old unat_plus_size)
qed

text \<open>
  C25. What \<open>sendInLoop\<close> tells the application. It queues the write-complete callback exactly if it
  wrote directly, the kernel took everything and the callback is set; and the high-water-mark
  callback, with the new number of queued bytes, exactly if bytes had to be queued, the number queued was below the
  mark before and is not below it after, and the callback is set. Nothing else is queued, and never
  both.
\<close>

theorem sendInLoop_notifications:
  assumes "kernel_ok os ep acc" and "registry_wf os ep w" and "conn_wf i w co ch"
    and "length (bytes (outputBuffer co)) + length data \<le> max_size" and "loops w (cLoop co) = Some lp"
    and "direct = (if idle co ch then fst (sys_write os (cSock co) data (kern w)) else Inr 0)"
    and "left = length data - (case direct of Inl e \<Rightarrow> 0 | Inr n \<Rightarrow> unat n)"
    and "old = length (contents (outputBuffer co))"
  shows "\<exists>w' lp'. sendInLoop os data i w = Inr w' \<and> loops w' (cLoop co) = Some lp' \<and>
    pendingFunctors lp' = pendingFunctors lp @
     (if idle co ch \<and> left = 0 \<and> \<not> isl direct then (if onWriteComplete co = None then [] else [WriteComplete i])
      else if left > 0 \<and> (\<forall>e. direct = Inl e \<longrightarrow> isBlockingError e) \<and> onHighWaterMark co \<noteq> None \<and>
        old < unat (highWaterMark co) \<and> unat (highWaterMark co) \<le> old + left
      then [HighWaterMark i (of_nat (old + left))] else [])"
proof -
  note c = conn_wfD [OF assms(3)]
  have len: "length data \<le> max_size" using assms(4) by simp
  from send_direct_ok [OF assms(1-3) len] obtain m rem err v where
    d: "send_direct os data i w = Inr (m, rem, err, v)" and
    part: "sent_part os ep acc data i w co ch (m, rem, err, v)"
    unfolding returns_iff by (metis prod_cases4)
  note p = part [unfolded sent_part_def, simplified]
  note q = send_direct_queue [OF assms(3,5) d]
  from q(2) obtain lp1 where l1: "loops v (cLoop co) = Some lp1" "pendingFunctors lp1 = pendingFunctors lp @
      (if idle co ch \<and> (\<exists>n. fst (sys_write os (cSock co) data (kern w)) = Inr n) \<and> rem = 0 \<and> onWriteComplete co \<noteq> None
       then [WriteComplete i] else [])" by blast
  from sendInLoop_ok [OF assms(1-4)] obtain w' where w': "sendInLoop os data i w = Inr w'"
    by (auto simp: returns_iff)
  then have "send_rest os data i (m, rem, err, v) = Inr w'" by (simp add: sendInLoop_def d)
  from send_rest_queue [OF assms(1) _ _ l1(1) this assms(4), of ch] p obtain lp' where
    l2: "loops w' (cLoop co) = Some lp'" "pendingFunctors lp' = pendingFunctors lp1 @
    (let old = readableBytes (outputBuffer co) in
     if \<not> err \<and> rem > 0 \<and> old < highWaterMark co \<and> old + rem \<ge> highWaterMark co \<and> onHighWaterMark co \<noteq> None
     then [HighWaterMark i (old + rem)] else [])"
    by auto
  have left: "unat rem = left" using p q(1) assms(6,7) by (auto split: sum.splits)
  have bound: "length (contents (outputBuffer co)) + unat rem < 2 ^ 64"
    using contents_bound [OF c(8)] assms(4,7) left by (simp add: max_size_def)
  note mark = mark_passed [OF c(8) bound, unfolded left, folded assms(8)]
  have rem: "rem > 0 \<longleftrightarrow> left > 0" "rem = 0 \<longleftrightarrow> left = 0"
    by (simp_all add: left [symmetric] word_less_nat_alt unat_eq_zero)
  have err: "\<not> err \<longleftrightarrow> (\<forall>e. direct = Inl e \<longrightarrow> isBlockingError e)" using p assms(6) by auto
  have A: "(idle co ch \<and> (\<exists>n. fst (sys_write os (cSock co) data (kern w)) = Inr n) \<and> rem = 0 \<and> onWriteComplete co \<noteq> None)
      \<longleftrightarrow> idle co ch \<and> left = 0 \<and> \<not> isl direct \<and> onWriteComplete co \<noteq> None"
    unfolding rem assms(6) by (cases "fst (sys_write os (cSock co) data (kern w))") auto
  have B: "(\<not> err \<and> rem > 0 \<and> readableBytes (outputBuffer co) < highWaterMark co \<and>
      readableBytes (outputBuffer co) + rem \<ge> highWaterMark co \<and> onHighWaterMark co \<noteq> None)
      \<longleftrightarrow> left > 0 \<and> (\<forall>e. direct = Inl e \<longrightarrow> isBlockingError e) \<and> onHighWaterMark co \<noteq> None \<and>
        old < unat (highWaterMark co) \<and> unat (highWaterMark co) \<le> old + left"
    unfolding rem err using mark(2) [of "highWaterMark co"] by blast
  have "pendingFunctors lp' = pendingFunctors lp @
     (if idle co ch \<and> left = 0 \<and> \<not> isl direct then (if onWriteComplete co = None then [] else [WriteComplete i])
      else if left > 0 \<and> (\<forall>e. direct = Inl e \<longrightarrow> isBlockingError e) \<and> onHighWaterMark co \<noteq> None \<and>
        old < unat (highWaterMark co) \<and> unat (highWaterMark co) \<le> old + left
      then [HighWaterMark i (of_nat (old + left))] else [])"
    unfolding l2(2) [unfolded Let_def, unfolded B, unfolded mark(1)] l1(2) [unfolded A]
    by (cases "left = 0"; cases "onWriteComplete co") simp_all
  with w' l2(1) show ?thesis by blast
qed

theorem sendInLoop_notifications_witness:
  "\<exists>w' lp'. sendInLoop toy_os [5, 6, 7, 8, 9] 7 (sample_world Connected empty_buffer 3 [1]) = Inr w' \<and>
    loops w' 0 = Some lp' \<and> pendingFunctors lp' = [HighWaterMark 7 4]"
proof -
  let ?w = "sample_world Connected empty_buffer 3 [1]" and ?co = "sample_conn Connected empty_buffer"
  have h: "conn_wf 7 ?w ?co (sample_channel 3)"
    "length (bytes (outputBuffer ?co)) + length [5 :: byte, 6, 7, 8, 9] \<le> max_size"
    "loops ?w (cLoop ?co) = Some sample_loop"
    "Inr 1 = (if idle ?co (sample_channel 3) then fst (sys_write toy_os (cSock ?co) [5, 6, 7, 8, 9] (kern ?w)) else Inr 0)"
    "4 = length [5 :: byte, 6, 7, 8, 9] - (case (Inr 1 :: errno + size_t) of Inl e \<Rightarrow> 0 | Inr n \<Rightarrow> unat n)"
    "0 = length (contents (outputBuffer ?co))"
    by (simp_all add: max_size_def idle_def)
  from sendInLoop_notifications [OF toy_kernel_ok sample_registry h] show ?thesis
    by (simp add: sample_loop_def)
qed

end
