(* ===== verification/Footprint.thy ===== *)
theory Footprint
  imports ConnectionLife
begin

text \<open>
  What the operations leave alone. A relation between states that holds of every primitive step an
  operation takes holds between the start and the result of whole operations, whatever the state. The locale
  \<open>reactor_relation\<close> is the interface for the operations of channels and pollers (a step stores a channel or
  a poller, or calls \<open>epoll_ctl\<close>); \<open>step_relation\<close> extends it by what the operations of a connection do (they store the
  connection, with its name and state as they were, they change a loop but not its thread, they write), and
  \<open>closing_relation\<close> by the call that shuts a socket down. The interpretations are the assignment of loops to
  threads, the kernel's record of which sockets were shut down, and the objects the reactor does not touch.
\<close>

locale reactor_relation =
  fixes os :: "'k os"
    and rel :: "('k, 'z) poll_world_scheme \<Rightarrow> ('k, 'z) poll_world_scheme \<Rightarrow> bool"
  assumes rel_refl: "rel w w"
    and rel_trans: "rel u v \<Longrightarrow> rel v w \<Longrightarrow> rel u w"
    and rel_channel: "rel w (put_channel c ch w)"
    and rel_poller: "rel w (put_poller l p w)"
    and rel_ctl: "rel w (w\<lparr>kern := snd (sys_epoll_ctl os e op f ev c (kern w))\<rparr>)"
begin

lemma update_operation: "updateOperation os op l c w = Inr w' \<Longrightarrow> rel w w'"
  by (auto simp: updateOperation_def with_poller_def with_channel_def split: option.splits prod.splits if_splits)
    (metis rel_ctl snd_conv)+

lemma modify_channel: "modify_channel c f w = Inr w' \<Longrightarrow> rel w w'"
  by (auto simp: modify_channel_def with_channel_def rel_channel split: option.splits)

lemma poller_update: "poller_updateChannel os l c w = Inr w' \<Longrightarrow> rel w w'"
  by (auto simp: poller_updateChannel_def with_poller_def with_channel_def Let_def andThen_Inr_iff
      split: option.splits if_splits
      dest!: update_operation modify_channel)
    (blast intro: rel_trans rel_poller rel_channel)+

lemma change: "change_events os g c w = Inr w' \<Longrightarrow> rel w w'"
  by (auto simp: change_events_def channel_update_def loop_updateChannel_def andThen_Inr_iff with_channel_def
      split: option.splits dest!: poller_update modify_channel intro: rel_trans)

lemma raise_writing:
  "with_channel c w (\<lambda>ch. if \<not> isWriting ch then enableWriting os c w else Inr w) = Inr w' \<Longrightarrow> rel w w'"
  by (auto simp: with_channel_def channel_ops_change split: option.splits if_splits intro: change rel_refl)

lemma remove:
  assumes "channel_remove os c w = Inr w'"
  shows "rel w w'"
proof -
  from assms obtain ch p where c: "chans w c = Some ch" "pollers w (chLoop ch) = Some p"
    by (auto simp: channel_remove_def loop_removeChannel_def poller_removeChannel_def with_poller_def with_channel_def split: option.splits)
  let ?u = "put_poller (chLoop ch) (p\<lparr>channels := (channels p)(chFd ch := None)\<rparr>) w"
  from assms c obtain v where
    v: "(if index ch = KAdded then updateOperation os CtlDel (chLoop ch) c ?u else Inr ?u) = Inr v" "modify_channel c (set_index KNew) v = Inr w'"
    by (auto simp: channel_remove_def loop_removeChannel_def poller_removeChannel_def with_poller_def with_channel_def Let_def
        andThen_Inr_iff)
  have "rel ?u v"
    using v(1) by (auto split: if_splits intro: update_operation rel_refl)
  from rel_trans [OF rel_poller rel_trans [OF this modify_channel [OF v(2)]]] show ?thesis .
qed

lemma fill: "fillActiveChannels evs active w = Inr (cs, w') \<Longrightarrow> rel w w'"
proof (induction evs arbitrary: active w)
  case (Cons e evs)
  obtain ev c where e: "e = (ev, c)" by (cases e)
  with Cons.prems obtain v where v: "modify_channel c (set_revents ev) w = Inr v"
    "fillActiveChannels evs (active @ [c]) v = Inr (cs, w')" by (auto simp: andThen_Inr_iff)
  show ?case by (rule rel_trans [OF modify_channel [OF v(1)] Cons.IH [OF v(2)]])
qed (simp add: rel_refl)

end

text \<open>The operations of a connection store objects, but keep its name, its state and its connection callback.\<close>

locale step_relation = reactor_relation os rel
  for os :: "'k os" and rel :: "('k, 'z) conn_world_scheme \<Rightarrow> ('k, 'z) conn_world_scheme \<Rightarrow> bool" +
  assumes rel_conn: "conns w i = Some co \<Longrightarrow> cName co' = cName co \<Longrightarrow> cState co' = cState co \<Longrightarrow>
      onConnection co' = onConnection co \<Longrightarrow> rel w (put_conn i co' w)"
    and rel_loop: "loops w l = Some lp \<Longrightarrow> threadId lp' = threadId lp \<Longrightarrow> rel w (put_loop l lp' w)"
    and rel_wake: "rel w (w\<lparr>kern := sys_eventfd_write os f (kern w)\<rparr>)"
    and rel_write: "rel w (w\<lparr>kern := snd (sys_write os f d (kern w))\<rparr>)"
begin

lemma queue: "queueInLoop os l f w = Inr w' \<Longrightarrow> rel w w'"
proof (cases "loops w l")
  case (Some lp)
  assume q: "queueInLoop os l f w = Inr w'"
  let ?v = "put_loop l (lp\<lparr>pendingFunctors := pendingFunctors lp @ [f]\<rparr>) w"
  have "rel w ?v" by (rule rel_loop [OF Some]) simp
  moreover have "rel ?v (?v\<lparr>kern := sys_eventfd_write os (wakeupFd lp) (kern w)\<rparr>)"
    using rel_wake [of ?v] by simp
  moreover have "w' = ?v\<lparr>kern := sys_eventfd_write os (wakeupFd lp) (kern w)\<rparr> \<or> w' = ?v"
    using q unfolding queueInLoop_eq [OF Some] by (auto simp: put_loop_def)
  ultimately show ?thesis by (auto intro: rel_trans)
qed (simp add: queueInLoop_def modify_loop_def with_loop_def)

lemma queue_if: "(if b then queueInLoop os l f w else Inr w) = Inr w' \<Longrightarrow> rel w w'"
  by (auto split: if_splits intro: queue rel_refl)

lemma send_in_loop:
  assumes "sendInLoop os data i w = Inr w'"
  shows "rel w w'"
proof -
  from assms obtain m rem err v where
    d: "send_direct os data i w = Inr (m, rem, err, v)" "send_rest os data i (m, rem, err, v) = Inr w'"
    by (auto simp: sendInLoop_def andThen_Inr_iff)
  have wr: "rel w (w\<lparr>kern := k\<rparr>)" if "sys_write os f x (kern w) = (r, k)" for f x r k
    using rel_write [of w f x] that by simp
  have "rel w v"
    using d(1)
    by (auto simp: send_direct_def Let_def with_conn_def with_channel_def andThen_Inr_iff
        split: option.splits if_splits sum.splits prod.splits
        dest!: queue intro: rel_trans wr rel_refl)
  moreover have "rel v w'"
  proof (cases "\<not> err \<and> rem > 0")
    case True
    then obtain co b x where s: "conns v i = Some co"
      "(if readableBytes (outputBuffer co) < highWaterMark co \<and> readableBytes (outputBuffer co) + rem \<ge> highWaterMark co \<and>
          onHighWaterMark co \<noteq> None
        then queueInLoop os (cLoop co) (HighWaterMark i (readableBytes (outputBuffer co) + rem))
          (put_conn i (co\<lparr>outputBuffer := b\<rparr>) v)
        else Inr (put_conn i (co\<lparr>outputBuffer := b\<rparr>) v)) = Inr x"
      "with_channel (cChan co) x (\<lambda>ch. if \<not> isWriting ch then enableWriting os (cChan co) x else Inr x) = Inr w'"
      using d(2) by (auto simp: send_rest_def Let_def with_conn_def andThen_Inr_iff split: option.splits)
    have "rel v (put_conn i (co\<lparr>outputBuffer := b\<rparr>) v)" by (rule rel_conn [OF s(1)]) simp_all
    from rel_trans [OF this rel_trans [OF queue_if [OF s(2)] raise_writing [OF s(3)]]] show ?thesis .
  qed (use d(2) in \<open>auto simp: send_rest_def rel_refl\<close>)
  ultimately show ?thesis by (rule rel_trans)
qed

lemma send: "send os data i w = Inr w' \<Longrightarrow> rel w w'"
  by (auto simp: send_def with_conn_def with_loop_def split: option.splits if_splits
      intro: rel_refl send_in_loop queue)

end

locale closing_relation = step_relation +
  assumes rel_shutdown: "rel w (w\<lparr>kern := snd (sys_shutdown_wr os f (kern w))\<rparr>)"
begin

lemma shutdown_in_loop: "shutdownInLoop os i w = Inr w' \<Longrightarrow> rel w w'"
  by (auto simp: shutdownInLoop_def with_conn_def with_channel_def shutdownWrite_def
      split: option.splits if_splits intro: rel_refl rel_shutdown)

text \<open>\<open>shutdown\<close> changes the state first.\<close>

lemma shutdown:
  assumes "shutdown os i w = Inr w'"
    and "\<And>co. conns w i = Some co \<Longrightarrow> rel w (put_conn i (co\<lparr>cState := Disconnecting\<rparr>) w)"
  shows "rel w w'"
  using assms
  by (auto simp: shutdown_def runInLoop_def with_conn_def with_loop_def Let_def split: option.splits if_splits
      dest!: shutdown_in_loop queue intro: rel_trans)

lemma drained: "write_drained os i w = Inr w' \<Longrightarrow> rel w w'"
  by (auto simp: write_drained_def with_conn_def andThen_Inr_iff channel_ops_change
      split: option.splits if_splits dest!: change queue shutdown_in_loop intro: rel_trans)

lemma handle_write:
  assumes "handleWrite os i w = Inr w'"
  shows "rel w w'"
proof -
  have put: "rel w (put_conn i (co\<lparr>outputBuffer := b\<rparr>) (w\<lparr>kern := snd (sys_write os f x (kern w))\<rparr>))"
    if "conns w i = Some co" for co b f x
    by (rule rel_trans [OF rel_write rel_conn]) (use that in simp_all)
  with assms show ?thesis
    by (auto simp: handleWrite_def with_conn_def with_channel_def Let_def split: option.splits if_splits sum.splits prod.splits
        dest!: drained intro: rel_refl rel_trans [OF put])
qed

end

subsection \<open>Loops and threads\<close>

definition same_threads :: "('k, 'z) loop_world_scheme \<Rightarrow> ('k, 'z) loop_world_scheme \<Rightarrow> bool" where
  "same_threads w w' \<longleftrightarrow> curThread w' = curThread w \<and>
     (\<forall>l. map_option threadId (loops w' l) = map_option threadId (loops w l))"

interpretation th: closing_relation os same_threads for os
  by unfold_locales (auto simp: same_threads_def put_conn_def put_channel_def put_poller_def put_loop_def)

lemma in_thread_same:
  assumes "same_threads w w'" "loops w l = Some lp" "threadId lp = curThread w"
  shows "\<exists>lp'. loops w' l = Some lp' \<and> threadId lp' = curThread w'"
proof -
  have "map_option threadId (loops w' l) = Some (threadId lp)" "curThread w' = curThread w"
    using assms(1,2) by (auto simp: same_threads_def)
  with assms(3) show ?thesis by auto
qed

subsection \<open>Sockets that were shut down\<close>

interpretation fn: step_relation os "\<lambda>w w'. fin_contract os fin \<longrightarrow> fin (kern w') = fin (kern w)" for os fin
  by unfold_locales (auto simp: fin_contractD)

subsection \<open>What the reactor does not touch\<close>

interpretation rx: reactor_relation os "\<lambda>w w'. conns w' = conns w" for os
  by unfold_locales (simp_all add: put_channel_def put_poller_def)

end
