(* ===== verification/ConnectionProps.thy ===== *)
theory ConnectionProps
  imports Samples
begin

unbundle bit_operations_syntax

text \<open>
  The properties of a connection: the outgoing byte stream, shutting down, and the state machine.
\<close>

section \<open>The outgoing stream\<close>

text \<open>
  C1. \<open>sendInLoop\<close> extends the outgoing stream by exactly the data. For a connection in a
  consistent state and any kernel that honours the contracts of \<open>write\<close> and \<open>epoll_ctl\<close>: whether the
  data is written directly, partly written and the rest queued, wholly queued behind earlier data,
  or refused with EAGAIN, the bytes the kernel has accepted followed by the bytes in the output
  buffer become the old ones followed by the data, and the channel waits for writability exactly if
  bytes are queued. Only when the direct write fails with another error is the data dropped, and
  then the stream is unchanged. The process does not end, and the state stays consistent.
\<close>

theorem sendInLoop_extends_stream:
  assumes "kernel_ok os ep acc" and "registry_wf os ep w" and "conn_wf i w co ch"
    and "length (bytes (outputBuffer co)) + length data \<le> max_size"
  shows "\<exists>w' co' ch'. sendInLoop os data i w = Inr w' \<and> conn_wf i w' co' ch' \<and> registry_wf os ep w' \<and>
    (if idle co ch \<and> (\<exists>e. fst (sys_write os (cSock co) data (kern w)) = Inl e \<and> \<not> isBlockingError e)
     then out_stream acc w' co' = out_stream acc w co
     else out_stream acc w' co' = out_stream acc w co @ data \<and>
       (data \<noteq> [] \<longrightarrow> (isWriting ch' \<longleftrightarrow> contents (outputBuffer co') \<noteq> [])))"
proof -
  from sendInLoop_ok [OF assms] obtain w' co' ch' where "sendInLoop os data i w = Inr w'"
    "sent os ep i co w' co' ch'"
    "if idle co ch \<and> (\<exists>e. fst (sys_write os (cSock co) data (kern w)) = Inl e \<and> \<not> isBlockingError e)
     then out_stream acc w' co' = out_stream acc w co \<and> idle co' ch'
     else out_stream acc w' co' = out_stream acc w co @ data \<and>
       (data \<noteq> [] \<or> (isWriting ch \<longleftrightarrow> contents (outputBuffer co) \<noteq> []) \<longrightarrow>
         (isWriting ch' \<longleftrightarrow> contents (outputBuffer co') \<noteq> []))"
    unfolding returns_iff by blast
  then show ?thesis
    by (intro exI [of _ w'] exI [of _ co'] exI [of _ ch']) (simp add: sent_def split: if_splits)
qed

theorem sendInLoop_extends_stream_witness:
  "\<exists>w' co' ch'. sendInLoop toy_os [5, 6, 7] 7 (sample_world Connected empty_buffer 3 [2]) = Inr w' \<and>
    conn_wf 7 w' co' ch' \<and> out_stream toy_out w' co' = [5, 6, 7]"
proof -
  let ?w = "sample_world Connected empty_buffer 3 [2]" and ?co = "sample_conn Connected empty_buffer"
  have h: "conn_wf 7 ?w ?co (sample_channel 3)"
    "length (bytes (outputBuffer ?co)) + length [5 :: byte, 6, 7] \<le> max_size"
    by (simp_all add: max_size_def)
  from sendInLoop_extends_stream [OF toy_kernel_ok sample_registry h] show ?thesis
    by (simp add: out_stream_def) blast
qed

text \<open>
  C2. What \<open>handleWrite\<close> does to the stream, exactly. When the kernel accepts \<open>n\<close> bytes of the output
  buffer, those \<open>n\<close> are added to what it has accepted, but \<open>2 n\<close> bytes leave the buffer:
  \<open>Buffer::writeFd\<close> has already advanced the reader index by \<open>n\<close> when \<open>handleWrite\<close> calls
  \<open>retrieve(n)\<close>. The channel goes on waiting for writability exactly if bytes are left, and a
  connection that is shutting down has its write side closed exactly when the buffer is empty.
\<close>

theorem handleWrite_effect:
  assumes "kernel_ok os ep acc" and "fin_contract os fin" and "registry_wf os ep w"
    and "conn_wf i w co ch" and "isWriting ch"
  shows "\<exists>w' co' ch'. handleWrite os i w = Inr w' \<and> conn_wf i w' co' ch' \<and> registry_wf os ep w' \<and>
    (let n = accepted_now os w co; out = contents (outputBuffer co) in
     acc (kern w') (cSock co) = acc (kern w) (cSock co) @ take n out \<and>
     contents (outputBuffer co') = drop (2 * n) out \<and>
     (isWriting ch' \<longleftrightarrow> drop (2 * n) out \<noteq> []) \<and>
     (fin (kern w') (cSock co) \<longleftrightarrow> fin (kern w) (cSock co) \<or> cState co = Disconnecting \<and> drop (2 * n) out = []))"
proof -
  from handleWrite_ok [OF assms] obtain w' where w': "handleWrite os i w = Inr w'"
    "written os ep acc fin i w co w'"
    unfolding returns_iff by blast
  from w'(2) obtain co' ch' where "conn_wf i w' co' ch'" "registry_wf os ep w'"
    "acc (kern w') (cSock co) = acc (kern w) (cSock co) @ take (accepted_now os w co) (contents (outputBuffer co))"
    "contents (outputBuffer co') = drop (2 * accepted_now os w co) (contents (outputBuffer co))"
    "isWriting ch' \<longleftrightarrow> contents (outputBuffer co') \<noteq> []"
      "fin (kern w') (cSock co) \<longleftrightarrow> fin (kern w) (cSock co) \<or>
         cState co = Disconnecting \<and> contents (outputBuffer co') = []"
    unfolding written_def Let_def by blast
  with w'(1) show ?thesis
    by (intro exI [of _ w'] exI [of _ co'] exI [of _ ch']) (simp add: Let_def)
qed

theorem handleWrite_effect_witness:
  "\<exists>w' co' ch'. handleWrite toy_os 7 (sample_world Connected four_buffer 7 [1]) = Inr w' \<and>
    conn_wf 7 w' co' ch' \<and> toy_out (kern w') 9 = [1] \<and> contents (outputBuffer co') = [3, 4]"
proof -
  have h: "conn_wf 7 (sample_world Connected four_buffer 7 [1]) (sample_conn Connected four_buffer) (sample_channel 7)"
    by simp
  from handleWrite_effect [OF toy_kernel_ok toy_fin_contract sample_registry h] show ?thesis
    by (simp add: accepted_now_def Let_def) blast
qed

text \<open>
  C23. \<open>handleWrite\<close> keeps the stream if and only if the kernel accepts all of the queued bytes or
  none. After a partial write the bytes between \<open>n\<close> and \<open>2 n\<close> are neither sent nor kept: the peer
  receives a stream with a hole of \<open>min n (length - n)\<close> bytes.
\<close>

theorem handleWrite_loses_bytes:
  assumes "kernel_ok os ep acc" and "fin_contract os fin" and "registry_wf os ep w"
    and "conn_wf i w co ch" and "isWriting ch"
    and n: "n = accepted_now os w co" and out: "out = contents (outputBuffer co)"
  shows "\<exists>w' co' ch'. handleWrite os i w = Inr w' \<and> conn_wf i w' co' ch' \<and>
    (out_stream acc w' co' = out_stream acc w co \<longleftrightarrow> n = 0 \<or> n \<ge> length out) \<and>
    length (out_stream acc w co) = length (out_stream acc w' co') + min n (length out - n)"
proof -
  from handleWrite_ok [OF assms(1-5)] obtain w' co' ch' where
    h: "handleWrite os i w = Inr w'" "conn_wf i w' co' ch'" "co' = co\<lparr>outputBuffer := outputBuffer co'\<rparr>"
      "acc (kern w') (cSock co) = acc (kern w) (cSock co) @ take n out"
      "contents (outputBuffer co') = drop (2 * n) out"
    by (auto simp: returns_iff written_def Let_def n out)
  have sock: "cSock co' = cSock co" using arg_cong [OF h(3), of cSock] by simp
  have s: "out_stream acc w co = acc (kern w) (cSock co) @ take n out @ drop n out"
      "out_stream acc w' co' = acc (kern w) (cSock co) @ take n out @ drop (2 * n) out"
    using h(4,5) sock by (simp_all add: out_stream_def out)
  have "drop (2 * n) out = drop n out \<longleftrightarrow> n = 0 \<or> n \<ge> length out"
  proof
    assume "drop (2 * n) out = drop n out"
    then have "length out - 2 * n = length out - n" by (metis length_drop)
    then show "n = 0 \<or> n \<ge> length out" by arith
  qed auto
  moreover have "length (out_stream acc w co) = length (out_stream acc w' co') + min n (length out - n)"
    unfolding s by auto
  moreover have "out_stream acc w' co' = out_stream acc w co \<longleftrightarrow> drop (2 * n) out = drop n out"
    unfolding s by (simp only: same_append_eq)
  ultimately show ?thesis using h(1,2)
    by (intro exI [of _ w'] exI [of _ co'] exI [of _ ch']) simp
qed

theorem handleWrite_loses_bytes_witness:
  "\<exists>w' co' ch'. handleWrite toy_os 7 (sample_world Connected four_buffer 7 [2]) = Inr w' \<and>
    conn_wf 7 w' co' ch' \<and>
    out_stream toy_out w' co' \<noteq> out_stream toy_out (sample_world Connected four_buffer 7 [2]) (sample_conn Connected four_buffer) \<and>
    length (out_stream toy_out w' co') = 2"
proof -
  let ?w = "sample_world Connected four_buffer 7 [2]" and ?co = "sample_conn Connected four_buffer"
  have h: "conn_wf 7 ?w ?co (sample_channel 7)" "2 = accepted_now toy_os ?w ?co"
    "[1, 2, 3, 4] = contents (outputBuffer ?co)"
    by (simp_all add: accepted_now_def)
  have "length (out_stream toy_out ?w ?co) = 4" by (simp add: out_stream_def)
  with handleWrite_loses_bytes [OF toy_kernel_ok toy_fin_contract sample_registry h(1) _ h(2,3)]
  show ?thesis by simp
qed

section \<open>Shutting down\<close>

text \<open>
  C21. \<open>shutdown\<close> never cuts off queued bytes. Take a connected connection whose channel waits for writability exactly
  if bytes are queued, as \<open>sendInLoop\<close> and \<open>handleWrite\<close> leave it. The state becomes Disconnecting. Called in the
  loop's thread with bytes queued, \<open>shutdown\<close> changes nothing else and does not call the kernel, so the write side stays as it
  is; \<open>handleWrite\<close> closes it when the buffer has run empty. With nothing queued it closes the write side at once. Called
  by another thread it only queues the request for the loop and wakes it, whatever is queued.
\<close>

theorem shutdown_is_graceful:
  assumes "fin_contract os fin" and "conn_wf i w co ch"
    and "loops w (cLoop co) = Some lp" and "cState co = Connected"
    and "isWriting ch \<longleftrightarrow> contents (outputBuffer co) \<noteq> []"
  shows "\<exists>w'. shutdown os i w = Inr w' \<and> conn_wf i w' (co\<lparr>cState := Disconnecting\<rparr>) ch \<and>
    (if isInLoopThread lp w then
       (if contents (outputBuffer co) \<noteq> [] then w' = put_conn i (co\<lparr>cState := Disconnecting\<rparr>) w else fin (kern w') (cSock co))
     else kern w' = sys_eventfd_write os (wakeupFd lp) (kern w) \<and>
       loops w' = (loops w)(cLoop co \<mapsto> lp\<lparr>pendingFunctors := pendingFunctors lp @ [ShutdownInLoop i]\<rparr>))"
proof (cases "isInLoopThread lp w")
  case True
  with shutdown_eq [OF assms(2,3) True] assms(4,5) fin_contractD(1) [OF assms(1)] conn_wf_state [OF assms(2)] show ?thesis
    by (auto simp: Let_def conn_wf_kern)
next
  case False
  let ?w = "put_conn i (co\<lparr>cState := Disconnecting\<rparr>) w"
  have q: "shutdown os i w = queueInLoop os (cLoop co) (ShutdownInLoop i) ?w"
    using conn_wfD(1) [OF assms(2)] assms(3,4) False
    by (simp add: shutdown_def runInLoop_def isInLoopThread_def put_conn_def)
  have lp: "loops ?w (cLoop co) = Some lp" using assms(3) by simp
  from conn_wf_state [OF assms(2)] False lp show ?thesis
    unfolding q queueInLoop_eq [OF lp]
    by (auto simp: isInLoopThread_def put_loop_def conn_wf_def conn_live_def channel_ready_def)
qed

text \<open>With bytes queued, in the loop's thread and in another.\<close>

theorem shutdown_is_graceful_witness:
  "\<exists>w' w''. shutdown toy_os 7 (sample_world Connected four_buffer 7 []) = Inr w' \<and> toy_shut (kern w') = [] \<and>
    shutdown toy_os 7 ((sample_world Connected four_buffer 7 [])\<lparr>curThread := 2\<rparr>) = Inr w'' \<and>
    map_option pendingFunctors (loops w'' 0) = Some [ShutdownInLoop 7]"
proof -
  let ?w = "sample_world Connected four_buffer 7 []"
  have "conn_wf 7 (?w\<lparr>curThread := 2\<rparr>) co ch = conn_wf 7 ?w co ch" for co ch
    by (simp add: conn_wf_def conn_live_def channel_ready_def)
  then show ?thesis
    using shutdown_is_graceful [of toy_os toy_fin 7 ?w "sample_conn Connected four_buffer" "sample_channel 7" sample_loop]
      shutdown_is_graceful [of toy_os toy_fin 7 "?w\<lparr>curThread := 2\<rparr>" "sample_conn Connected four_buffer" "sample_channel 7" sample_loop]
    by (auto simp: sample_conn_wf isInLoopThread_def) (auto simp: sample_loop_def)
qed

text \<open>
  A shutdown request made when the connection is not connected is lost, and the state is still
  overwritten: the \<open>exchange\<close> stores Disconnecting whatever the state was. On a connection that is
  still Connecting the request has no effect once \<open>connectEstablished\<close> runs, and a closed connection
  goes back from Disconnected to Disconnecting, with the kernel never called.
\<close>

theorem shutdown_outside_connected:
  assumes "conns w i = Some co" and "cState co \<noteq> Connected"
  shows "shutdown os i w = Inr (put_conn i (co\<lparr>cState := Disconnecting\<rparr>) w)"
  using assms by (simp add: shutdown_def)

theorem shutdown_outside_connected_witness:
  "shutdown toy_os 7 (sample_world Disconnected empty_buffer 0 [])
     = Inr (put_conn 7 (sample_conn Disconnecting empty_buffer) (sample_world Disconnected empty_buffer 0 []))"
proof -
  have "(sample_conn Disconnected empty_buffer)\<lparr>cState := Disconnecting\<rparr> = sample_conn Disconnecting empty_buffer"
    by (simp add: sample_conn_def)
  then show ?thesis
    using shutdown_outside_connected [of "sample_world Disconnected empty_buffer 0 []" 7
        "sample_conn Disconnected empty_buffer" toy_os] by simp
qed

end
