(* ===== verification/ConnectionTrace.thy ===== *)
theory ConnectionTrace
  imports Footprint ConnectionProps
begin

text \<open>
  A connection over a whole run of calls. Its abstract specification is a pipe: what went into it, and
  whether its end was announced. The calls of a connected connection's own loop implement it: every run of
  sends, writable events and shutdown requests puts the same bytes into the kernel and the output
  buffer as into the pipe, and the write side is closed exactly when the end was announced and nothing
  is left to send.
\<close>

subsection \<open>The specification\<close>

datatype conn_call = Send "byte list" | Writable | ShutDown

record pipe =
  stream :: "byte list"
  closed :: bool

fun pipe_do :: "conn_call \<Rightarrow> pipe \<Rightarrow> pipe" where
  "pipe_do (Send d) p = (if closed p then p else p\<lparr>stream := stream p @ d\<rparr>)"
| "pipe_do Writable p = p"
| "pipe_do ShutDown p = p\<lparr>closed := True\<rparr>"

subsection \<open>The calls of the code\<close>

fun conn_do :: "'k os \<Rightarrow> conn \<Rightarrow> conn_call \<Rightarrow> ('k, 'z) conn_world_scheme \<Rightarrow> ('k, 'z) conn_world_scheme result" where
  "conn_do os i (Send d) w = send os d i w"
| "conn_do os i Writable w = handleWrite os i w"
| "conn_do os i ShutDown w = shutdown os i w"

text \<open>
  What the code needs of the kernel at a call: a direct write is not refused for good, the buffer can
  grow by the data, and a \<open>handleWrite\<close> gets rid of all that is queued or of nothing.
\<close>

fun kind_call :: "'k os \<Rightarrow> conn \<Rightarrow> conn_call \<Rightarrow> ('k, 'z) conn_world_scheme \<Rightarrow> bool" where
  "kind_call os i (Send d) w =
     (case conns w i of None \<Rightarrow> False | Some co \<Rightarrow>
        length (bytes (outputBuffer co)) + length d \<le> max_size \<and>
        (case fst (sys_write os (cSock co) d (kern w)) of Inl e \<Rightarrow> isBlockingError e | Inr n \<Rightarrow> True))"
| "kind_call os i Writable w =
     (case conns w i of None \<Rightarrow> False | Some co \<Rightarrow>
        accepted_now os w co = 0 \<or> accepted_now os w co = length (contents (outputBuffer co)))"
| "kind_call os i ShutDown w = True"

fun kind_run :: "'k os \<Rightarrow> conn \<Rightarrow> conn_call list \<Rightarrow> ('k, 'z) conn_world_scheme \<Rightarrow> bool" where
  "kind_run os i [] w = True"
| "kind_run os i (x # xs) w =
     (kind_call os i x w \<and> (case conn_do os i x w of Inl e \<Rightarrow> True | Inr w' \<Rightarrow> kind_run os i xs w'))"

subsection \<open>The refinement\<close>

definition piped :: "'k os \<Rightarrow> 'k interest \<Rightarrow> 'k accepted \<Rightarrow> ('k \<Rightarrow> fd \<Rightarrow> bool) \<Rightarrow> conn \<Rightarrow> fd \<Rightarrow> pipe \<Rightarrow>
    ('k, 'z) conn_world_scheme \<Rightarrow> bool" where
  "piped os ep acc fin i f p w \<longleftrightarrow>
     (\<exists>co ch lp. conn_wf i w co ch \<and> registry_wf os ep w \<and> cSock co = f \<and>
        cState co = (if closed p then Disconnecting else Connected) \<and>
        (isWriting ch \<longleftrightarrow> contents (outputBuffer co) \<noteq> []) \<and> out_stream acc w co = stream p \<and>
        (fin (kern w) f \<longleftrightarrow> closed p \<and> contents (outputBuffer co) = []) \<and>
        loops w (cLoop co) = Some lp \<and> threadId lp = curThread w)"

lemma pipedI:
  assumes "conn_wf i w co ch" "registry_wf os ep w" "cSock co = f"
    "cState co = (if closed p then Disconnecting else Connected)"
    "isWriting ch \<longleftrightarrow> contents (outputBuffer co) \<noteq> []" "out_stream acc w co = stream p"
    "fin (kern w) f \<longleftrightarrow> closed p \<and> contents (outputBuffer co) = []"
    "\<exists>lp. loops w (cLoop co) = Some lp \<and> threadId lp = curThread w"
  shows "piped os ep acc fin i f p w"
  using assms unfolding piped_def by blast

lemma piped_send:
  assumes k: "kernel_ok os ep acc" "fin_contract os fin" and p: "piped os ep acc fin i f p w"
    and kind: "kind_call os i (Send d) w"
  shows "returns (conn_do os i (Send d) w) (piped os ep acc fin i f (pipe_do (Send d) p))"
proof -
  from p obtain co ch lp where h: "conn_wf i w co ch" "registry_wf os ep w" "cSock co = f"
    "cState co = (if closed p then Disconnecting else Connected)"
    "isWriting ch \<longleftrightarrow> contents (outputBuffer co) \<noteq> []" "out_stream acc w co = stream p"
    "fin (kern w) f \<longleftrightarrow> closed p \<and> contents (outputBuffer co) = []"
    "loops w (cLoop co) = Some lp" "threadId lp = curThread w"
    unfolding piped_def by blast
  note c = conn_wfD [OF h(1)]
  show ?thesis
  proof (cases "closed p")
    case True
    then have "send os d i w = Inr w" using c(1) h(4) by (simp add: send_def)
    with True p show ?thesis by simp
  next
    case False
    have kc: "length (bytes (outputBuffer co)) + length d \<le> max_size"
      "\<And>e. fst (sys_write os (cSock co) d (kern w)) = Inl e \<Longrightarrow> isBlockingError e"
      using kind c(1) by (auto split: sum.splits)
    have soft: "\<not> (idle co ch \<and> (\<exists>e. fst (sys_write os (cSock co) d (kern w)) = Inl e \<and> \<not> isBlockingError e))"
      using kc(2) by blast
    from sendInLoop_ok [OF k(1) h(2,1) kc(1)] h(5) obtain w' co' ch' where
      s: "sendInLoop os d i w = Inr w'" "sent os ep i co w' co' ch'"
        "out_stream acc w' co' = out_stream acc w co @ d"
        "isWriting ch' \<longleftrightarrow> contents (outputBuffer co') \<noteq> []"
      unfolding returns_iff if_not_P [OF soft] by blast
    have w': "conn_wf i w' co' ch'" "registry_wf os ep w'" and eq: "co' = co\<lparr>outputBuffer := outputBuffer co'\<rparr>"
      using s(2) by (auto simp: sent_def)
    have f: "cState co' = Connected" "cSock co' = f" "cLoop co' = cLoop co"
      using arg_cong [OF eq, of cState] arg_cong [OF eq, of cSock] arg_cong [OF eq, of cLoop] h(3,4) False by simp_all
    have fin: "fin (kern w') f = fin (kern w) f"
      using fn.send_in_loop [OF s(1)] k(2) by auto
    from in_thread_same [OF th.send_in_loop [OF s(1)] h(8,9)]
    have "\<exists>lp. loops w' (cLoop co') = Some lp \<and> threadId lp = curThread w'" by (simp add: f(3))
    then have "piped os ep acc fin i f (pipe_do (Send d) p) w'"
      by (intro pipedI [OF w']) (use False f s(3,4) h(6,7) fin in simp_all)
    moreover have "conn_do os i (Send d) w = Inr w'"
      using c(1) h(4,8,9) False s(1) by (simp add: send_def isInLoopThread_def)
    ultimately show ?thesis by simp
  qed
qed

lemma piped_writable:
  assumes k: "kernel_ok os ep acc" "fin_contract os fin" and p: "piped os ep acc fin i f p w"
    and kind: "kind_call os i Writable w"
  shows "returns (conn_do os i Writable w) (piped os ep acc fin i f (pipe_do Writable p))"
proof -
  from p obtain co ch lp where h: "conn_wf i w co ch" "registry_wf os ep w" "cSock co = f"
    "cState co = (if closed p then Disconnecting else Connected)"
    "isWriting ch \<longleftrightarrow> contents (outputBuffer co) \<noteq> []" "out_stream acc w co = stream p"
    "fin (kern w) f \<longleftrightarrow> closed p \<and> contents (outputBuffer co) = []"
    "loops w (cLoop co) = Some lp" "threadId lp = curThread w"
    unfolding piped_def by blast
  note c = conn_wfD [OF h(1)]
  show ?thesis
  proof (cases "isWriting ch")
    case False
    then have "handleWrite os i w = Inr w" using c(1,2) by (simp add: handleWrite_def)
    with p show ?thesis by simp
  next
    case True
    let ?n = "accepted_now os w co" and ?out = "contents (outputBuffer co)"
    from handleWrite_ok [OF k h(2,1) True] obtain w' co' ch' where
      s: "handleWrite os i w = Inr w'" "conn_wf i w' co' ch'" "registry_wf os ep w'"
        "co' = co\<lparr>outputBuffer := outputBuffer co'\<rparr>"
        "acc (kern w') (cSock co) = acc (kern w) (cSock co) @ take ?n ?out"
        "contents (outputBuffer co') = drop (2 * ?n) ?out"
        "isWriting ch' \<longleftrightarrow> contents (outputBuffer co') \<noteq> []"
        "fin (kern w') (cSock co) \<longleftrightarrow> fin (kern w) (cSock co) \<or>
           cState co = Disconnecting \<and> contents (outputBuffer co') = []"
      unfolding returns_iff written_def Let_def by blast
    have f: "cState co' = cState co" "cSock co' = f" "cLoop co' = cLoop co"
      using arg_cong [OF s(4), of cState] arg_cong [OF s(4), of cSock] arg_cong [OF s(4), of cLoop] h(3) by simp_all
    have "?n = 0 \<or> ?n = length ?out" using kind c(1) by simp
    then have "take ?n ?out @ drop (2 * ?n) ?out = ?out" by auto
    then have "out_stream acc w' co' = stream p"
      using s(5,6) f(2) h(3,6) by (simp add: out_stream_def)
    moreover have "fin (kern w') f \<longleftrightarrow> closed p \<and> contents (outputBuffer co') = []"
      using s(8) h(3,4,5,7) True by auto
    moreover from in_thread_same [OF th.handle_write [OF s(1)] h(8,9)]
    have "\<exists>lp. loops w' (cLoop co') = Some lp \<and> threadId lp = curThread w'" by (simp add: f(3))
    ultimately have "piped os ep acc fin i f p w'"
      by (intro pipedI [OF s(2,3)]) (use f s(7) h(4) in simp_all)
    with s(1) show ?thesis by simp
  qed
qed

lemma piped_shutdown:
  assumes k: "kernel_ok os ep acc" "fin_contract os fin" and p: "piped os ep acc fin i f p w"
  shows "returns (conn_do os i ShutDown w) (piped os ep acc fin i f (pipe_do ShutDown p))"
proof -
  from p obtain co ch lp where h: "conn_wf i w co ch" "registry_wf os ep w" "cSock co = f"
    "cState co = (if closed p then Disconnecting else Connected)"
    "isWriting ch \<longleftrightarrow> contents (outputBuffer co) \<noteq> []" "out_stream acc w co = stream p"
    "fin (kern w) f \<longleftrightarrow> closed p \<and> contents (outputBuffer co) = []"
    "loops w (cLoop co) = Some lp" "threadId lp = curThread w"
    unfolding piped_def by blast
  let ?co = "co\<lparr>cState := Disconnecting\<rparr>"
  let ?v = "put_conn i ?co w" and ?k = "snd (sys_shutdown_wr os f (kern w))"
  let ?w = "if closed p \<or> isWriting ch then ?v else ?v\<lparr>kern := ?k\<rparr>"
  have sh: "shutdown os i w = Inr ?w"
    using shutdown_eq [OF h(1,8), of os] h(3,4,9) by (simp add: isInLoopThread_def Let_def)
  have "conn_wf i ?w ?co ch" using conn_wf_state [OF h(1)] by (simp add: conn_wf_kern)
  moreover have "registry_wf os ep ?w"
    using h(2) registry_kern(1) [of ep ?k ?v] kernel_okD(6) [OF k(1), of f "kern w"] by simp
  moreover have "out_stream acc ?w ?co = stream p"
    using h(6) stream_contractD(6) [OF kernel_okD(3) [OF k(1)]] by (simp add: out_stream_def)
  moreover have "fin (kern ?w) f \<longleftrightarrow> contents (outputBuffer co) = []"
    using h(5,7) fin_contractD(1) [OF k(2)] by auto
  ultimately have "piped os ep acc fin i f (pipe_do ShutDown p) ?w"
    by (intro pipedI [where co = ?co]) (use h in simp_all)
  with sh show ?thesis by simp
qed

lemma piped_step:
  assumes "kernel_ok os ep acc" "fin_contract os fin" "piped os ep acc fin i f p w" "kind_call os i x w"
  shows "returns (conn_do os i x w) (piped os ep acc fin i f (pipe_do x p))"
  using assms by (cases x) (simp_all only: piped_send piped_writable piped_shutdown)

lemma piped_run:
  assumes "kernel_ok os ep acc" "fin_contract os fin"
  shows "piped os ep acc fin i f p w \<Longrightarrow> kind_run os i xs w \<Longrightarrow>
    returns (each (conn_do os i) xs w) (piped os ep acc fin i f (fold pipe_do xs p))"
proof (induction xs arbitrary: p w)
  case (Cons x xs)
  from piped_step [OF assms Cons.prems(1)] Cons.prems(2) obtain w' where
    "conn_do os i x w = Inr w'" "piped os ep acc fin i f (pipe_do x p) w'"
    by (auto simp: returns_iff)
  with Cons.IH [of "pipe_do x p" w'] Cons.prems(2) show ?case by simp
qed simp

text \<open>
  C9. A connection refines a pipe. Take a connected connection in its own loop with its write side open, and any run
  of sends, writable events and shutdown requests during which the kernel is kind: no direct write
  fails for good, and each \<open>handleWrite\<close> gets rid of all that is queued or of nothing. Then every call
  returns with the state consistent; what the kernel accepted followed by what is queued is the data of the sends before the
  first shutdown, in order; and the write side is closed exactly if a shutdown was requested and
  nothing is queued any more, so that the peer sees the end of the stream only after all of it.
\<close>

theorem connection_refines_pipe:
  assumes "kernel_ok os ep acc" and "fin_contract os fin" and "registry_wf os ep w" and "conn_wf i w co ch"
    and "cState co = Connected" and "isWriting ch \<longleftrightarrow> contents (outputBuffer co) \<noteq> []"
    and "\<not> fin (kern w) (cSock co)" and "loops w (cLoop co) = Some lp" and "threadId lp = curThread w"
    and "kind_run os i calls w"
    and "p = fold pipe_do calls \<lparr>stream = out_stream acc w co, closed = False\<rparr>"
  shows "\<exists>w' co' ch'. each (conn_do os i) calls w = Inr w' \<and> conn_wf i w' co' ch' \<and> registry_wf os ep w' \<and>
    acc (kern w') (cSock co) @ contents (outputBuffer co') = stream p \<and>
    cState co' = (if closed p then Disconnecting else Connected) \<and>
    (fin (kern w') (cSock co) \<longleftrightarrow> closed p \<and> acc (kern w') (cSock co) = stream p)"
proof -
  have "piped os ep acc fin i (cSock co) \<lparr>stream = out_stream acc w co, closed = False\<rparr> w"
    by (rule pipedI [OF assms(4,3)]) (use assms(5-9) in simp_all)
  from piped_run [OF assms(1,2) this assms(10)] obtain w' co' ch' where
    "each (conn_do os i) calls w = Inr w'" "conn_wf i w' co' ch'" "registry_wf os ep w'" "cSock co' = cSock co"
    "cState co' = (if closed p then Disconnecting else Connected)" "out_stream acc w' co' = stream p"
    "fin (kern w') (cSock co) \<longleftrightarrow> closed p \<and> contents (outputBuffer co') = []"
    unfolding assms(11) by (auto simp: returns_iff piped_def)
  moreover from this(4,6) have "acc (kern w') (cSock co) @ contents (outputBuffer co') = stream p"
    by (simp add: out_stream_def)
  moreover from this have "contents (outputBuffer co') = [] \<longleftrightarrow> acc (kern w') (cSock co) = stream p"
    by (metis append_Nil2 append_self_conv)
  ultimately show ?thesis by metis
qed

theorem connection_refines_pipe_witness:
  "\<exists>w' co' ch'. each (conn_do toy_os 7) [ShutDown, Writable] (sample_world Connected four_buffer 7 [4]) = Inr w' \<and>
    conn_wf 7 w' co' ch' \<and> toy_out (kern w') 9 @ contents (outputBuffer co') = [1, 2, 3, 4] \<and>
    cState co' = Disconnecting"
proof -
  let ?w = "sample_world Connected four_buffer 7 [4]" and ?co = "sample_conn Connected four_buffer"
  have h: "conn_wf 7 ?w ?co (sample_channel 7)" by simp
  have sh: "shutdown toy_os 7 ?w = Inr (put_conn 7 (?co\<lparr>cState := Disconnecting\<rparr>) ?w)"
    using shutdown_eq [OF h, of sample_loop toy_os] by (simp add: isInLoopThread_def Let_def)
  have kind: "kind_run toy_os 7 [ShutDown, Writable] ?w"
    by (simp add: sh accepted_now_def split: sum.splits)
  have blank: "toy_shut toy0 = []" "toy_out toy0 9 = []" by (simp_all add: toy0_def)
  from connection_refines_pipe [OF toy_kernel_ok toy_fin_contract sample_registry h _ _ _ _ _ kind refl, of sample_loop]
  show ?thesis by (simp add: out_stream_def toy_fin_def blank del: each.simps) blast
qed

end
