(* ===== verification/ReactorProps.thy ===== *)
theory ReactorProps
  imports Samples
begin

unbundle bit_operations_syntax

text \<open>
  The properties of the reactor: the dispatch of events to a channel's callbacks, the agreement of
  the poller with the kernel, and the reading of one \<open>epoll_wait\<close>.
\<close>

section \<open>Dispatch\<close>

text \<open>The callbacks that the events \<open>r\<close> of a channel call for, in their order.\<close>

definition dispatch_plan :: "channel \<Rightarrow> event_cb list" where
  "dispatch_plan ch =
     (let r = revents ch;
          due = (\<lambda>b cb. if b then (case cb of None \<Rightarrow> [] | Some x \<Rightarrow> [x]) else [])
      in due (r AND EPOLLHUP \<noteq> 0 \<and> r AND EPOLLIN = 0) (closeCallback ch) @
         due (r AND EPOLLERR \<noteq> 0) (errorCallback ch) @
         due (r AND (EPOLLIN OR EPOLLPRI) \<noteq> 0) (readCallback ch) @
         due (r AND EPOLLOUT \<noteq> 0) (writeCallback ch))"

text \<open>
  The callbacks may change the channel's mask and index, but not the events of this turn or the
  callbacks themselves, and the channel stays alive.
\<close>

definition keeps_dispatch ::
  "(event_cb \<Rightarrow> timestamp \<Rightarrow> ('k, 'z) chan_world_scheme \<Rightarrow> ('k, 'z) chan_world_scheme result) \<Rightarrow> cid \<Rightarrow> bool" where
  "keeps_dispatch run c \<longleftrightarrow>
     (\<forall>cb t w w' ch. run cb t w = Inr w' \<longrightarrow> chans w c = Some ch \<longrightarrow>
        (\<exists>ch'. chans w' c = Some ch' \<and> revents ch' = revents ch \<and> closeCallback ch' = closeCallback ch \<and>
           errorCallback ch' = errorCallback ch \<and> readCallback ch' = readCallback ch \<and>
           writeCallback ch' = writeCallback ch))"

definition same_dispatch :: "cid \<Rightarrow> channel \<Rightarrow> ('k, 'z) chan_world_scheme \<Rightarrow> bool" where
  "same_dispatch c ch w \<longleftrightarrow>
     (\<exists>ch'. chans w c = Some ch' \<and> revents ch' = revents ch \<and> closeCallback ch' = closeCallback ch \<and>
        errorCallback ch' = errorCallback ch \<and> readCallback ch' = readCallback ch \<and>
        writeCallback ch' = writeCallback ch)"

lemma same_dispatch_run:
  "keeps_dispatch run c \<Longrightarrow> same_dispatch c ch w \<Longrightarrow> run cb t w = Inr w' \<Longrightarrow> same_dispatch c ch w'"
  unfolding same_dispatch_def keeps_dispatch_def by metis

text \<open>One stage of the dispatch against its part of the plan.\<close>

lemma fire_stage:
  assumes keep: "keeps_dispatch run c" and same: "same_dispatch c ch w"
    and cb: "\<And>ch'. revents ch' = revents ch \<Longrightarrow> closeCallback ch' = closeCallback ch \<Longrightarrow>
      errorCallback ch' = errorCallback ch \<Longrightarrow> readCallback ch' = readCallback ch \<Longrightarrow>
      writeCallback ch' = writeCallback ch \<Longrightarrow> get ch' = get ch"
    and rest: "\<And>w'. same_dispatch c ch w' \<Longrightarrow> f w' = each (\<lambda>cb. run cb t) plan w'"
  shows "andThen (fire run cond get t c w) f =
    each (\<lambda>cb. run cb t) ((if cond (revents ch) then (case get ch of None \<Rightarrow> [] | Some x \<Rightarrow> [x]) else []) @ plan) w"
proof -
  from same obtain ch' where ch': "chans w c = Some ch'" "revents ch' = revents ch" "get ch' = get ch"
    unfolding same_dispatch_def using cb by blast
  show ?thesis
    using ch' rest [OF same] same_dispatch_run [OF keep same] rest
    by (auto simp: fire_def split: option.splits intro!: andThen_cong)
qed

lemma dispatch_eq:
  assumes keep: "keeps_dispatch run c" and c: "chans w c = Some ch"
  shows "handleEventWithGuard run t c w = each (\<lambda>cb. run cb t) (dispatch_plan ch) w"
proof -
  have same: "same_dispatch c ch w" using c by (simp add: same_dispatch_def)
  have last_stage: "fire run (\<lambda>r. r AND EPOLLOUT \<noteq> 0) writeCallback t c w' =
      each (\<lambda>cb. run cb t) ((if revents ch AND EPOLLOUT \<noteq> 0
        then (case writeCallback ch of None \<Rightarrow> [] | Some x \<Rightarrow> [x]) else []) @ []) w'"
    if "same_dispatch c ch w'" for w'
    using fire_stage [OF keep that, of writeCallback Inr t "[]" "\<lambda>r. r AND EPOLLOUT \<noteq> 0"]
    by (simp add: andThen_def split: sum.splits)
  show ?thesis
    unfolding handleEventWithGuard_def dispatch_plan_def Let_def
    by (subst fire_stage [OF keep same], simp, subst fire_stage [OF keep], assumption, simp,
        subst fire_stage [OF keep], assumption, simp, erule last_stage)
      (simp_all add: hup_only_def)
qed

text \<open>
  C18. Dispatch. \<open>handleEvent\<close> runs exactly the callbacks the returned events call for, in the order
  close, error, read, write, each with the receive time, and stops at the first that fails: the close
  callback on EPOLLHUP without EPOLLIN, the error callback on EPOLLERR, the read callback on EPOLLIN
  or EPOLLPRI, the write callback on EPOLLOUT, each if it is set. A channel that is tied to an object
  that no longer lives runs none of them and changes nothing.
\<close>

theorem handleEvent_dispatch:
  assumes "keeps_dispatch run c" and "chans w c = Some ch"
  shows "handleEvent alive run t c w =
    (if tied ch \<and> (\<forall>i. tie_obj ch = Some i \<longrightarrow> \<not> alive i w) then Inr w
     else each (\<lambda>cb. run cb t) (dispatch_plan ch) w)"
  using dispatch_eq [OF assms] assms(2) by (auto simp: handleEvent_def split: option.splits)

text \<open>A world whose kernel state is the list of the callbacks that ran.\<close>

definition log_world :: "uint32 \<Rightarrow> event_cb list chan_world" where
  "log_world r = \<lparr>kern = [], chans = (\<lambda>_. None)(1 := Some (set_revents r (setupChannelCallbacks 7 (new_channel 0 9))))\<rparr>"

definition log_run :: "event_cb \<Rightarrow> timestamp \<Rightarrow> event_cb list chan_world \<Rightarrow> event_cb list chan_world result" where
  "log_run cb t w = Inr (w\<lparr>kern := kern w @ [cb]\<rparr>)"

theorem handleEvent_dispatch_witness:
  "map_sum id kern (handleEvent (\<lambda>_ _. True) log_run 0 1 (log_world 0x1D)) =
     Inr [ConnHandleError 7, ConnHandleRead 7, ConnHandleWrite 7] \<and>
   map_sum id kern (handleEvent (\<lambda>_ _. True) log_run 0 1 (log_world 0x10)) = Inr [ConnHandleClose 7]"
proof -
  have k: "keeps_dispatch log_run 1" by (auto simp: keeps_dispatch_def log_run_def)
  have c: "chans (log_world r) 1 = Some (set_revents r (setupChannelCallbacks 7 (new_channel 0 9)))" for r
    by (simp add: log_world_def)
  have kl: "kern (log_world r) = []" for r by (simp add: log_world_def)
  note masks = EPOLLHUP_def EPOLLIN_def EPOLLERR_def EPOLLPRI_def EPOLLOUT_def
  show ?thesis
    unfolding handleEvent_dispatch [OF k c]
    by (simp add: dispatch_plan_def Let_def set_revents_def setupChannelCallbacks_def new_channel_def
        setReadCallback_def setWriteCallback_def setCloseCallback_def setErrorCallback_def masks
        log_run_def kl)
qed

section \<open>The poller and the kernel\<close>

text \<open>The calls a channel's owner makes, and what each makes of the event mask.\<close>

datatype channel_op = EnableReading | DisableReading | EnableWriting | DisableWriting | DisableAll | Remove

fun op_mask :: "channel_op \<Rightarrow> uint32 \<Rightarrow> uint32" where
  "op_mask EnableReading e = e OR 3"
| "op_mask DisableReading e = e AND NOT 3"
| "op_mask EnableWriting e = e OR 4"
| "op_mask DisableWriting e = e AND NOT 4"
| "op_mask DisableAll e = 0"
| "op_mask Remove e = e"

fun channel_do :: "'k os \<Rightarrow> cid \<Rightarrow> channel_op \<Rightarrow> ('k, 'z) poll_world_scheme \<Rightarrow> ('k, 'z) poll_world_scheme result" where
  "channel_do os c EnableReading w = enableReading os c w"
| "channel_do os c DisableReading w = disableReading os c w"
| "channel_do os c EnableWriting w = enableWriting os c w"
| "channel_do os c DisableWriting w = disableWriting os c w"
| "channel_do os c DisableAll w = disableAll os c w"
| "channel_do os c Remove w = channel_remove os c w"

lemma masks_def: "kReadEvent = 3" "kWriteEvent = 4" "kNoneEvent = 0"
  by (simp_all add: kReadEvent_def kWriteEvent_def kNoneEvent_def EPOLLIN_def EPOLLPRI_def EPOLLOUT_def)

fun as_change :: "channel_op \<Rightarrow> (uint32 \<Rightarrow> uint32) option" where
  "as_change Remove = None"
| "as_change op = Some (op_mask op)"

lemma op_mask_eqs:
  "(\<lambda>e. e OR 3) = op_mask EnableReading" "(\<lambda>e. e AND NOT 3) = op_mask DisableReading"
  "(\<lambda>e. e OR 4) = op_mask EnableWriting" "(\<lambda>e. e AND NOT 4) = op_mask DisableWriting"
  "(\<lambda>e. 0) = op_mask DisableAll"
  by (simp_all add: fun_eq_iff)

lemma channel_do_eq:
  "channel_do os c op w = (case as_change op of None \<Rightarrow> channel_remove os c w | Some g \<Rightarrow> change_events os g c w)"
  by (cases op) (simp_all only: channel_do.simps as_change.simps channel_ops_change masks_def op_mask_eqs
      option.case)

lemma run_ops_each: "each (channel_do os c) ops w = er.run_ops os (map as_change ops) c w"
proof (induction ops arbitrary: w)
  case (Cons op ops)
  then show ?case
    by (cases "as_change op") (auto simp: channel_do_eq intro!: andThen_cong)
qed simp

lemma as_change_simps: "as_change op = None \<longleftrightarrow> op = Remove"
  "(case as_change op of None \<Rightarrow> e | Some g \<Rightarrow> g e) = op_mask op e"
  by (cases op; simp)+

text \<open>
  C13. The poller and the kernel agree. After any sequence of enable, disable and remove calls on a
  channel that may be given to its poller, under a kernel that honours the contract of \<open>epoll_ctl\<close> and
  has the resources: the process has not ended, the poller's map, the channels' indices and the
  kernel's interest list are still consistent, the channel's mask is what the calls made of it, and
  the kernel monitors exactly that mask for it, when it is not empty and the last call was not a
  removal; after a removal it monitors nothing for it. No other channel is affected.
\<close>

theorem poller_tracks_masks:
  assumes "registry_wf os ep w" and "channel_ready c w" and "ops \<noteq> []"
  shows "\<exists>w'. each (channel_do os c) ops w = Inr w' \<and> registry_wf os ep w' \<and> channel_ready c w' \<and>
    channel_mask w' c = fold op_mask ops (channel_mask w c) \<and>
    (last ops = Remove \<longrightarrow> kernel_mask ep w' c = None) \<and>
    (last ops \<noteq> Remove \<and> channel_mask w' c \<noteq> 0 \<longrightarrow> kernel_mask ep w' c = Some (channel_mask w' c)) \<and>
    (\<forall>d. d \<noteq> c \<longrightarrow> channel_mask w' d = channel_mask w d \<and> kernel_mask ep w' d = kernel_mask ep w d)"
  using er.run_ops_fold [OF assms(1,2), of "map as_change ops"] assms(3)
  unfolding run_ops_each returns_iff
  by (simp add: fold_map comp_def as_change_simps last_map masks_def) metis

theorem poller_tracks_masks_witness:
  "\<exists>w'. each (channel_do toy_os 1) [EnableWriting, DisableReading] (sample_world Connected empty_buffer 3 []) = Inr w' \<and>
    kernel_mask toy_ep w' 1 = Some 4 \<and> kernel_mask toy_ep w' 0 = Some 3"
proof -
  let ?w = "sample_world Connected empty_buffer 3 []"
  have ready: "channel_ready 1 ?w" by (simp add: channel_ready_def)
  have m: "channel_mask ?w 1 = 3" "kernel_mask toy_ep ?w 0 = Some 3"
    by (simp_all add: channel_mask_def kernel_mask_def masks_def)
  from poller_tracks_masks [OF sample_registry ready, of "[EnableWriting, DisableReading]"] m
  show ?thesis by auto
qed

text \<open>
  \<open>disableAll\<close> on a channel the kernel does not monitor, new or already disabled, does not leave
  it unmonitored: \<open>updateChannel\<close> looks at the empty mask only for a channel that is added, so it adds
  this one, and the kernel monitors the descriptor with an empty mask, under which it still reports
  EPOLLHUP and EPOLLERR. On a channel that is added it stops the monitoring.
\<close>

theorem disableAll_unregistered_adds:
  assumes "registry_wf os ep w" and "channel_ready c w" and "chans w c = Some ch"
  shows "\<exists>w'. disableAll os c w = Inr w' \<and> registry_wf os ep w' \<and>
    kernel_mask ep w' c = (if index ch = KAdded then None else Some 0)"
proof -
  from change_events_law [OF assms(1,2), of "\<lambda>e. kNoneEvent"] assms(3) obtain p k where
    h: "change_events os (\<lambda>e. kNoneEvent) c w = Inr (put_entry c (registered (\<lambda>e. kNoneEvent) ch) p k w)"
      "registry_wf os ep (put_entry c (registered (\<lambda>e. kNoneEvent) ch) p k w)" (is "registry_wf os ep ?w'")
    by auto
  have "kernel_mask ep ?w' c = (if index (registered (\<lambda>e. kNoneEvent) ch) = KAdded
      then Some (events (registered (\<lambda>e. kNoneEvent) ch)) else None)"
    by (rule kernel_mask_eq) (use h(2) in \<open>simp_all add: registry_wf_def\<close>)
  with h show ?thesis
    by (auto simp: channel_ops_change registered_def masks_def)
qed

theorem disableAll_unregistered_adds_witness:
  "\<exists>w' w''. disableAll toy_os 1 (sample_world Connected empty_buffer 3 []) = Inr w' \<and> kernel_mask toy_ep w' 1 = None \<and>
    disableAll toy_os 1 w' = Inr w'' \<and> kernel_mask toy_ep w'' 1 = Some 0"
proof -
  let ?w = "sample_world Connected empty_buffer 3 []"
  have ready: "channel_ready 1 ?w" "chans ?w 1 = Some (sample_channel 3)" by (simp_all add: channel_ready_def)
  obtain ch p k where u: "chans ?w 1 = Some ch" "change_events toy_os (\<lambda>e. kNoneEvent) 1 ?w = Inr (put_entry 1 (registered (\<lambda>e. kNoneEvent) ch) p k ?w)"
    "registry_wf toy_os toy_ep (put_entry 1 (registered (\<lambda>e. kNoneEvent) ch) p k ?w)"
    using change_events_law [OF sample_registry ready(1), of "\<lambda>e. kNoneEvent"] by auto
  from u(1) have "ch = sample_channel 3" by simp
  then have "index (registered (\<lambda>e. kNoneEvent) ch) = KDeleted" by (simp add: registered_def)
  with disableAll_unregistered_adds [OF sample_registry ready] 
    disableAll_unregistered_adds [OF u(3) put_entry_ready, of "registered (\<lambda>e. kNoneEvent) ch"] u(2)
  show ?thesis by (auto simp: channel_ops_change)
qed

text \<open>
  C27. A refused \<open>epoll_ctl\<close>. For any kernel that honours the contract, with or without resources, a
  change of a channel's events has one of two outcomes: the process ends in LOG_FATAL, and then the
  kernel, as it stands, refused the ADD or the MOD that this call makes, of the channel's descriptor with the new mask in its
  poller's epoll instance, although it was legal; or the call returns with poller, channels and kernel consistent and
  the channel's mask changed. It never returns with the three out of step, and a removal never ends
  the process.
\<close>

theorem update_consistent_or_exits:
  assumes "poller_sync ep w" and "epoll_contract os ep" and "channel_ready c w" and "chans w c = Some ch"
  shows "(\<exists>w'. channel_do os c op w = Inr w' \<and> poller_sync ep w' \<and> channel_mask w' c = op_mask op (events ch)) \<or>
    channel_do os c op w = Inl ExitFailure \<and> op \<noteq> Remove \<and>
      (\<exists>p ctl. pollers w (chLoop ch) = Some p \<and> ctl = (if index ch = KAdded then CtlMod else CtlAdd) \<and>
        ctl_legal ctl (chFd ch) (ep (kern w) (epollfd p)) \<and>
        fst (sys_epoll_ctl os (epollfd p) ctl (chFd ch) (op_mask op (events ch)) c (kern w)) \<noteq> None)"
proof -
  from assms(3,4) obtain p where p: "pollers w (chLoop ch) = Some p" by (auto simp: channel_ready_def)
  show ?thesis
  proof (cases "op = Remove")
    case True
    with removeChannel_ok [OF assms(1,2,3,4) p] show ?thesis by (auto simp: channel_mask_def)
  next
    case False
    then obtain g where g: "as_change op = Some g" "op_mask op = g" by (cases op) auto
    let ?ctl = "update_ctl g ch"
    obtain r k where ctl: "sys_epoll_ctl os (epollfd p) ?ctl (chFd ch) (g (events ch)) c (kern w) = (r, k)"
      by fastforce
    note legal = update_ctl_legal [OF assms(1,4) p assms(3), of g]
    have del: "?ctl = CtlDel \<Longrightarrow> r = None"
      using epoll_contractD(4) [OF assms(2) ctl] legal by simp
    from change_events_cases [OF assms(1,2,3,4) p, of g] show ?thesis
    proof
      assume ex: "change_events os g c w = Inl ExitFailure \<and> \<not> epoll_resources os ep"
      with change_events_unfold [OF assms(1,4) p, of os g] ctl have "r \<noteq> None" by (cases r) auto
      with del have ne: "?ctl \<noteq> CtlDel" by blast
      then have kind: "?ctl = (if index ch = KAdded then CtlMod else CtlAdd)" by (auto simp: update_ctl_def split: if_splits)
      from \<open>r \<noteq> None\<close> legal ctl have "ctl_legal ?ctl (chFd ch) (ep (kern w) (epollfd p)) \<and>
          fst (sys_epoll_ctl os (epollfd p) ?ctl (chFd ch) (op_mask op (events ch)) c (kern w)) \<noteq> None"
        by (auto simp: g)
      with p have "\<exists>p ctl. pollers w (chLoop ch) = Some p \<and> ctl = (if index ch = KAdded then CtlMod else CtlAdd) \<and>
          ctl_legal ctl (chFd ch) (ep (kern w) (epollfd p)) \<and>
          fst (sys_epoll_ctl os (epollfd p) ctl (chFd ch) (op_mask op (events ch)) c (kern w)) \<noteq> None"
        unfolding kind by blast
      with ex g(1) False show ?thesis unfolding channel_do_eq by simp
    qed (auto simp: channel_do_eq g channel_mask_def)
  qed
qed

text \<open>A kernel that is out of resources: it refuses every ADD and MOD.\<close>

definition poor_os :: "toy os" where
  "poor_os = toy_os\<lparr>sys_epoll_ctl := (\<lambda>e op f ev c k. if op = CtlDel then toy_ctl e op f ev c k else (Some 28, k))\<rparr>"

theorem update_consistent_or_exits_witness:
  "(\<exists>w'. channel_do poor_os 1 Remove (sample_world Connected empty_buffer 3 []) = Inr w' \<and> poller_sync toy_ep w') \<and>
   channel_do poor_os 1 EnableWriting (sample_world Connected empty_buffer 3 []) = Inl ExitFailure"
proof -
  let ?w = "sample_world Connected empty_buffer 3 []"
  have h: "poller_sync toy_ep ?w" using sample_registry by (simp add: registry_wf_def)
  have c: "epoll_contract poor_os toy_ep"
    by (auto simp: epoll_contract_def poor_os_def toy_ctl_def ctl_legal_def)
  have ready: "channel_ready 1 ?w" "chans ?w 1 = Some (sample_channel 3)" by (simp_all add: channel_ready_def)
  have "change_events poor_os (op_mask EnableWriting) 1 ?w = Inl ExitFailure"
    by (subst change_events_unfold [OF h ready(2)])
      (simp_all add: update_ctl_def poor_os_def masks_def)
  then show ?thesis
    using update_consistent_or_exits [OF h c ready, of Remove] unfolding channel_do_eq by auto
qed

section \<open>One \<open>epoll_wait\<close>\<close>

lemma fillActive_eq:
  "(\<forall>(ev, c) \<in> set evs. chans w c \<noteq> None) \<Longrightarrow> fillActiveChannels evs active w =
    Inr (active @ map snd evs,
      w\<lparr>chans := (\<lambda>c. case map_of (rev (map prod.swap evs)) c of
                       None \<Rightarrow> chans w c | Some ev \<Rightarrow> map_option (set_revents ev) (chans w c))\<rparr>)"
proof (induction evs arbitrary: active w)
  case (Cons e evs)
  obtain ev c where e: "e = (ev, c)" by fastforce
  from Cons.prems obtain ch where ch: "chans w c = Some ch" by (auto simp: e)
  have rr: "set_revents x (set_revents y ch) = set_revents x ch" for x y by (simp add: set_revents_def)
  have "\<forall>(x, d) \<in> set evs. chans (put_channel c (set_revents ev ch) w) d \<noteq> None"
    using Cons.prems by auto
  then show ?case using Cons.IH [of "put_channel c (set_revents ev ch) w" "active @ [c]"]
    by (auto simp: e ch put_channel_def map_add_def rr fun_eq_iff split: option.splits)
qed simp

text \<open>
  What one poll reports. The active list is extended by the channels of the events, in the kernel's
  order; each of them has its returned events set (by the last event, if there are several) and nothing
  else of it changed; the other channels are untouched. When the events filled the array its
  capacity doubles for the next poll. A wait that fails reports nothing, as a timeout does. The time
  is read after the wait.
\<close>

theorem poll_reports:
  assumes "pollers w l = Some p"
    and "sys_epoll_wait os (epollfd p) (evcap p) timeout (kern w) = (r, k)" and "sys_now os k = (t, k')"
    and "evs = (case r of Inl e \<Rightarrow> [] | Inr evs \<Rightarrow> evs)" and "\<forall>(ev, c) \<in> set evs. chans w c \<noteq> None"
  shows "\<exists>w'. poll os l timeout active w = Inr (t, active @ map snd evs, w') \<and> kern w' = k' \<and>
    (\<forall>c. chans w' c = (case map_of (rev (map prod.swap evs)) c of
        None \<Rightarrow> chans w c | Some ev \<Rightarrow> map_option (set_revents ev) (chans w c))) \<and>
    pollers w' = (pollers w)(l \<mapsto>
      p\<lparr>evcap := if evs \<noteq> [] \<and> length evs = evcap p then 2 * evcap p else evcap p\<rparr>)"
proof (cases "evs = []")
  case True
  with assms show ?thesis
    by (auto simp: poll_def Let_def fun_upd_idem split: sum.splits)
next
  case False
  with assms(4) have r: "r = Inr evs" by (cases r) auto
  have "\<forall>(ev, c) \<in> set evs. chans (w\<lparr>kern := k'\<rparr>) c \<noteq> None" using assms(5) by auto
  from fillActive_eq [OF this, of active] show ?thesis
    using assms(1-3) False
    by (auto simp: poll_def r Let_def put_poller_def mult.commute fun_upd_idem cong: option.case_cong)
qed

theorem poll_reports_witness:
  "\<exists>w'. poll (toy_os\<lparr>sys_epoll_wait := (\<lambda>e n t k. (Inr [(4, 1), (1, 0)], k))\<rparr>) 0 10000 []
      (sample_world Connected empty_buffer 3 []) = Inr (fst (sys_now toy_os (sample_kernel 3 [])), [1, 0], w') \<and>
    map_option revents (chans w' 1) = Some 4 \<and> map_option revents (chans w' 0) = Some 1"
  using poll_reports [of "sample_world Connected empty_buffer 3 []" 0 sample_poller
      "toy_os\<lparr>sys_epoll_wait := (\<lambda>e n t k. (Inr [(4, 1), (1, 0)], k))\<rparr>" 10000 "Inr [(4, 1), (1, 0)]"
      "sample_kernel 3 []" "fst (sys_now toy_os (sample_kernel 3 []))" "snd (sys_now toy_os (sample_kernel 3 []))"
      "[(4, 1), (1, 0)]" "[]"]
  by (auto simp: set_revents_def)

end
