(* ===== verification/LoopInv.thy ===== *)
theory LoopInv
  imports EventLoop
begin

unbundle bit_operations_syntax

text \<open>
  What building an event loop does to the consistency of pollers, channels and kernel.
\<close>

lemma add_poller_sync:
  assumes sync: "poller_sync ep w" and fresh: "chans w c = None" "pollers w l = None"
    "\<And>l' p. pollers w l' = Some p \<Longrightarrow> epollfd p \<noteq> epollfd q"
    and new: "chans w' = (chans w)(c \<mapsto> ch)" "pollers w' = (pollers w)(l \<mapsto> q)"
      "ep (kern w') = (ep (kern w))(epollfd q := (\<lambda>_. None))"
      "index ch = KNew" "channels q = (\<lambda>_. None)"
  shows "poller_sync ep w'"
  unfolding poller_sync_def
proof (intro conjI allI impI)
  fix l' p assume p: "pollers w' l' = Some p"
  show "poller_ok ep (kern w') (chans w') l' p"
  proof (cases "l' = l")
    case True
    with p have "p = q" by (simp add: new)
    then show ?thesis by (simp add: new poller_ok_def expected_interest_def fun_eq_iff)
  next
    case False
    then have p': "pollers w l' = Some p" using p by (simp add: new)
    have ok: "poller_ok ep (kern w) (chans w) l' p" by (rule syncD(1) [OF sync p'])
    have nc: "channels p g \<noteq> Some c" for g
      using ok fresh(1) unfolding poller_ok_def by (metis option.distinct(1))
    then have "expected_interest p ((chans w)(c := x)) = expected_interest p (chans w)" for x
      by (auto simp: fun_eq_iff expected_interest_other)
    with ok fresh(3) [OF p'] show ?thesis
      by (auto simp: poller_ok_def new nc)
  qed
next
  fix d x assume x: "chans w' d = Some x"
  show "channel_ok (pollers w') d x"
  proof (cases "d = c")
    case True
    with x new(1,4) show ?thesis by (simp add: channel_ok_def)
  next
    case False
    with x new(1) syncD(2) [OF sync, of d x] fresh(2) show ?thesis
      by (auto simp: channel_ok_def new(2))
  qed
next
  fix l1 l2 p1 p2
  assume "pollers w' l1 = Some p1" "pollers w' l2 = Some p2" "epollfd p1 = epollfd p2"
  then show "l1 = l2"
    using syncD(3) [OF sync, of l1 p1 l2 p2] fresh(3)
    by (auto simp: new split: if_splits)
qed

lemma new_event_loop_ok:
  assumes "registry_wf os ep w" and "chans w c = None" and "pollers w l = None"
    and "loopInThisThread w (curThread w) = None"
    and "sys_epoll_create os (kern w) = (Inr e, k1)" and "sys_eventfd os k1 = (Inr f, k2)"
    and "ep k2 = (ep (kern w))(e := (\<lambda>_. None))"
    and "\<And>l' p. pollers w l' = Some p \<Longrightarrow> epollfd p \<noteq> e"
  shows "\<exists>w' lp. new_event_loop os l c w = Inr w' \<and> registry_wf os ep w' \<and>
    loops w' = (loops w)(l \<mapsto> lp) \<and> isInLoopThread lp w' \<and> \<not> looping lp \<and> pendingFunctors lp = [] \<and>
    wakeupFd lp = f \<and> kernel_mask ep w' (wakeupChannel lp) = Some 3 \<and>
    loopInThisThread w' = loopInThisThread w"
proof -
  let ?p = "\<lparr>ownerLoop = l, epollfd = e, evcap = kInitEventListSize, channels = (\<lambda>_. None)\<rparr>"
  let ?lp = "\<lparr>looping = False, quitFlag = False, threadId = curThread w, pollReturnTime = 0, wakeupFd = f,
     wakeupChannel = c, activeChannels = [], callingPendingFunctors = False, pendingFunctors = []\<rparr>"
  let ?ch = "setReadCallback (LoopHandleRead l) (new_channel l f)"
  let ?w0 = "(put_channel c (new_channel l f) (put_poller l ?p w))\<lparr>kern := k2\<rparr>"
  let ?w = "put_channel c ?ch (put_loop l ?lp ?w0)"
  have fd: "chLoop ?ch = l" "chFd ?ch = f" "events ?ch = 0" "index ?ch = KNew"
    by (simp_all add: setReadCallback_def new_channel_def KNew_def)
  have "poller_sync ep ?w"
    by (rule add_poller_sync [of ep w c l ?p ?w ?ch])
      (use assms(1-3,7,8) in \<open>auto simp: registry_wf_def fd put_loop_def put_channel_def put_poller_def\<close>)
  with assms(1) have wf: "registry_wf os ep ?w" by (simp add: registry_wf_def)
  have ready: "channel_ready c ?w"
    by (simp add: channel_ready_def fd put_loop_def put_channel_def put_poller_def)
  have c: "chans ?w c = Some ?ch" by simp
  from change_events_law [OF wf ready, of "\<lambda>e. e OR kReadEvent"] c obtain p k where
    h: "enableReading os c ?w = Inr (put_entry c (registered (\<lambda>e. e OR kReadEvent) ?ch) p k ?w)"
      "registry_wf os ep (put_entry c (registered (\<lambda>e. e OR kReadEvent) ?ch) p k ?w)" (is "registry_wf os ep ?w'")
    by (auto simp: channel_ops_change)
  have "kernel_mask ep ?w' c = (if index (registered (\<lambda>e. e OR kReadEvent) ?ch) = KAdded
      then Some (events (registered (\<lambda>e. e OR kReadEvent) ?ch)) else None)"
    by (rule kernel_mask_eq) (use h(2) in \<open>simp_all add: registry_wf_def\<close>)
  then have "kernel_mask ep ?w' c = Some 3"
    by (simp add: registered_def fd kReadEvent_def EPOLLIN_def EPOLLPRI_def)
  moreover have "new_event_loop os l c w = Inr ?w'"
    using assms(4-6) h(1)
    by (simp add: new_event_loop_def newDefaultPoller_def new_poller_def createEventfd_def Let_def
        put_loop_def put_channel_def put_poller_def)
  ultimately show ?thesis
    using h(2) by (intro exI [of _ ?w'] exI [of _ ?lp]) (simp add: isInLoopThread_def put_loop_def put_channel_def put_poller_def)
qed

end
