(* ===== verification/LoopProps.thy ===== *)
theory LoopProps
  imports Samples LoopInv
begin

unbundle bit_operations_syntax

text \<open>
  The properties of an event loop as its own thread runs it: its construction, the batch of queued
  functors, and the end of the loop.
\<close>

section \<open>The batch of queued functors\<close>

text \<open>
  What a functor does as the loop sees it: it leaves a mark in the trace and then queues, with the
  code's \<open>queueInLoop\<close>, the functors \<open>spawn f\<close>.
\<close>

definition scripted :: "'k os \<Rightarrow> lid \<Rightarrow> (functor_cb \<Rightarrow> functor_cb list) \<Rightarrow> (functor_cb \<Rightarrow> 'k \<Rightarrow> 'k) \<Rightarrow>
    functor_cb \<Rightarrow> ('k, 'z) loop_world_scheme \<Rightarrow> ('k, 'z) loop_world_scheme result" where
  "scripted os l spawn mark f w = each (queueInLoop os l) (spawn f) (w\<lparr>kern := mark f (kern w)\<rparr>)"

text \<open>The kernel's view of the eventfd: once written, it is readable until it is read.\<close>

definition eventfd_contract :: "'k os \<Rightarrow> ('k \<Rightarrow> fd \<Rightarrow> bool) \<Rightarrow> bool" where
  "eventfd_contract os signalled \<longleftrightarrow>
     (\<forall>f k. signalled (sys_eventfd_write os f k) f) \<and>
     (\<forall>f g k. signalled k g \<longrightarrow> signalled (sys_eventfd_write os f k) g)"

lemma queue_each:
  assumes "loops w l = Some lp" "callingPendingFunctors lp"
    and "\<And>f k. trace (sys_eventfd_write os f k) = trace k" and "eventfd_contract os signalled"
  shows "returns (each (queueInLoop os l) fs w) (\<lambda>w'.
    loops w' = (loops w)(l \<mapsto> lp\<lparr>pendingFunctors := pendingFunctors lp @ fs\<rparr>) \<and>
    trace (kern w') = trace (kern w) \<and>
    ((fs \<noteq> [] \<or> signalled (kern w) (wakeupFd lp)) \<longrightarrow> signalled (kern w') (wakeupFd lp)))"
  using assms(1,2)
proof (induction fs arbitrary: w lp)
  case Nil
  then show ?case by (simp add: fun_upd_idem)
next
  case (Cons f fs)
  let ?w = "(put_loop l (lp\<lparr>pendingFunctors := pendingFunctors lp @ [f]\<rparr>) w)
      \<lparr>kern := sys_eventfd_write os (wakeupFd lp) (kern w)\<rparr>"
  have step: "queueInLoop os l f w = Inr ?w"
    using queueInLoop_eq [OF Cons.prems(1)] Cons.prems(2) by simp
  have "loops ?w l = Some (lp\<lparr>pendingFunctors := pendingFunctors lp @ [f]\<rparr>)"
    "callingPendingFunctors (lp\<lparr>pendingFunctors := pendingFunctors lp @ [f]\<rparr>)"
    using Cons.prems(2) by (simp_all add: put_loop_def)
  from Cons.IH [OF this] assms(4) show ?case
    by (auto simp: step put_loop_def assms(3) eventfd_contract_def elim!: returns_mono)
qed

lemma batch_each:
  assumes "loops w l = Some lp" "callingPendingFunctors lp"
    and "\<And>f k. trace (sys_eventfd_write os f k) = trace k" and "\<And>f k. trace (mark f k) = trace k @ [f]"
    and "eventfd_contract os signalled" and "\<And>f k g. signalled k g \<Longrightarrow> signalled (mark f k) g"
  shows "returns (each (scripted os l spawn mark) fs w) (\<lambda>w'.
    loops w' = (loops w)(l \<mapsto> lp\<lparr>pendingFunctors := pendingFunctors lp @ concat (map spawn fs)\<rparr>) \<and>
    trace (kern w') = trace (kern w) @ fs \<and>
    ((concat (map spawn fs) \<noteq> [] \<or> signalled (kern w) (wakeupFd lp)) \<longrightarrow> signalled (kern w') (wakeupFd lp)))"
  using assms(1,2)
proof (induction fs arbitrary: w lp)
  case Nil
  then show ?case by (simp add: fun_upd_idem)
next
  case (Cons f fs)
  let ?w = "w\<lparr>kern := mark f (kern w)\<rparr>" and ?lp = "lp\<lparr>pendingFunctors := pendingFunctors lp @ spawn f\<rparr>"
  have "loops ?w l = Some lp" using Cons.prems by simp
  from queue_each [OF this Cons.prems(2) assms(3,5), of "spawn f"] obtain v where
    v: "scripted os l spawn mark f w = Inr v" "loops v = (loops w)(l \<mapsto> ?lp)"
      "trace (kern v) = trace (kern w) @ [f]"
      "spawn f \<noteq> [] \<or> signalled (kern w) (wakeupFd lp) \<longrightarrow> signalled (kern v) (wakeupFd lp)"
    by (auto simp: returns_iff scripted_def assms(4) intro: assms(6))
  have "loops v l = Some ?lp" "callingPendingFunctors ?lp" using v Cons.prems(2) by simp_all
  from Cons.IH [OF this] show ?case
    using v by (auto simp: elim!: returns_mono)
qed

text \<open>
  C19. One batch of the queue. \<open>doPendingFunctors\<close> runs the functors that were queued when it
  started, each once, in the order they were queued. Functors that these queue themselves are not run in the
  same batch: they stand in the queue afterwards, in order, and if there are any the loop's eventfd
  has been written, so that the next poll returns at once. \<open>callingPendingFunctors_\<close> is cleared.
\<close>

theorem doPendingFunctors_batch:
  assumes "loops w l = Some lp" and "eventfd_contract os signalled"
    and "\<And>f k. trace (sys_eventfd_write os f k) = trace k" and "\<And>f k. trace (mark f k) = trace k @ [f]"
    and "\<And>f k g. signalled k g \<Longrightarrow> signalled (mark f k) g"
  shows "\<exists>w'. doPendingFunctors (scripted os l spawn mark) l w = Inr w' \<and>
    trace (kern w') = trace (kern w) @ pendingFunctors lp \<and>
    loops w' l = Some (lp\<lparr>pendingFunctors := concat (map spawn (pendingFunctors lp)), callingPendingFunctors := False\<rparr>) \<and>
    (concat (map spawn (pendingFunctors lp)) \<noteq> [] \<longrightarrow> signalled (kern w') (wakeupFd lp))"
proof -
  let ?lp = "lp\<lparr>callingPendingFunctors := True, pendingFunctors := []\<rparr>"
  let ?w = "put_loop l ?lp w"
  have w: "loops ?w l = Some ?lp" "callingPendingFunctors ?lp" by simp_all
  from batch_each [OF w assms(3,4,2,5), of spawn "pendingFunctors lp"] obtain v where
    v: "each (scripted os l spawn mark) (pendingFunctors lp) ?w = Inr v"
      "loops v = (loops ?w)(l \<mapsto> ?lp\<lparr>pendingFunctors := pendingFunctors ?lp @ concat (map spawn (pendingFunctors lp))\<rparr>)"
      "trace (kern v) = trace (kern ?w) @ pendingFunctors lp"
      "concat (map spawn (pendingFunctors lp)) \<noteq> [] \<longrightarrow> signalled (kern v) (wakeupFd lp)"
    by (auto simp: returns_iff)
  have "put_loop l ?lp (put_loop l (lp\<lparr>callingPendingFunctors := True\<rparr>) w) = ?w"
    by (simp add: put_loop_def)
  with v assms(1) show ?thesis by (simp add: doPendingFunctors_def Let_def)
qed

theorem doPendingFunctors_batch_witness:
  "\<exists>w'. doPendingFunctors (scripted (logged_os toy_os) 0 (\<lambda>f. if f = UserFunctor 1 then [UserFunctor 2] else [])
        (\<lambda>f k. (fst k, snd k @ [f]))) 0
      \<lparr>kern = (toy0, []), chans = (\<lambda>_. None), pollers = (\<lambda>_. None),
       loops = (\<lambda>_. None)(0 := Some (sample_loop\<lparr>pendingFunctors := [UserFunctor 0, UserFunctor 1]\<rparr>)),
       curThread = 1, loopInThisThread = (\<lambda>_. None)\<rparr> = Inr w' \<and>
    snd (kern w') = [UserFunctor 0, UserFunctor 1] \<and>
    loops w' 0 = Some (sample_loop\<lparr>pendingFunctors := [UserFunctor 2]\<rparr>) \<and>
    4 \<in> set (toy_wakeups (fst (kern w')))"
proof -
  let ?lp = "sample_loop\<lparr>pendingFunctors := [UserFunctor 0, UserFunctor 1]\<rparr>"
  let ?w = "\<lparr>kern = (toy0, []), chans = (\<lambda>_. None), pollers = (\<lambda>_. None),
       loops = (\<lambda>_. None)(0 := Some ?lp), curThread = 1, loopInThisThread = (\<lambda>_. None)\<rparr>"
  have "loops ?w 0 = Some ?lp" by simp
  moreover have "eventfd_contract (logged_os toy_os) (\<lambda>k f. f \<in> set (toy_wakeups (fst k)))"
    by (simp add: eventfd_contract_def logged_os_def on_fst_unit_def toy_os_def)
  ultimately show ?thesis
    using doPendingFunctors_batch [of ?w 0 ?lp "logged_os toy_os" "\<lambda>k f. f \<in> set (toy_wakeups (fst k))" snd
        "\<lambda>f k. (fst k, snd k @ [f])" "\<lambda>f. if f = UserFunctor 1 then [UserFunctor 2] else []"]
    by (simp add: logged_os_def on_fst_unit_def) (simp add: sample_loop_def)
qed

section \<open>The end of the loop\<close>

text \<open>\<open>n\<close> turns of the loop, none of them ended by the quit flag before the last.\<close>

fun turns :: "(('k, 'z) loop_world_scheme \<Rightarrow> ('k, 'z) loop_world_scheme result) \<Rightarrow> lid \<Rightarrow> nat \<Rightarrow>
    ('k, 'z) loop_world_scheme \<Rightarrow> ('k, 'z) loop_world_scheme result" where
  "turns body l 0 w = Inr w"
| "turns body l (Suc n) w =
     (if \<exists>lp. loops w l = Some lp \<and> \<not> quitFlag lp then andThen (body w) (turns body l n) else Inl Undefined)"

lemma loop_while_turns:
  assumes "turns (loop_iteration os alive run_cb run_f l) l n w = Inr w'"
    and "loops w' l = Some lp" "quitFlag lp"
  shows "loop_while os alive run_cb run_f l w = Some (Inr w')"
  using assms(1)
proof (induction n arbitrary: w)
  case 0
  then have "w = w'" by simp
  with assms(2,3) show ?case by (subst loop_while.simps) simp
next
  case (Suc n)
  then obtain lp' where lp': "loops w l = Some lp'" "\<not> quitFlag lp'"
    by (auto split: if_splits)
  with Suc.prems obtain v where v: "loop_iteration os alive run_cb run_f l w = Inr v"
    "turns (loop_iteration os alive run_cb run_f l) l n v = Inr w'"
    by (auto simp: andThen_Inr_iff)
  from Suc.IH [OF v(2)] lp' v(1) show ?case
    by (simp add: loop_while.simps [of os alive run_cb run_f l w])
qed

lemma loop_while_Inr:
  assumes "loop_while os alive run_cb run_f l w = Some (Inr w')"
  shows "\<exists>n lp. turns (loop_iteration os alive run_cb run_f l) l n w = Inr w' \<and> loops w' l = Some lp \<and> quitFlag lp"
proof -
  have "\<forall>w'. r = Inr w' \<longrightarrow> (\<exists>n lp. turns (loop_iteration os alive run_cb run_f l) l n w = Inr w' \<and>
      loops w' l = Some lp \<and> quitFlag lp)" if "loop_while os alive run_cb run_f l w = Some r" for r
  proof (rule loop_while.raw_induct [OF _ that], intro allI impI)
    fix lw os alive run_cb run_f l r and w w' :: "('a, 'b) loop_world_scheme"
    assume IH: "\<And>os alive run_cb run_f l w r. lw os alive run_cb run_f l w = Some r \<Longrightarrow>
        \<forall>w'. r = Inr w' \<longrightarrow> (\<exists>n lp. turns (loop_iteration os alive run_cb run_f l) l n w = Inr w' \<and>
          loops w' l = Some lp \<and> quitFlag lp)"
      and r: "(case loops w l of None \<Rightarrow> Some (Inl Undefined) | Some lp \<Rightarrow> if quitFlag lp then Some (Inr w)
        else (case loop_iteration os alive run_cb run_f l w of Inl e \<Rightarrow> Some (Inl e)
          | Inr v \<Rightarrow> lw os alive run_cb run_f l v)) = Some r" and "r = Inr w'"
    from r \<open>r = Inr w'\<close> obtain lp where lp: "loops w l = Some lp" by (auto split: option.splits)
    show "\<exists>n lp. turns (loop_iteration os alive run_cb run_f l) l n w = Inr w' \<and> loops w' l = Some lp \<and> quitFlag lp"
    proof (cases "quitFlag lp")
      case True
      with r lp \<open>r = Inr w'\<close> show ?thesis by (intro exI [of _ 0]) auto
    next
      case False
      with r lp \<open>r = Inr w'\<close> obtain v where v: "loop_iteration os alive run_cb run_f l w = Inr v"
        "lw os alive run_cb run_f l v = Some r"
        by (auto split: sum.splits)
      from IH [OF v(2)] \<open>r = Inr w'\<close> obtain n lp' where
        "turns (loop_iteration os alive run_cb run_f l) l n v = Inr w'" "loops w' l = Some lp'" "quitFlag lp'" by blast
      with lp False v(1) show ?thesis by (intro exI [of _ "Suc n"]) simp
    qed
  qed
  with assms show ?thesis by blast
qed

text \<open>The turns that can be taken from \<open>w\<close> without the flag being set.\<close>

definition goes_on :: "(('k, 'z) loop_world_scheme \<Rightarrow> ('k, 'z) loop_world_scheme result) \<Rightarrow> lid \<Rightarrow> nat \<Rightarrow>
    ('k, 'z) loop_world_scheme \<Rightarrow> bool" where
  "goes_on body l n w \<longleftrightarrow> (case turns body l n w of Inl e \<Rightarrow> False
     | Inr w' \<Rightarrow> (case loops w' l of None \<Rightarrow> False | Some lp \<Rightarrow> \<not> quitFlag lp))"

lemma goes_on_0: "goes_on body l 0 w \<longleftrightarrow> (\<exists>lp. loops w l = Some lp \<and> \<not> quitFlag lp)"
  by (auto simp: goes_on_def split: option.splits)

lemma goes_on_Suc:
  "goes_on body l (Suc n) w \<longleftrightarrow> goes_on body l 0 w \<and> (\<exists>v. body w = Inr v \<and> goes_on body l n v)"
  unfolding goes_on_0 by (cases "body w") (auto simp: goes_on_def)

lemma loop_while_stops:
  assumes "loop_while os alive run_cb run_f l w = Some r"
  shows "\<exists>n. \<not> goes_on (loop_iteration os alive run_cb run_f l) l n w"
proof (rule loop_while.raw_induct [OF _ assms])
  fix lw os alive run_cb run_f l r and w :: "('a, 'b) loop_world_scheme"
  assume IH: "\<And>os alive run_cb run_f l w r. lw os alive run_cb run_f l w = Some r \<Longrightarrow>
      \<exists>n. \<not> goes_on (loop_iteration os alive run_cb run_f l) l n w"
    and r: "(case loops w l of None \<Rightarrow> Some (Inl Undefined) | Some lp \<Rightarrow> if quitFlag lp then Some (Inr w)
      else (case loop_iteration os alive run_cb run_f l w of Inl e \<Rightarrow> Some (Inl e)
        | Inr v \<Rightarrow> lw os alive run_cb run_f l v)) = Some r"
  show "\<exists>n. \<not> goes_on (loop_iteration os alive run_cb run_f l) l n w"
  proof (cases "goes_on (loop_iteration os alive run_cb run_f l) l 0 w")
    case True
    then obtain lp where lp: "loops w l = Some lp" "\<not> quitFlag lp" by (auto simp: goes_on_0)
    show ?thesis
    proof (cases "loop_iteration os alive run_cb run_f l w")
      case (Inl e)
      then show ?thesis by (intro exI [of _ "Suc 0"]) (simp add: goes_on_Suc)
    next
      case (Inr v)
      with r lp have "lw os alive run_cb run_f l v = Some r" by simp
      from IH [OF this] obtain n where "\<not> goes_on (loop_iteration os alive run_cb run_f l) l n v" by blast
      with Inr show ?thesis by (intro exI [of _ "Suc n"]) (simp add: goes_on_Suc)
    qed
  qed blast
qed

lemma loop_while_None:
  "loop_while os alive run_cb run_f l w = None \<Longrightarrow> goes_on (loop_iteration os alive run_cb run_f l) l n w"
proof (induction n arbitrary: w)
  case 0
  then show ?case
    by (subst (asm) loop_while.simps) (auto simp: goes_on_0 split: option.splits if_splits)
next
  case (Suc n)
  from Suc.prems have "goes_on (loop_iteration os alive run_cb run_f l) l 0 w \<and>
      (\<exists>v. loop_iteration os alive run_cb run_f l w = Inr v \<and> loop_while os alive run_cb run_f l v = None)"
    by (subst (asm) loop_while.simps) (auto simp: goes_on_0 split: option.splits if_splits sum.splits)
  with Suc.IH show ?case unfolding goes_on_Suc [of _ _ n] by blast
qed

text \<open>
  When \<open>loop()\<close> returns, and when it does not. It returns normally exactly if some number of turns all return
  and leave the quit flag set, and then in the state after the first such number of turns, with \<open>looping_\<close> cleared:
  the turn in which the flag is set is finished, its queued functors included, and no further turn begins. It
  runs for ever exactly if every number of turns returns and leaves the flag clear.
\<close>

theorem loop_is_turns:
  assumes "loops w l = Some lp0"
  shows "(loop os alive run_cb run_f l w = Some (Inr v) \<longleftrightarrow>
      (\<exists>n w' lp. turns (loop_iteration os alive run_cb run_f l) l n (put_loop l (lp0\<lparr>looping := True, quitFlag := False\<rparr>) w) = Inr w' \<and>
        loops w' l = Some lp \<and> quitFlag lp \<and> v = put_loop l (lp\<lparr>looping := False\<rparr>) w')) \<and>
    (loop os alive run_cb run_f l w = None \<longleftrightarrow>
      (\<forall>n. goes_on (loop_iteration os alive run_cb run_f l) l n (put_loop l (lp0\<lparr>looping := True, quitFlag := False\<rparr>) w)))"
  (is "(?ret \<longleftrightarrow> ?turns) \<and> (?none \<longleftrightarrow> ?on)")
proof (intro conjI iffI)
  let ?w = "put_loop l (lp0\<lparr>looping := True, quitFlag := False\<rparr>) w"
  have eq: "loop os alive run_cb run_f l w =
      map_option (\<lambda>r. andThen r (modify_loop l (\<lambda>lp. lp\<lparr>looping := False\<rparr>))) (loop_while os alive run_cb run_f l ?w)"
    using assms by (simp add: loop_def)
  show ?turns if ?ret
  proof -
    from that obtain w' where w': "loop_while os alive run_cb run_f l ?w = Some (Inr w')"
      "modify_loop l (\<lambda>lp. lp\<lparr>looping := False\<rparr>) w' = Inr v"
      by (auto simp: eq andThen_Inr_iff)
    from loop_while_Inr [OF w'(1)] obtain n lp where
      "turns (loop_iteration os alive run_cb run_f l) l n ?w = Inr w'" "loops w' l = Some lp" "quitFlag lp" by blast
    moreover from this(2) w'(2) have "v = put_loop l (lp\<lparr>looping := False\<rparr>) w'" by simp
    ultimately show ?thesis by blast
  qed
  show ?ret if ?turns
    using that by (auto simp: eq dest!: loop_while_turns)
  show ?on if ?none
  proof
    from that have "loop_while os alive run_cb run_f l ?w = None" by (simp add: eq)
    then show "goes_on (loop_iteration os alive run_cb run_f l) l n ?w" for n by (rule loop_while_None)
  qed
  show ?none if ?on
  proof (cases "loop_while os alive run_cb run_f l ?w")
    case (Some r)
    from loop_while_stops [OF this] that show ?thesis by blast
  qed (simp add: eq)
qed

text \<open>A loop that nobody tells to quit, and no event or functor disturbs, never returns.\<close>

theorem loop_is_turns_witness:
  "loop toy_os (\<lambda>_ _. True) (\<lambda>cb t w. Inr w) (\<lambda>f. Inr) 0 (sample_world Connected empty_buffer 3 []) = None"
proof -
  let ?it = "loop_iteration toy_os (\<lambda>_ _. True) (\<lambda>cb t w. Inr w) (\<lambda>f. Inr) 0"
  let ?w = "sample_world Connected empty_buffer 3 []"
  have p: "poll toy_os 0 kPollTimeMs [] ?w = Inr (0, [], ?w)" by (simp add: poll_def toy_os_def)
  have s: "put_loop 0 (sample_loop\<lparr>looping := True, quitFlag := False\<rparr>) ?w = ?w"
    "put_loop 0 (sample_loop\<lparr>activeChannels := [], pollReturnTime := 0\<rparr>) ?w = ?w"
    by (simp_all add: put_loop_def sample_loop_def sample_world_def)
  have it: "?it ?w = Inr ?w"
    by (simp add: loop_iteration_def p s doPendingFunctors_def put_loop_def Let_def)
      (simp add: sample_loop_def sample_world_def)
  have "goes_on ?it 0 n ?w" for n
    by (induction n) (auto simp: goes_on_Suc goes_on_0 it, simp_all add: sample_loop_def)
  with loop_is_turns [of ?w 0 sample_loop toy_os "\<lambda>_ _. True" "\<lambda>cb t w. Inr w" "\<lambda>f. Inr"] s show ?thesis by simp
qed

text \<open>
  The loop ends when it is told to. If some number of turns all return and the last of them leaves
  the quit flag set (a callback or a functor called \<open>quit\<close>, or another thread did), \<open>loop()\<close> returns,
  in the state after these turns with \<open>looping_\<close> cleared: the turn in which the flag is set is
  finished, its queued functors included, and no further turn begins.
\<close>

theorem loop_returns_after_quit:
  assumes "loops w l = Some lp0"
    and "turns (loop_iteration os alive run_cb run_f l) l n (put_loop l (lp0\<lparr>looping := True, quitFlag := False\<rparr>) w) = Inr w'"
    and "loops w' l = Some lp" and "quitFlag lp"
  shows "loop os alive run_cb run_f l w = Some (Inr (put_loop l (lp\<lparr>looping := False\<rparr>) w'))"
  using loop_while_turns [OF assms(2-4)] assms(1,3) by (simp add: loop_def)

theorem loop_returns_after_quit_witness:
  "loop toy_os (\<lambda>_ _. True) (\<lambda>cb t w. Inr w) (\<lambda>f. quit toy_os 0) 0
      ((sample_world Connected empty_buffer 3 [])\<lparr>loops := (\<lambda>_. None)(0 := Some (sample_loop\<lparr>pendingFunctors := [UserFunctor 0]\<rparr>))\<rparr>) =
    Some (Inr ((sample_world Connected empty_buffer 3 [])\<lparr>loops := (\<lambda>_. None)(0 := Some (sample_loop\<lparr>looping := False, quitFlag := True\<rparr>))\<rparr>))"
proof -
  let ?lp = "sample_loop\<lparr>pendingFunctors := [UserFunctor 0]\<rparr>"
  let ?w = "(sample_world Connected empty_buffer 3 [])\<lparr>loops := (\<lambda>_. None)(0 := Some ?lp)\<rparr>"
  let ?w' = "?w\<lparr>loops := (\<lambda>_. None)(0 := Some (sample_loop\<lparr>quitFlag := True\<rparr>))\<rparr>"
  have p: "poll toy_os 0 kPollTimeMs [] w = Inr (0, [], w)" if "pollers w 0 = Some sample_poller" for w :: "toy conn_world"
    using that by (simp add: poll_def toy_os_def)
  have s: "sample_loop\<lparr>looping := True\<rparr> = sample_loop" "sample_loop\<lparr>quitFlag := False\<rparr> = sample_loop"
    "sample_loop\<lparr>activeChannels := [], pollReturnTime := 0\<rparr> = sample_loop"
    by (simp_all add: sample_loop_def)
  have "turns (loop_iteration toy_os (\<lambda>_ _. True) (\<lambda>cb t w. Inr w) (\<lambda>f. quit toy_os 0) 0) 0 1
      (put_loop 0 (?lp\<lparr>looping := True, quitFlag := False\<rparr>) ?w) = Inr ?w'"
    by (simp add: loop_iteration_def p doPendingFunctors_def put_loop_def quit_def isInLoopThread_def Let_def)
      (simp add: sample_loop_def)
  from loop_returns_after_quit [OF _ this] show ?thesis
    by (simp add: put_loop_def sample_loop_def)
qed

text \<open>
  A \<open>quit\<close> before \<open>loop()\<close> is lost: \<open>loop()\<close> begins by clearing the flag, so in the loop's own thread
  the calls \<open>quit(); loop()\<close> do exactly what \<open>loop()\<close> does.
\<close>

theorem quit_before_loop_lost:
  assumes "loops w l = Some lp" and "isInLoopThread lp w"
  shows "\<exists>w'. quit os l w = Inr w' \<and>
    loop os alive run_cb run_f l w' = loop os alive run_cb run_f l w"
  using assms by (auto simp: quit_def loop_def put_loop_def isInLoopThread_def)

theorem quit_before_loop_lost_witness:
  "\<exists>w'. quit toy_os 0 (sample_world Connected empty_buffer 3 []) = Inr w' \<and>
    map_option quitFlag (loops w' 0) = Some True \<and>
    loop toy_os (\<lambda>_ _. True) (\<lambda>cb t w. Inr w) (\<lambda>f w. Inr w) 0 w' =
    loop toy_os (\<lambda>_ _. True) (\<lambda>cb t w. Inr w) (\<lambda>f w. Inr w) 0 (sample_world Connected empty_buffer 3 [])"
  using quit_before_loop_lost [of "sample_world Connected empty_buffer 3 []" 0 sample_loop toy_os
      "\<lambda>_ _. True" "\<lambda>cb t w. Inr w" "\<lambda>f w. Inr w"]
  by (simp add: isInLoopThread_def) (simp add: quit_def isInLoopThread_def)

section \<open>Construction\<close>

text \<open>
  A new event loop. With the system calls successful and the objects new, the constructor ends in a
  consistent state: the loop belongs to the calling thread, is not looping and has an empty queue, and
  the kernel monitors its eventfd for reading with the wakeup channel as user data. The record of
  which loop runs in which thread is the old one: the constructor never writes it, so the check
  against a second loop in one thread can never fire.
\<close>

theorem new_event_loop_ready:
  assumes "registry_wf os ep w" and "chans w c = None" and "pollers w l = None"
    and "loopInThisThread w (curThread w) = None"
    and "sys_epoll_create os (kern w) = (Inr e, k1)" and "sys_eventfd os k1 = (Inr f, k2)"
    and "ep k2 = (ep (kern w))(e := (\<lambda>_. None))"
    and "\<And>l' p. pollers w l' = Some p \<Longrightarrow> epollfd p \<noteq> e"
  shows "\<exists>w' lp. new_event_loop os l c w = Inr w' \<and> registry_wf os ep w' \<and>
    loops w' = (loops w)(l \<mapsto> lp) \<and> isInLoopThread lp w' \<and> \<not> looping lp \<and> pendingFunctors lp = [] \<and>
    wakeupFd lp = f \<and> kernel_mask ep w' (wakeupChannel lp) = Some 3 \<and>
    loopInThisThread w' = loopInThisThread w"
  by (rule new_event_loop_ok [OF assms(1-8)])

text \<open>A kernel state with no epoll instance and a world with no objects, in thread 1.\<close>

definition blank_world :: "toy loop_world" where
  "blank_world = \<lparr>kern = toy0\<lparr>toy_ep := (\<lambda>_ _. None)\<rparr>, chans = (\<lambda>_. None), pollers = (\<lambda>_. None),
     loops = (\<lambda>_. None), curThread = 1, loopInThisThread = (\<lambda>_. None)\<rparr>"

theorem new_event_loop_ready_witness:
  "\<exists>w' lp. new_event_loop toy_os 0 0 blank_world = Inr w' \<and> loops w' 0 = Some lp \<and> isInLoopThread lp w' \<and>
    kernel_mask toy_ep w' (wakeupChannel lp) = Some 3 \<and> loopInThisThread w' 1 = None"
proof -
  have "registry_wf toy_os toy_ep blank_world"
    by (simp add: registry_wf_def poller_sync_def blank_world_def)
  from new_event_loop_ready [OF this, of 0 0 3 "kern blank_world" 4 "kern blank_world"]
  have "\<exists>w' lp. new_event_loop toy_os 0 0 blank_world = Inr w' \<and> registry_wf toy_os toy_ep w' \<and>
    loops w' = (loops blank_world)(0 \<mapsto> lp) \<and> isInLoopThread lp w' \<and> \<not> looping lp \<and> pendingFunctors lp = [] \<and>
    wakeupFd lp = 4 \<and> kernel_mask toy_ep w' (wakeupChannel lp) = Some 3 \<and>
    loopInThisThread w' = loopInThisThread blank_world"
    by (simp add: blank_world_def toy_os_def toy0_def fun_upd_idem)
  then show ?thesis by (auto simp: blank_world_def)
qed

end
