(* ===== verification/LoopThreads.thy ===== *)
theory LoopThreads
  imports EventLoop
begin

text \<open>
  The event loop shared by threads. \<open>EventLoop\<close> models what one thread does in a call; here the calls
  are cut at every access to what the threads share (the queue under its mutex, the atomic flags, the
  eventfd), and the steps of the loop's thread and of any number of other threads interleave. The
  other threads call \<open>queueInLoop\<close> and \<open>quit\<close>. The mutex makes an append and the swap single steps.

  \<open>posted\<close> and \<open>ran\<close> are not fields of the code: they record which functors were queued and which
  were run, in order.
\<close>

text \<open>Where the loop's thread stands in \<open>loop()\<close>.\<close>

datatype loop_pc =
    NotStarted                      \<comment> \<open>before \<open>loop()\<close>\<close>
  | AtTest                          \<comment> \<open>at \<open>while (!quit_)\<close>\<close>
  | InPoll                          \<comment> \<open>in \<open>epoll_wait\<close>\<close>
  | Handling bool                   \<comment> \<open>in the \<open>for\<close> over the active channels; is the wakeup channel still to come?\<close>
  | Swapping                        \<comment> \<open>in \<open>doPendingFunctors\<close>, \<open>callingPendingFunctors_\<close> is set\<close>
  | Running "functor_cb list"       \<comment> \<open>the functors left of this batch\<close>
  | WakingSelf "functor_cb list"    \<comment> \<open>in \<open>queueInLoop\<close> called by a functor, after the append\<close>
  | Returned

text \<open>Where another thread stands in \<open>queueInLoop\<close> or \<open>quit\<close>: after the first effect, before \<open>wakeup()\<close>.\<close>

datatype caller_pc = Outside | Appended | FlagSet

record shared_loop =
  pc :: loop_pc
  queue :: "functor_cb list"
  counter :: nat \<comment> \<open>the eventfd\<close>
  quitting :: bool
  caller :: "tid \<Rightarrow> caller_pc"
  posted :: "functor_cb list"
  ran :: "functor_cb list"

definition fresh_loop :: "functor_cb list \<Rightarrow> nat \<Rightarrow> shared_loop" where
  "fresh_loop q n = \<lparr>pc = NotStarted, queue = q, counter = n, quitting = False, caller = (\<lambda>_. Outside),
     posted = q, ran = []\<rparr>"

inductive loop_step :: "shared_loop \<Rightarrow> shared_loop \<Rightarrow> bool" where
  start: "pc s = NotStarted \<Longrightarrow> loop_step s (s\<lparr>pc := AtTest, quitting := False\<rparr>)"
| test_quit: "pc s = AtTest \<Longrightarrow> quitting s \<Longrightarrow> loop_step s (s\<lparr>pc := Returned\<rparr>)"
| test_go: "pc s = AtTest \<Longrightarrow> \<not> quitting s \<Longrightarrow> loop_step s (s\<lparr>pc := InPoll\<rparr>)"
| poll_woken: "pc s = InPoll \<Longrightarrow> counter s > 0 \<Longrightarrow> loop_step s (s\<lparr>pc := Handling True\<rparr>)"
| poll_other: "pc s = InPoll \<Longrightarrow> loop_step s (s\<lparr>pc := Handling False\<rparr>)" \<comment> \<open>a timeout, or only other channels\<close>
| handle_wakeup: "pc s = Handling True \<Longrightarrow> loop_step s (s\<lparr>pc := Handling False, counter := 0\<rparr>)"
| handler_queues: "pc s = Handling b \<Longrightarrow>
    loop_step s (s\<lparr>queue := queue s @ [f], posted := posted s @ [f]\<rparr>)"
| handler_quits: "pc s = Handling b \<Longrightarrow> loop_step s (s\<lparr>quitting := True\<rparr>)"
| handled: "pc s = Handling False \<Longrightarrow> loop_step s (s\<lparr>pc := Swapping\<rparr>)"
| swap: "pc s = Swapping \<Longrightarrow> loop_step s (s\<lparr>pc := Running (queue s), queue := []\<rparr>)"
| run_functor: "pc s = Running (f # fs) \<Longrightarrow> loop_step s (s\<lparr>pc := Running fs, ran := ran s @ [f]\<rparr>)"
| functor_queues: "pc s = Running fs \<Longrightarrow>
    loop_step s (s\<lparr>pc := WakingSelf fs, queue := queue s @ [f], posted := posted s @ [f]\<rparr>)"
| functor_wakes: "pc s = WakingSelf fs \<Longrightarrow> loop_step s (s\<lparr>pc := Running fs, counter := Suc (counter s)\<rparr>)"
| functor_quits: "pc s = Running fs \<Longrightarrow> loop_step s (s\<lparr>quitting := True\<rparr>)"
| batch_done: "pc s = Running [] \<Longrightarrow> loop_step s (s\<lparr>pc := AtTest\<rparr>)"

text \<open>The other threads: any thread, at any time.\<close>

inductive caller_step :: "tid \<Rightarrow> shared_loop \<Rightarrow> shared_loop \<Rightarrow> bool" where
  push: "caller s t = Outside \<Longrightarrow>
    caller_step t s (s\<lparr>queue := queue s @ [f], posted := posted s @ [f], caller := (caller s)(t := Appended)\<rparr>)"
| set_quit: "caller s t = Outside \<Longrightarrow>
    caller_step t s (s\<lparr>quitting := True, caller := (caller s)(t := FlagSet)\<rparr>)"
| wake: "caller s t \<noteq> Outside \<Longrightarrow>
    caller_step t s (s\<lparr>counter := Suc (counter s), caller := (caller s)(t := Outside)\<rparr>)"

inductive reachable :: "shared_loop \<Rightarrow> shared_loop \<Rightarrow> bool" for s0 where
  init: "reachable s0 s0"
| loop_thread: "reachable s0 s \<Longrightarrow> loop_step s s' \<Longrightarrow> reachable s0 s'"
| other_thread: "reachable s0 s \<Longrightarrow> caller_step t s s' \<Longrightarrow> reachable s0 s'"

inductive_cases loop_stepE: "loop_step s s'"
inductive_cases caller_stepE: "caller_step t s s'"

lemmas reachable_steps = reachable.loop_thread reachable.other_thread

section \<open>Wakeups\<close>

text \<open>A wakeup is on its way: the eventfd is readable, or a thread is about to write it.\<close>

definition wakeup_due :: "shared_loop \<Rightarrow> bool" where
  "wakeup_due s \<longleftrightarrow> counter s > 0 \<or> (\<exists>t. caller s t \<noteq> Outside)"

definition wakeup_inv :: "shared_loop \<Rightarrow> bool" where
  "wakeup_inv s \<longleftrightarrow>
     (case pc s of
        Handling b \<Rightarrow> True
      | Swapping \<Rightarrow> True
      | Returned \<Rightarrow> True
      | WakingSelf fs \<Rightarrow> True
      | _ \<Rightarrow> queue s \<noteq> [] \<longrightarrow> wakeup_due s) \<and>
     (pc s = InPoll \<longrightarrow> quitting s \<longrightarrow> wakeup_due s)"

lemma loop_step_wakeup: "loop_step s s' \<Longrightarrow> wakeup_inv s \<Longrightarrow> wakeup_inv s'"
  by (erule loop_stepE) (auto simp: wakeup_inv_def wakeup_due_def)

lemma caller_step_due: "caller_step t s s' \<Longrightarrow> wakeup_due s'"
  by (erule caller_stepE) (auto simp: wakeup_due_def)

lemma caller_step_wakeup: "caller_step t s s' \<Longrightarrow> wakeup_inv s'"
  using caller_step_due [of t s s'] by (auto simp: wakeup_inv_def split: loop_pc.split)

lemma reachable_wakeup: "reachable s0 s \<Longrightarrow> wakeup_inv s0 \<Longrightarrow> wakeup_inv s"
  by (induction rule: reachable.induct) (auto intro: loop_step_wakeup caller_step_wakeup)

text \<open>
  C10. No wakeup is lost. For any number of threads calling \<open>queueInLoop\<close> and \<open>quit\<close> in any interleaving with the
  loop, whose callbacks and functors do so too: while the loop's thread is in \<open>epoll_wait\<close>
  and a functor is queued or the quit flag is set, the eventfd is readable or a thread stands just
  before its write to it. So once the callers have returned the wait ends at once. (The loop starts
  with an empty queue, or with its eventfd written.)
\<close>

theorem no_lost_wakeup:
  assumes "reachable (fresh_loop q n) s" and "q = [] \<or> n > 0"
    and "pc s = InPoll" and "queue s \<noteq> [] \<or> quitting s"
  shows "counter s > 0 \<or> (\<exists>t. caller s t \<noteq> Outside)"
proof -
  have "wakeup_inv (fresh_loop q n)" using assms(2) by (auto simp: wakeup_inv_def fresh_loop_def wakeup_due_def)
  from reachable_wakeup [OF assms(1) this] assms(3,4) show ?thesis
    by (auto simp: wakeup_inv_def wakeup_due_def)
qed

text \<open>A run for the witnesses: the loop starts and waits, then thread 2 appends a functor.\<close>

definition asleep :: shared_loop where
  "asleep = (fresh_loop [] 0)\<lparr>pc := InPoll\<rparr>"

definition appended_asleep :: shared_loop where
  "appended_asleep = asleep\<lparr>queue := [UserFunctor 0], posted := [UserFunctor 0],
     caller := (\<lambda>_. Outside)(2 := Appended)\<rparr>"

lemma sample_run: "reachable (fresh_loop [] 0) appended_asleep"
proof -
  let ?s = "(fresh_loop [] 0)\<lparr>pc := AtTest, quitting := False\<rparr>"
  have "reachable (fresh_loop [] 0) ?s"
    by (rule reachable_steps(1) [OF reachable.init start]) (simp add: fresh_loop_def)
  then have "reachable (fresh_loop [] 0) (?s\<lparr>pc := InPoll\<rparr>)"
    by (rule reachable_steps(1)) (intro test_go, simp_all)
  moreover have "?s\<lparr>pc := InPoll\<rparr> = asleep" by (simp add: asleep_def fresh_loop_def)
  moreover have "caller_step 2 asleep (asleep\<lparr>queue := queue asleep @ [UserFunctor 0],
      posted := posted asleep @ [UserFunctor 0], caller := (caller asleep)(2 := Appended)\<rparr>)"
    by (rule push) (simp add: asleep_def fresh_loop_def)
  moreover have "asleep\<lparr>queue := queue asleep @ [UserFunctor 0],
      posted := posted asleep @ [UserFunctor 0], caller := (caller asleep)(2 := Appended)\<rparr> = appended_asleep"
    by (simp add: asleep_def appended_asleep_def fresh_loop_def)
  ultimately show ?thesis by (metis reachable.other_thread)
qed

theorem no_lost_wakeup_witness:
  "pc appended_asleep = InPoll \<and> queue appended_asleep \<noteq> [] \<and>
    (counter appended_asleep > 0 \<or> (\<exists>t. caller appended_asleep t \<noteq> Outside))"
  using no_lost_wakeup [OF sample_run] by (simp add: appended_asleep_def asleep_def)

section \<open>Order\<close>

definition in_batch :: "shared_loop \<Rightarrow> functor_cb list" where
  "in_batch s = (case pc s of Running fs \<Rightarrow> fs | WakingSelf fs \<Rightarrow> fs | _ \<Rightarrow> [])"

lemma loop_step_order:
  "loop_step s s' \<Longrightarrow> posted s = ran s @ in_batch s @ queue s \<Longrightarrow> posted s' = ran s' @ in_batch s' @ queue s'"
  by (erule loop_stepE) (auto simp: in_batch_def)

lemma caller_step_order:
  "caller_step t s s' \<Longrightarrow> posted s = ran s @ in_batch s @ queue s \<Longrightarrow> posted s' = ran s' @ in_batch s' @ queue s'"
  by (erule caller_stepE) (auto simp: in_batch_def split: loop_pc.split)

text \<open>
  C20. Every functor runs at most once, and in the order of the queue. In every state that the threads can
  reach, what was posted is exactly what has run, followed by what is left of the batch being
  run, followed by the queue: no functor is dropped, run twice or overtaken, whichever thread
  posted it.
\<close>

theorem functors_in_order:
  assumes "reachable (fresh_loop q n) s"
  shows "posted s = ran s @ in_batch s @ queue s"
  using assms
proof (induction rule: reachable.induct)
  case init
  then show ?case by (simp add: fresh_loop_def in_batch_def)
qed (blast intro: loop_step_order caller_step_order)+

theorem functors_in_order_witness:
  "posted appended_asleep = ran appended_asleep @ in_batch appended_asleep @ queue appended_asleep \<and>
    posted appended_asleep = [UserFunctor 0]"
  using functors_in_order [OF sample_run] by (simp add: appended_asleep_def)

section \<open>What is lost before the loop starts\<close>

text \<open>
  A functor queued by the loop's own thread before \<open>loop()\<close> waits: \<open>queueInLoop\<close> does not write the
  eventfd in the loop's own thread outside a batch, so the loop can go to sleep in its first
  \<open>epoll_wait\<close> with the functor queued and no wakeup due.
\<close>

theorem early_functor_waits:
  "\<exists>s. reachable (fresh_loop [f] 0) s \<and> pc s = InPoll \<and> queue s = [f] \<and> ran s = [] \<and>
    \<not> wakeup_due s"
proof -
  let ?s = "fresh_loop [f] 0"
  have "reachable ?s (?s\<lparr>pc := AtTest, quitting := False\<rparr>)"
    by (rule reachable_steps(1) [OF reachable.init start]) (simp add: fresh_loop_def)
  then have "reachable ?s (?s\<lparr>pc := AtTest, quitting := False, pc := InPoll\<rparr>)"
    by (rule reachable_steps(1), intro test_go) simp_all
  then show ?thesis
    by (intro exI conjI) (assumption, simp_all add: fresh_loop_def wakeup_due_def)
qed

text \<open>
  A \<open>quit\<close> by another thread before \<open>loop()\<close> is lost for good: \<open>loop()\<close> clears the flag, the wakeup it
  left ends one wait, and then the loop sleeps with the flag clear and nothing due, although \<open>quit\<close>
  was called and returned. \<open>EventLoopThread\<close> lets this happen: its destructor calls \<open>quit\<close> and joins
  as soon as \<open>startLoop\<close> returned, which is before the thread calls \<open>loop()\<close>.
\<close>

theorem early_quit_lost:
  "\<exists>s s1 s2. caller_step t (fresh_loop [] 0) s1 \<and> quitting s1 \<and> caller_step t s1 s2 \<and>
    reachable (fresh_loop [] 0) s2 \<and> reachable s2 s \<and> pc s = InPoll \<and> \<not> quitting s \<and> \<not> wakeup_due s"
proof -
  let ?s = "fresh_loop [] 0"
  let ?s1 = "?s\<lparr>quitting := True, caller := (caller ?s)(t := FlagSet)\<rparr>"
  let ?s2 = "?s1\<lparr>counter := Suc (counter ?s1), caller := (caller ?s1)(t := Outside)\<rparr>"
  have 1: "caller_step t ?s ?s1" by (rule set_quit) (simp add: fresh_loop_def)
  have 2: "caller_step t ?s1 ?s2" by (rule wake) simp
  let ?g = "\<lambda>p s. s\<lparr>pc := p\<rparr>"
  note step = reachable.loop_thread
  have "reachable ?s2 (?s2\<lparr>pc := AtTest, quitting := False\<rparr>)" (is "reachable _ ?a")
    by (rule step [OF reachable.init start]) (simp add: fresh_loop_def)
  then have "reachable ?s2 (?g InPoll ?a)" by (rule step) (intro test_go, simp_all)
  then have "reachable ?s2 (?g (Handling True) (?g InPoll ?a))" by (rule step) (intro poll_woken, simp_all)
  then have "reachable ?s2 ((?g (Handling True) (?g InPoll ?a))\<lparr>pc := Handling False, counter := 0\<rparr>)" (is "reachable _ ?b")
    by (rule step) (intro handle_wakeup, simp)
  then have "reachable ?s2 (?g Swapping ?b)" by (rule step) (intro handled, simp)
  then have "reachable ?s2 ((?g Swapping ?b)\<lparr>pc := Running (queue (?g Swapping ?b)), queue := []\<rparr>)" (is "reachable _ ?c")
    by (rule step) (intro swap, simp)
  then have "reachable ?s2 (?g AtTest ?c)" by (rule step) (intro batch_done, simp add: fresh_loop_def)
  then have 3: "reachable ?s2 (?g InPoll (?g AtTest ?c))" by (rule step) (intro test_go, simp_all)
  have "reachable ?s ?s2" by (intro reachable.other_thread [OF reachable.other_thread [OF reachable.init 1] 2])
  with 1 2 3 show ?thesis
    by (intro exI [of _ "?g InPoll (?g AtTest ?c)"] exI [of _ ?s1] exI [of _ ?s2])
      (simp add: fresh_loop_def wakeup_due_def)
qed

section \<open>The calls of \<open>EventLoop\<close> are these steps\<close>

text \<open>
  What the threads share of the loop \<open>l\<close>, read off the state of \<open>EventLoop\<close>; \<open>cnt\<close> is the kernel's
  counter of an eventfd. The rest of the arguments are the parts that state does not have.
\<close>

definition shared_view :: "('k \<Rightarrow> fd \<Rightarrow> nat) \<Rightarrow> ('k, 'z) loop_world_scheme \<Rightarrow> event_loop \<Rightarrow> loop_pc \<Rightarrow>
    (tid \<Rightarrow> caller_pc) \<Rightarrow> functor_cb list \<Rightarrow> functor_cb list \<Rightarrow> shared_loop" where
  "shared_view cnt w lp p cl po r =
     \<lparr>pc = p, queue = pendingFunctors lp, counter = cnt (kern w) (wakeupFd lp), quitting = quitFlag lp,
      caller = cl, posted = po, ran = r\<rparr>"

definition eventfd_counts :: "'k os \<Rightarrow> ('k \<Rightarrow> fd \<Rightarrow> nat) \<Rightarrow> bool" where
  "eventfd_counts os cnt \<longleftrightarrow> (\<forall>f k. cnt (sys_eventfd_write os f k) f = Suc (cnt k f))"

text \<open>The two steps of a call from another thread, those of a functor, and the one of an event handler.\<close>

lemma far_steps:
  assumes "eventfd_counts os cnt" and "cl t = Outside"
  shows "caller_step t (shared_view cnt w lp p cl po r)
      ((shared_view cnt w lp p cl po r)\<lparr>queue := pendingFunctors lp @ [f], posted := po @ [f], caller := cl(t := Appended)\<rparr>)"
    and "caller_step t ((shared_view cnt w lp p cl po r)\<lparr>queue := pendingFunctors lp @ [f], posted := po @ [f],
        caller := cl(t := Appended)\<rparr>)
      (shared_view cnt (w'\<lparr>kern := sys_eventfd_write os (wakeupFd lp) (kern w)\<rparr>)
        (lp\<lparr>pendingFunctors := pendingFunctors lp @ [f]\<rparr>) p cl (po @ [f]) r)"
  using push [of "shared_view cnt w lp p cl po r" t f] assms
    wake [of "(shared_view cnt w lp p cl po r)\<lparr>queue := pendingFunctors lp @ [f], posted := po @ [f],
      caller := cl(t := Appended)\<rparr>" t]
  by (simp_all add: shared_view_def eventfd_counts_def fun_upd_idem)

lemma own_steps:
  assumes "eventfd_counts os cnt"
  shows "loop_step (shared_view cnt w lp (Running fs) cl po r)
      ((shared_view cnt w lp (WakingSelf fs) cl po r)\<lparr>queue := pendingFunctors lp @ [f], posted := po @ [f]\<rparr>)"
    and "loop_step ((shared_view cnt w lp (WakingSelf fs) cl po r)\<lparr>queue := pendingFunctors lp @ [f], posted := po @ [f]\<rparr>)
      (shared_view cnt (w'\<lparr>kern := sys_eventfd_write os (wakeupFd lp) (kern w)\<rparr>)
        (lp\<lparr>pendingFunctors := pendingFunctors lp @ [f]\<rparr>) (Running fs) cl (po @ [f]) r)"
  using functor_queues [of "shared_view cnt w lp (Running fs) cl po r" fs f] assms
    functor_wakes [of "(shared_view cnt w lp (WakingSelf fs) cl po r)\<lparr>queue := pendingFunctors lp @ [f], posted := po @ [f]\<rparr>" fs]
  by (simp_all add: shared_view_def eventfd_counts_def)

lemma quiet_step:
  "loop_step (shared_view cnt w lp (Handling b) cl po r)
    (shared_view cnt (put_loop l (lp\<lparr>pendingFunctors := pendingFunctors lp @ [f]\<rparr>) w)
      (lp\<lparr>pendingFunctors := pendingFunctors lp @ [f]\<rparr>) (Handling b) cl (po @ [f]) r)"
  using handler_queues [of "shared_view cnt w lp (Handling b) cl po r" b f]
  by (simp add: shared_view_def put_loop_def)

text \<open>
  C30. The calls of the code are the steps of the interleaving. A whole \<open>queueInLoop(f)\<close>, as
  \<open>EventLoop\<close> models it, is the append followed by the wakeup of the same thread when another thread
  makes it; the append followed by the wakeup of the loop's own thread when a functor of
  the running batch makes it; and the append alone when an event handler makes it.
\<close>

theorem calls_refine_steps:
  assumes "loops w l = Some lp" and "eventfd_counts os cnt"
  shows "\<exists>w' lp'. queueInLoop os l f w = Inr w' \<and> loops w' l = Some lp' \<and>
    (if threadId lp \<noteq> curThread w
     then \<forall>t p cl po r. \<exists>s. cl t \<noteq> Outside \<or>
       caller_step t (shared_view cnt w lp p cl po r) s \<and> caller_step t s (shared_view cnt w' lp' p cl (po @ [f]) r)
     else if callingPendingFunctors lp
     then \<forall>fs cl po r. \<exists>s. loop_step (shared_view cnt w lp (Running fs) cl po r) s \<and>
       loop_step s (shared_view cnt w' lp' (Running fs) cl (po @ [f]) r)
     else \<forall>b cl po r. loop_step (shared_view cnt w lp (Handling b) cl po r)
       (shared_view cnt w' lp' (Handling b) cl (po @ [f]) r))"
proof -
  let ?lp' = "lp\<lparr>pendingFunctors := pendingFunctors lp @ [f]\<rparr>"
  let ?w = "put_loop l ?lp' w"
  let ?wk = "?w\<lparr>kern := sys_eventfd_write os (wakeupFd lp) (kern w)\<rparr>"
  note q = queueInLoop_eq [OF assms(1), of os f]
  have l: "loops ?w l = Some ?lp'" "loops ?wk l = Some ?lp'" by simp_all
  consider (far) "threadId lp \<noteq> curThread w"
    | (own) "threadId lp = curThread w" "callingPendingFunctors lp"
    | (quiet) "threadId lp = curThread w" "\<not> callingPendingFunctors lp"
    by blast
  then show ?thesis
  proof cases
    case far
    have "\<exists>s. cl t \<noteq> Outside \<or> caller_step t (shared_view cnt w lp p cl po r) s \<and>
        caller_step t s (shared_view cnt ?wk ?lp' p cl (po @ [f]) r)" for t p cl po r
    proof (cases "cl t = Outside")
      case True
      show ?thesis by (intro exI disjI2 conjI) (rule far_steps [where cl = cl and t = t, OF assms(2) True])+
    qed simp
    with far q l(2) show ?thesis by (intro exI [of _ ?wk] exI [of _ ?lp']) simp
  next
    case own
    have "\<exists>s. loop_step (shared_view cnt w lp (Running fs) cl po r) s \<and>
        loop_step s (shared_view cnt ?wk ?lp' (Running fs) cl (po @ [f]) r)" for fs cl po r
      by (intro exI conjI) (rule own_steps [OF assms(2)])+
    with own q l(2) show ?thesis by (intro exI [of _ ?wk] exI [of _ ?lp']) simp
  next
    case quiet
    have "?w\<lparr>kern := kern w\<rparr> = ?w" by (simp add: put_loop_def)
    with quiet q l(1) show ?thesis by (intro exI [of _ ?w] exI [of _ ?lp']) (simp add: quiet_step)
  qed
qed

text \<open>Thread 2 in a state with the loop 0 of thread 1.\<close>

definition two_threads :: "toy loop_world" where
  "two_threads = \<lparr>kern = toy0, chans = (\<lambda>_. None), pollers = (\<lambda>_. None),
     loops = (\<lambda>_. None)(0 := Some \<lparr>looping = True, quitFlag = False, threadId = 1, pollReturnTime = 0,
       wakeupFd = 4, wakeupChannel = 0, activeChannels = [], callingPendingFunctors = False,
       pendingFunctors = []\<rparr>),
     curThread = 2, loopInThisThread = (\<lambda>_. None)\<rparr>"

theorem calls_refine_steps_witness:
  "\<exists>w' lp lp' s. loops two_threads 0 = Some lp \<and> queueInLoop toy_os 0 (UserFunctor 0) two_threads = Inr w' \<and>
    loops w' 0 = Some lp' \<and>
    caller_step 2 (shared_view (\<lambda>k. count_list (toy_wakeups k)) two_threads lp InPoll (\<lambda>_. Outside) [] []) s \<and>
    caller_step 2 s (shared_view (\<lambda>k. count_list (toy_wakeups k)) w' lp' InPoll (\<lambda>_. Outside) [UserFunctor 0] [])"
proof -
  have c: "eventfd_counts toy_os (\<lambda>k. count_list (toy_wakeups k))"
    by (simp add: eventfd_counts_def toy_os_def)
  obtain lp where l: "loops two_threads 0 = Some lp" "threadId lp \<noteq> curThread two_threads"
    by (simp add: two_threads_def)
  from calls_refine_steps [OF l(1) c, of "UserFunctor 0"] l(2) obtain w' lp' where
    h: "queueInLoop toy_os 0 (UserFunctor 0) two_threads = Inr w'" "loops w' 0 = Some lp'"
    "\<forall>t p cl po r. \<exists>s. cl t \<noteq> Outside \<or>
       caller_step t (shared_view (\<lambda>k. count_list (toy_wakeups k)) two_threads lp p cl po r) s \<and>
       caller_step t s (shared_view (\<lambda>k. count_list (toy_wakeups k)) w' lp' p cl (po @ [UserFunctor 0]) r)"
    by auto
  from h(3) [rule_format, of "\<lambda>_. Outside" 2 InPoll "[]" "[]"] h(1,2) l(1) show ?thesis by auto
qed

end
