(* ===== verification/InetAddress.thy ===== *)
theory InetAddress
  imports Os
begin

unbundle bit_operations_syntax

text \<open>
  \<open>include/muduo/InetAddress.hpp\<close> and \<open>src/InetAddress.cpp\<close>: the IPv4 address and port of a socket. An
  address is the \<open>sockaddr_in\<close> itself, of which port and address are kept. \<open>htons\<close> and \<open>ntohs\<close> are those
  of a little-endian machine. \<open>inet_pton\<close> and \<open>inet_ntop\<close> are parameters; \<open>ip.data()\<close> is
  taken to be the whole view. Decimal numbers are written as \<open>std::to_string\<close> and \<open>operator<<\<close> write them.
\<close>

definition swap_bytes :: "16 word \<Rightarrow> 16 word" where
  "swap_bytes x = push_bit 8 x OR drop_bit 8 x"

definition htons :: "16 word \<Rightarrow> 16 word" where "htons x = swap_bytes x"
definition ntohs :: "16 word \<Rightarrow> 16 word" where "ntohs x = swap_bytes x"

definition digit :: "nat \<Rightarrow> char" where "digit n = char_of (48 + n)"

fun decimal :: "nat \<Rightarrow> string" where
  "decimal n = (if n < 10 then [digit n] else decimal (n div 10) @ [digit (n mod 10)])"

declare decimal.simps [simp del]

text \<open>The constructor from a port and a host: an invalid host ends the process in LOG_FATAL.\<close>

definition new_address :: "(string \<Rightarrow> 32 word option) \<Rightarrow> 16 word \<Rightarrow> string \<Rightarrow> sockaddr result" where
  "new_address inet_pton port ip =
     (case inet_pton ip of
        None \<Rightarrow> Inl ExitFailure
      | Some a \<Rightarrow> Inr \<lparr>sin_port = htons port, sin_addr = a\<rparr>)"

definition toIp :: "(32 word \<Rightarrow> string option) \<Rightarrow> sockaddr \<Rightarrow> string" where
  "toIp inet_ntop a = (case inet_ntop (sin_addr a) of Some s \<Rightarrow> s | None \<Rightarrow> '''')"

definition toPort :: "sockaddr \<Rightarrow> 16 word" where "toPort a = ntohs (sin_port a)"

definition toIpPort :: "(32 word \<Rightarrow> string option) \<Rightarrow> sockaddr \<Rightarrow> string" where
  "toIpPort inet_ntop a = toIp inet_ntop a @ '':'' @ decimal (unat (toPort a))"

subsection \<open>Byte order\<close>

lemma swap_bytes_twice [simp]: "swap_bytes (swap_bytes x) = x"
  by (rule bit_word_eqI) (auto simp: swap_bytes_def bit_simps)

lemma ntohs_htons [simp]: "ntohs (htons x) = x" "htons (ntohs x) = x"
  by (simp_all add: ntohs_def htons_def)

subsection \<open>Decimal numbers\<close>

fun undigit :: "char \<Rightarrow> nat" where "undigit c = of_char c - 48"

definition undecimal :: "string \<Rightarrow> nat" where
  "undecimal s = foldl (\<lambda>n c. 10 * n + undigit c) 0 s"

lemma undigit_digit: "n < 10 \<Longrightarrow> undigit (digit n) = n"
  by (simp add: digit_def)

lemma undecimal_decimal [simp]: "undecimal (decimal n) = n"
proof (induction n rule: decimal.induct)
  case (1 n)
  then show ?case
    by (subst decimal.simps) (auto simp: undecimal_def undigit_digit simp del: undigit.simps)
qed

lemma decimal_inj [simp]: "decimal m = decimal n \<longleftrightarrow> m = n"
  by (metis undecimal_decimal)

definition is_digit :: "char \<Rightarrow> bool" where
  "is_digit c \<longleftrightarrow> 48 \<le> (of_char c :: nat) \<and> (of_char c :: nat) \<le> 57"

lemma is_digit_digit: "n < 10 \<Longrightarrow> is_digit (digit n)"
  by (simp add: is_digit_def digit_def)

lemma decimal_digits: "\<forall>c \<in> set (decimal n). is_digit c"
proof (induction n rule: decimal.induct)
  case (1 n)
  then show ?case
    by (subst decimal.simps) (auto simp: is_digit_digit)
qed

lemma decimal_nonempty [simp]: "decimal n \<noteq> []"
  by (subst decimal.simps) simp

text \<open>Where the last mark of a text splits it.\<close>

lemma split_at_last:
  assumes "x \<notin> set d" "x \<notin> set d'" "s @ x # d = s' @ x # d'"
  shows "s = s' \<and> d = d'"
proof -
  have "rev d @ x # rev s = rev d' @ x # rev s'" using assms(3) by (metis rev.simps(2) rev_append append.assoc append_Cons append_Nil)
  moreover have "takeWhile (\<lambda>c. c \<noteq> x) (rev e @ x # r) = rev e" if "x \<notin> set e" for e r
    using that by (subst takeWhile_append2) auto
  ultimately have "rev d = rev d'" using assms(1,2) by metis
  with assms(3) show ?thesis by simp
qed

lemma not_digit_marks: "\<not> is_digit (CHR '':'')" "\<not> is_digit (CHR ''#'')"
  by (simp_all add: is_digit_def)

section \<open>Properties\<close>

text \<open>
  C32. Addresses survive both ways of writing them. Building an address from a port and a host
  gives back the port, whatever the host. And an address that \<open>inet_ntop\<close> can print, rebuilt from its printed
  host and its port, is the same address, for any \<open>inet_pton\<close> that reads what \<open>inet_ntop\<close> prints.
\<close>

theorem address_round_trip:
  assumes "\<And>a s. ntop a = Some s \<Longrightarrow> pton s = Some a"
  shows "(\<forall>port ip. case new_address pton port ip of Inl e \<Rightarrow> e = ExitFailure \<and> pton ip = None | Inr a \<Rightarrow> toPort a = port) \<and>
    (\<forall>a. ntop (sin_addr a) \<noteq> None \<longrightarrow> new_address pton (toPort a) (toIp ntop a) = Inr a)"
  using assms by (auto simp: new_address_def toPort_def toIp_def split: option.splits)

text \<open>Two hosts, for the witnesses.\<close>

definition two_hosts :: "32 word \<Rightarrow> string option" where
  "two_hosts a = (if a = 1 then Some ''127.0.0.1'' else if a = 2 then Some ''10.0.0.2'' else None)"

definition read_two_hosts :: "string \<Rightarrow> 32 word option" where
  "read_two_hosts s = (if s = ''127.0.0.1'' then Some 1 else if s = ''10.0.0.2'' then Some 2 else None)"

theorem address_round_trip_witness:
  "new_address read_two_hosts 8002 ''127.0.0.1'' = Inr \<lparr>sin_port = 0x421F, sin_addr = 1\<rparr> \<and>
    toPort \<lparr>sin_port = 0x421F, sin_addr = 1\<rparr> = 8002 \<and>
    new_address read_two_hosts (toPort \<lparr>sin_port = 5, sin_addr = 2\<rparr>) (toIp two_hosts \<lparr>sin_port = 5, sin_addr = 2\<rparr>) =
      Inr \<lparr>sin_port = 5, sin_addr = 2\<rparr>"
proof -
  have h: "two_hosts a = Some s \<Longrightarrow> read_two_hosts s = Some a" for a s
    by (auto simp: two_hosts_def read_two_hosts_def split: if_splits)
  have n: "new_address read_two_hosts 8002 ''127.0.0.1'' = Inr \<lparr>sin_port = 0x421F, sin_addr = 1\<rparr>"
    by (simp add: new_address_def read_two_hosts_def htons_def swap_bytes_def push_bit_eq_mult drop_bit_eq_div)
  from address_round_trip [of two_hosts read_two_hosts, OF h] have
    "case new_address read_two_hosts 8002 ''127.0.0.1'' of Inl e \<Rightarrow> e = ExitFailure \<and> read_two_hosts ''127.0.0.1'' = None
       | Inr a \<Rightarrow> toPort a = 8002"
    "two_hosts (sin_addr \<lparr>sin_port = 5, sin_addr = 2\<rparr>) \<noteq> None \<Longrightarrow>
      new_address read_two_hosts (toPort \<lparr>sin_port = 5, sin_addr = 2\<rparr>) (toIp two_hosts \<lparr>sin_port = 5, sin_addr = 2\<rparr>) =
      Inr \<lparr>sin_port = 5, sin_addr = 2\<rparr>"
    by blast+
  with n show ?thesis by (simp add: two_hosts_def)
qed

text \<open>
  The text \<open>ip:port\<close> identifies the address. If \<open>inet_ntop\<close> can print both hosts and prints different
  hosts differently, two addresses with the same text are equal: the port is printed in decimal, without
  a colon, so the last colon separates the two.
\<close>

lemma toIpPort_injective:
  assumes "inj_on ntop {sin_addr a, sin_addr b}" and "ntop (sin_addr a) \<noteq> None" and "ntop (sin_addr b) \<noteq> None"
    and "toIpPort ntop a = toIpPort ntop b"
  shows "a = b"
proof -
  have nodigit: "CHR '':'' \<notin> set (decimal n)" for n
    using decimal_digits [of n] not_digit_marks(1) by blast
  from split_at_last [OF nodigit nodigit, of "toIp ntop a" "unat (toPort a)" "toIp ntop b" "unat (toPort b)"] assms(4)
  have h: "toIp ntop a = toIp ntop b" "toPort a = toPort b"
    by (auto simp: toIpPort_def word_unat_eq_iff)
  have "sin_port a = sin_port b" using h(2) by (metis ntohs_htons(2) toPort_def)
  moreover have "sin_addr a = sin_addr b"
    using assms(1-3) h(1) by (auto simp: toIp_def inj_on_def)
  ultimately show ?thesis by simp
qed

end
