(* ===== verification/ThreadPool.thy ===== *)
theory ThreadPool
  imports TcpConnection InetAddress
begin

text \<open>
  \<open>CurrentThread.hpp\<close>, \<open>Thread.hpp\<close>, \<open>EventLoopThread\<close> and \<open>EventLoopThreadPool\<close>. Each worker thread owns one event loop.
  The part of \<open>threadFunc\<close> up to \<open>loop.loop()\<close> is run here in the new thread (\<open>curThread\<close> is its id);
  from then on the loop's own thread runs it, as \<open>EventLoop\<close> and \<open>LoopThreads\<close> model. A call that waits
  for ever is \<open>None\<close>. The identities of the objects that the calls create are arguments.
\<close>

record 'k pool_world = "'k conn_world" +
  numCreated :: uint32

definition decimal_int :: "int \<Rightarrow> string" where
  "decimal_int n = (if n < 0 then CHR ''-'' # decimal (nat (- n)) else decimal (nat n))"

subsection \<open>Thread\<close>

record thread =
  tStarted :: bool
  tJoined :: bool
  tJoinable :: bool \<comment> \<open>\<open>thread_\<close> is set and joinable\<close>
  tTid :: tid
  tName :: string

definition setDefaultName :: "uint32 \<Rightarrow> string \<Rightarrow> string" where
  "setDefaultName num name = (if name = [] then ''Thread'' @ decimal_int (sint num) else name)"

definition new_thread :: "string \<Rightarrow> ('k, 'z) pool_world_scheme \<Rightarrow> thread \<times> ('k, 'z) pool_world_scheme" where
  "new_thread name w =
     (let num = numCreated w + 1 in
      (\<lparr>tStarted = False, tJoined = False, tJoinable = False, tTid = 0, tName = setDefaultName num name\<rparr>,
       w\<lparr>numCreated := num\<rparr>))"

text \<open>\<open>start()\<close> returns when the new thread has stored its id \<open>t\<close>.\<close>

definition thread_start :: "tid \<Rightarrow> thread \<Rightarrow> thread" where
  "thread_start t th = th\<lparr>tStarted := True, tJoinable := True, tTid := t\<rparr>"

definition thread_join :: "thread \<Rightarrow> thread result" where
  "thread_join th = (if tJoinable th then Inr (th\<lparr>tJoined := True, tJoinable := False\<rparr>) else Inl Undefined)"

text \<open>The destructor detaches a thread that was started and never joined.\<close>

definition destroy_thread :: "thread \<Rightarrow> thread" where
  "destroy_thread th = (if tStarted th \<and> \<not> tJoined th \<and> tJoinable th then th\<lparr>tJoinable := False\<rparr> else th)"

text \<open>
  \<open>CurrentThread\<close>: the id of the thread, fetched once with \<open>gettid\<close> and kept in a thread-local cache. \<open>cache\<close> is
  the cache of every thread, \<open>self\<close> the thread that executes. The model reads \<open>curThread\<close> instead.
\<close>

definition cacheTid :: "tid \<Rightarrow> (tid \<Rightarrow> tid) \<Rightarrow> (tid \<Rightarrow> tid)" where
  "cacheTid self cache = (if cache self = 0 then cache(self := self) else cache)"

definition current_tid :: "tid \<Rightarrow> (tid \<Rightarrow> tid) \<Rightarrow> tid \<times> (tid \<Rightarrow> tid)" where
  "current_tid self cache =
     (let cache = (if cache self = 0 then cacheTid self cache else cache) in (cache self, cache))"

text \<open>Every call returns the thread's own id, and the cache holds nothing else.\<close>

lemma current_tid_self:
  assumes "\<forall>t. cache t = 0 \<or> cache t = t"
  shows "fst (current_tid self cache) = self" and "\<forall>t. snd (current_tid self cache) t = 0 \<or> snd (current_tid self cache) t = t"
  using assms by (auto simp: current_tid_def cacheTid_def Let_def)

subsection \<open>EventLoopThread\<close>

record event_loop_thread =
  elLoop :: "lid option"
  exiting :: bool
  elThread :: thread
  initCallback :: "nat option"

definition new_event_loop_thread :: "nat option \<Rightarrow> string \<Rightarrow> ('k, 'z) pool_world_scheme \<Rightarrow>
    event_loop_thread \<times> ('k, 'z) pool_world_scheme" where
  "new_event_loop_thread cb name w =
     (let (th, w) = new_thread name w in
      (\<lparr>elLoop = None, exiting = False, elThread = th, initCallback = cb\<rparr>, w))"

text \<open>\<open>threadFunc\<close> up to \<open>loop.loop()\<close>: the loop is built on the thread's stack and the callback runs.\<close>

definition threadFunc_prologue :: "'k os \<Rightarrow> (nat \<Rightarrow> lid \<Rightarrow> ('k, 'z) pool_world_scheme \<Rightarrow> ('k, 'z) pool_world_scheme result) \<Rightarrow>
    lid \<Rightarrow> cid \<Rightarrow> nat option \<Rightarrow> ('k, 'z) pool_world_scheme \<Rightarrow> ('k, 'z) pool_world_scheme result" where
  "threadFunc_prologue os init l c cb w =
     andThen (new_event_loop os l c w) (call (\<lambda>h. init h l) cb)"

text \<open>
  The wait of \<open>startLoop()\<close> on the condition variable: the predicate \<open>loop_ != nullptr\<close> is tested, and tested again after
  every wakeup. It runs here when the thread has done to the object all it will do before the end of its loop.
\<close>

partial_function (option) wait_published :: "event_loop_thread \<Rightarrow> lid option" where
  "wait_published el = (case elLoop el of None \<Rightarrow> wait_published el | Some l \<Rightarrow> Some l)"

lemma wait_published_Some [simp]:
  assumes "elLoop el = Some l"
  shows "wait_published el = Some l"
proof -
  have "wait_published el = (case elLoop el of None \<Rightarrow> wait_published el | Some l \<Rightarrow> Some l)" by (rule wait_published.simps)
  also have "\<dots> = Some l" unfolding assms by simp
  finally show ?thesis .
qed

lemma wait_published_None [simp]:
  assumes "elLoop el = None"
  shows "wait_published el = None"
proof (cases "wait_published el")
  case (Some r)
  have "elLoop el \<noteq> None"
  proof (rule wait_published.raw_induct [OF _ Some])
    fix wait el and r :: lid
    assume IH: "\<And>el r. wait el = Some r \<Longrightarrow> elLoop el \<noteq> None"
      and "(case elLoop el of None \<Rightarrow> wait el | Some l \<Rightarrow> Some l) = Some r"
    then show "elLoop el \<noteq> None" using IH [of el r] by (cases "elLoop el") simp_all
  qed
  with assms show ?thesis by simp
qed

text \<open>So the wait ends, at once, exactly if the thread has published.\<close>

lemma wait_published_eq [code]: "wait_published el = elLoop el"
  by (cases "elLoop el") simp_all

text \<open>
  \<open>startLoop()\<close>: start the thread \<open>t\<close>, which runs \<open>threadFunc\<close>, and wait. When the loop and the callback
  return, the thread publishes its loop; an exception is caught by \<open>threadFunc\<close>, whose handlers set \<open>exiting_\<close> and
  end the thread. (\<open>w\<close> then stands for the state in which it was thrown.)
\<close>

definition startLoop :: "'k os \<Rightarrow> (nat \<Rightarrow> lid \<Rightarrow> ('k, 'z) pool_world_scheme \<Rightarrow> ('k, 'z) pool_world_scheme result) \<Rightarrow>
    tid \<times> lid \<times> cid \<Rightarrow> event_loop_thread \<Rightarrow> ('k, 'z) pool_world_scheme \<Rightarrow>
    (lid \<times> event_loop_thread \<times> ('k, 'z) pool_world_scheme) result option" where
  "startLoop os init = (\<lambda>(t, l, c) el w.
     (let el = el\<lparr>elThread := thread_start t (elThread el)\<rparr> in
      case threadFunc_prologue os init l c (initCallback el) (w\<lparr>curThread := t\<rparr>) of
        Inr w' \<Rightarrow>
          (let el = el\<lparr>elLoop := Some l\<rparr> in
           map_option (\<lambda>m. Inr (m, el, w'\<lparr>curThread := curThread w\<rparr>)) (wait_published el))
      | Inl e \<Rightarrow>
          if e = LengthError \<or> e = BadFunctionCall
          then (let el = el\<lparr>exiting := True\<rparr> in map_option (\<lambda>m. Inr (m, el, w)) (wait_published el))
          else Some (Inl e)))"

text \<open>
  The end of \<open>threadFunc\<close>, in the same thread. When \<open>loop.loop()\<close> has returned, \<open>loop_\<close> is cleared and the
  loop on the stack destroyed. When an exception comes out of it, unwinding destroys the loop too, and the
  handler sets \<open>exiting_\<close>; \<open>w\<close> is the state in which it was thrown.
\<close>

definition threadFunc_epilogue :: "'k os \<Rightarrow> lid \<Rightarrow> event_loop_thread \<Rightarrow> ('k, 'z) pool_world_scheme \<Rightarrow>
    (event_loop_thread \<times> ('k, 'z) pool_world_scheme) result" where
  "threadFunc_epilogue os l el w =
     (let el = el\<lparr>elLoop := None\<rparr> in andThen (destroy_event_loop os l w) (\<lambda>w. Inr (el, w)))"

definition threadFunc_catch :: "'k os \<Rightarrow> lid \<Rightarrow> event_loop_thread \<Rightarrow> ('k, 'z) pool_world_scheme \<Rightarrow>
    (event_loop_thread \<times> ('k, 'z) pool_world_scheme) result" where
  "threadFunc_catch os l el w = andThen (destroy_event_loop os l w) (\<lambda>w. Inr (el\<lparr>exiting := True\<rparr>, w))"

text \<open>The destructor, up to the wait in \<open>join\<close>.\<close>

definition destroy_event_loop_thread :: "'k os \<Rightarrow> event_loop_thread \<Rightarrow> ('k, 'z) pool_world_scheme \<Rightarrow>
    (event_loop_thread \<times> ('k, 'z) pool_world_scheme) result" where
  "destroy_event_loop_thread os el w =
     (let el = el\<lparr>exiting := True\<rparr> in
      andThen (case elLoop el of Some l \<Rightarrow> quit os l w | None \<Rightarrow> Inr w) (\<lambda>w.
      if tJoinable (elThread el)
      then andThen (thread_join (elThread el)) (\<lambda>th. Inr (el\<lparr>elThread := th\<rparr>, w))
      else Inr (el, w)))"

subsection \<open>EventLoopThreadPool\<close>

record pool =
  baseLoop :: lid
  poolName :: string
  poolStarted :: bool
  numThreads :: int
  nextLoop :: uint32
  threads :: "event_loop_thread list"
  ploops :: "lid list"

definition new_pool :: "lid \<Rightarrow> string \<Rightarrow> pool" where
  "new_pool base name = \<lparr>baseLoop = base, poolName = name, poolStarted = False, numThreads = 0, nextLoop = 0,
     threads = [], ploops = []\<rparr>"

definition setThreadNum :: "int \<Rightarrow> pool \<Rightarrow> pool" where
  "setThreadNum n p = p\<lparr>numThreads := n\<rparr>"

text \<open>\<open>n\<close> more turns of the \<open>for\<close> loop, from \<open>i\<close> on; \<open>ids i\<close> are the thread and objects of the turn \<open>i\<close>.\<close>

fun start_threads :: "'k os \<Rightarrow> (nat \<Rightarrow> lid \<Rightarrow> ('k, 'z) pool_world_scheme \<Rightarrow> ('k, 'z) pool_world_scheme result) \<Rightarrow>
    (nat \<Rightarrow> tid \<times> lid \<times> cid) \<Rightarrow> nat option \<Rightarrow> nat \<Rightarrow> nat \<Rightarrow> pool \<Rightarrow> ('k, 'z) pool_world_scheme \<Rightarrow>
    (pool \<times> ('k, 'z) pool_world_scheme) result option" where
  "start_threads os init ids cb 0 i p w = Some (Inr (p, w))"
| "start_threads os init ids cb (Suc n) i p w =
     (let (el, w) = new_event_loop_thread cb (poolName p @ decimal i) w in
      case startLoop os init (ids i) el w of
        None \<Rightarrow> None
      | Some (Inl e) \<Rightarrow> Some (Inl e)
      | Some (Inr (l, el, w)) \<Rightarrow>
          start_threads os init ids cb n (Suc i)
            (p\<lparr>threads := threads p @ [el], ploops := ploops p @ [l]\<rparr>) w)"

text \<open>A negative \<open>numThreads_\<close> becomes a huge \<open>size_t\<close> in \<open>reserve\<close>, which throws.\<close>

definition pool_start :: "'k os \<Rightarrow> (nat \<Rightarrow> lid \<Rightarrow> ('k, 'z) pool_world_scheme \<Rightarrow> ('k, 'z) pool_world_scheme result) \<Rightarrow>
    (nat \<Rightarrow> tid \<times> lid \<times> cid) \<Rightarrow> nat option \<Rightarrow> pool \<Rightarrow> ('k, 'z) pool_world_scheme \<Rightarrow>
    (pool \<times> ('k, 'z) pool_world_scheme) result option" where
  "pool_start os init ids cb p w =
     (let p = p\<lparr>poolStarted := True\<rparr> in
      if numThreads p < 0 then Some (Inl LengthError)
      else case start_threads os init ids cb (nat (numThreads p)) 0 p w of
             None \<Rightarrow> None
           | Some (Inl e) \<Rightarrow> Some (Inl e)
           | Some (Inr (p, w)) \<Rightarrow>
               Some (if numThreads p = 0
                     then andThen (call (\<lambda>h. init h (baseLoop p)) cb w) (\<lambda>w. Inr (p, w))
                     else Inr (p, w)))"

definition getNextLoop :: "pool \<Rightarrow> lid \<times> pool" where
  "getNextLoop p =
     (if ploops p = [] then (baseLoop p, p)
      else (ploops p ! (unat (nextLoop p) mod length (ploops p)), p\<lparr>nextLoop := nextLoop p + 1\<rparr>))"

definition getAllLoops :: "pool \<Rightarrow> lid list" where
  "getAllLoops p = (if ploops p = [] then [baseLoop p] else ploops p)"

end
