(* ===== verification/PoolProps.thy ===== *)
theory PoolProps
  imports ThreadPool LoopInv
begin

unbundle bit_operations_syntax

text \<open>The properties of the thread pool: the distribution of connections over the loops, and its start.\<close>

section \<open>Round robin\<close>

text \<open>\<open>k\<close> calls of \<open>getNextLoop\<close>.\<close>

fun next_loops :: "nat \<Rightarrow> pool \<Rightarrow> lid list \<times> pool" where
  "next_loops 0 p = ([], p)"
| "next_loops (Suc k) p = (let (l, p) = getNextLoop p; (ls, p) = next_loops k p in (l # ls, p))"

lemma next_loops_eq:
  "ploops p \<noteq> [] \<Longrightarrow> next_loops k p =
    (map (\<lambda>i. ploops p ! (unat (nextLoop p + of_nat i) mod length (ploops p))) [0..<k],
     p\<lparr>nextLoop := nextLoop p + of_nat k\<rparr>)"
proof (induction k arbitrary: p)
  case (Suc k)
  have "[0..<Suc k] = 0 # map Suc [0..<k]" by (simp add: upt_conv_Cons map_Suc_upt del: upt_Suc)
  with Suc show ?case
    by (simp add: getNextLoop_def Let_def add.assoc comp_def del: upt_Suc)
qed simp

text \<open>
  C29. Round robin. Over any number of consecutive calls equal to the number of loops, before the
  counter wraps around, \<open>getNextLoop\<close> hands out every loop of the pool exactly once, in the order of the
  pool, beginning where the calls before left off. With no worker thread every call returns the base loop.
\<close>

theorem getNextLoop_round_robin:
  assumes "unat (nextLoop p) + length (ploops p) \<le> 2 ^ 32"
  shows "fst (next_loops (length (ploops p)) p) = rotate (unat (nextLoop p)) (ploops p) \<and>
    (ploops p = [] \<longrightarrow> (\<forall>k. fst (next_loops k p) = replicate k (baseLoop p)))"
proof (cases "ploops p = []")
  case True
  have "next_loops k p = (replicate k (baseLoop p), p)" for k
    by (induction k) (auto simp: getNextLoop_def True)
  with True show ?thesis by simp
next
  case False
  have u: "unat (nextLoop p + of_nat i) = unat (nextLoop p) + i" if "i < length (ploops p)" for i
  proof -
    have "unat (of_nat i :: uint32) = i" using that assms by (simp add: unat_of_nat take_bit_nat_eq_self)
    then show ?thesis using that assms by (simp add: unat_word_ariths)
  qed
  show ?thesis
    using False u by (auto simp: next_loops_eq nth_rotate intro!: nth_equalityI)
qed

definition sample_pool :: "uint32 \<Rightarrow> pool" where
  "sample_pool n = \<lparr>baseLoop = 0, poolName = ''p'', poolStarted = True, numThreads = 3, nextLoop = n,
     threads = [], ploops = [10, 11, 12]\<rparr>"

theorem getNextLoop_round_robin_witness:
  "fst (next_loops 3 (sample_pool 7)) = [11, 12, 10]"
proof -
  have pl: "ploops (sample_pool 7) = [10, 11, 12]" "unat (nextLoop (sample_pool 7)) = 7" "length [10 :: lid, 11, 12] = 3"
    by (simp_all add: sample_pool_def)
  from getNextLoop_round_robin [of "sample_pool 7", unfolded pl]
  have "fst (next_loops 3 (sample_pool 7)) = rotate 7 [10, 11, 12]" by simp
  then show ?thesis by (simp add: rotate_conv_mod [of 7])
qed

text \<open>
  The order breaks when the counter wraps. The call that uses the largest 32-bit value is followed by
  one that uses 0, that is, the first loop of the pool; this is the next loop of the pool exactly if the number
  of loops divides \<open>2\<^sup>3\<^sup>2\<close>. With three workers the loop 0 is handed out twice in a row.
\<close>

theorem getNextLoop_wrap:
  assumes "ploops p \<noteq> []" and "nextLoop p = - 1" and "length (ploops p) < 2 ^ 32"
  shows "next_loops 2 p = ([ploops p ! ((2 ^ 32 - 1) mod length (ploops p)), ploops p ! 0], p\<lparr>nextLoop := 1\<rparr>) \<and>
    (Suc ((2 ^ 32 - 1) mod length (ploops p)) mod length (ploops p) = 0 \<longleftrightarrow> length (ploops p) dvd 2 ^ 32)"
proof -
  have "next_loops 2 p = ([ploops p ! ((2 ^ 32 - 1) mod length (ploops p)), ploops p ! 0], p\<lparr>nextLoop := 1\<rparr>)"
  proof -
    have "unat (- 1 :: uint32) = 2 ^ 32 - 1" by (simp add: unat_eq_nat_uint uint_word_ariths)
    then show ?thesis
      using assms(1,2) by (simp add: numeral_2_eq_2 getNextLoop_def Let_def)
  qed
  moreover have "Suc ((2 ^ 32 - 1) mod n) mod n = 2 ^ 32 mod n" for n :: nat
    by (simp add: mod_Suc_eq)
  ultimately show ?thesis by (simp only: mod_eq_0_iff_dvd)
qed

theorem getNextLoop_wrap_witness:
  "fst (next_loops 2 (sample_pool (- 1))) = [10, 10]"
  using getNextLoop_wrap [of "sample_pool (- 1)"] by (simp add: sample_pool_def)

section \<open>Starting the workers\<close>

text \<open>
  \<open>startLoop\<close> waits for ever if the thread fails to publish its loop. When the initialisation callback
  throws, \<open>threadFunc\<close> catches the exception and ends; the condition variable is never notified with
  \<open>loop_\<close> set, so neither \<open>startLoop\<close> nor \<open>EventLoopThreadPool::start\<close> nor \<open>TcpServer::start\<close> returns.
\<close>

theorem startLoop_hangs_on_exception:
  assumes "threadFunc_prologue os init l c cb (snd (new_thread (poolName p @ decimal 0) w)\<lparr>curThread := t\<rparr>) = Inl e"
    and "e = LengthError \<or> e = BadFunctionCall" and "numThreads p > 0" and "ids 0 = (t, l, c)"
  shows "pool_start os init ids cb p w = None"
proof -
  obtain n where n: "nat (numThreads p) = Suc n" using assms(3) gr0_implies_Suc [of "nat (numThreads p)"] by auto
  show ?thesis
    using assms by (auto simp: pool_start_def n Let_def new_event_loop_thread_def startLoop_def split: prod.splits)
qed

text \<open>A state with no objects, in thread 1.\<close>

definition blank_pool_world :: "toy pool_world" where
  "blank_pool_world = \<lparr>kern = toy0\<lparr>toy_ep := (\<lambda>_ _. None)\<rparr>, chans = (\<lambda>_. None), pollers = (\<lambda>_. None),
     loops = (\<lambda>_. None), curThread = 1, loopInThisThread = (\<lambda>_. None), conns = (\<lambda>_. None), numCreated = 0\<rparr>"

lemma blank_prologue:
  "threadFunc_prologue toy_os (\<lambda>h l w. Inl BadFunctionCall) 5 6 (Some 0)
     (snd (new_thread name blank_pool_world)\<lparr>curThread := 2\<rparr>) = Inl BadFunctionCall"
proof -
  let ?w = "(snd (new_thread name blank_pool_world))\<lparr>curThread := 2\<rparr>"
  have "registry_wf toy_os toy_ep ?w"
    by (simp add: registry_wf_def poller_sync_def blank_pool_world_def new_thread_def Let_def)
  from new_event_loop_ok [OF this, of 6 5 3 "kern ?w" 4 "kern ?w"]
  obtain w' where "new_event_loop toy_os 5 6 ?w = Inr w'"
    by (auto simp: blank_pool_world_def new_thread_def Let_def toy_os_def toy0_def fun_upd_idem)
  then show ?thesis by (simp add: threadFunc_prologue_def)
qed

theorem startLoop_hangs_on_exception_witness:
  "pool_start toy_os (\<lambda>h l w. Inl BadFunctionCall) (\<lambda>i. (2, 5, 6)) (Some 0) (setThreadNum 3 (new_pool 0 ''p''))
     blank_pool_world = None"
  by (rule startLoop_hangs_on_exception [OF blank_prologue]) (simp_all add: setThreadNum_def new_pool_def)

section \<open>The end of a worker\<close>

lemma destroy_event_loop_gone: "destroy_event_loop os l w = Inr w' \<Longrightarrow> loops w' l = None"
  by (auto simp: destroy_event_loop_def with_loop_def with_poller_def andThen_def Let_def
      split: option.splits sum.splits)

text \<open>
  C33. The end of a worker. When \<open>loop()\<close> has returned, \<open>loop_\<close> is cleared, and \<open>~EventLoopThread\<close> joins the thread and
  touches no loop. When an exception comes out of \<open>loop()\<close>, the loop is destroyed with the stack frame but \<open>loop_\<close>
  still points to it, and the destructor calls \<open>quit\<close> on the dead loop.
\<close>

theorem worker_exception_dangles:
  assumes "elLoop el = Some l" and "tJoinable (elThread el)"
    and "threadFunc_epilogue os l el w = Inr (el1, w1)" and "threadFunc_catch os l el w = Inr (el2, w2)"
  shows "destroy_event_loop_thread os el1 w1 =
      Inr (el1\<lparr>exiting := True, elThread := (elThread el)\<lparr>tJoined := True, tJoinable := False\<rparr>\<rparr>, w1) \<and>
    destroy_event_loop_thread os el2 w2 = Inl Undefined"
proof -
  from assms(4) have el2: "elLoop el2 = Some l" and "destroy_event_loop os l w = Inr w2"
    using assms(1) by (auto simp: threadFunc_catch_def andThen_def split: sum.splits)
  then have "loops w2 l = None" by (simp add: destroy_event_loop_gone)
  with el2 have "destroy_event_loop_thread os el2 w2 = Inl Undefined"
    by (simp add: destroy_event_loop_thread_def quit_def modify_loop_def with_loop_def Let_def)
  moreover have "elLoop el1 = None" "elThread el1 = elThread el"
    using assms(3) by (auto simp: threadFunc_epilogue_def andThen_def Let_def split: sum.splits)
  ultimately show ?thesis
    using assms(2) by (simp add: destroy_event_loop_thread_def thread_join_def Let_def)
qed

text \<open>A loop with its poller and its registered wakeup channel, in thread 2.\<close>

definition worker_world :: "toy pool_world" where
  "worker_world = \<lparr>kern = toy0\<lparr>toy_ep := (\<lambda>_ _. None)(3 := (\<lambda>_. None)(4 := Some (3, 6)))\<rparr>,
     chans = (\<lambda>_. None)(6 := Some (set_events (\<lambda>e. 3) (set_index KAdded (new_channel 5 4)))),
     pollers = (\<lambda>_. None)(5 := Some \<lparr>ownerLoop = 5, epollfd = 3, evcap = 16, channels = (\<lambda>_. None)(4 := Some 6)\<rparr>),
     loops = (\<lambda>_. None)(5 := Some \<lparr>looping = True, quitFlag = False, threadId = 2, pollReturnTime = 0, wakeupFd = 4,
       wakeupChannel = 6, activeChannels = [], callingPendingFunctors = False, pendingFunctors = []\<rparr>),
     curThread = 2, loopInThisThread = (\<lambda>_. None), conns = (\<lambda>_. None), numCreated = 1\<rparr>"

definition sample_worker :: event_loop_thread where
  "sample_worker = \<lparr>elLoop = Some 5, exiting = False, elThread = thread_start 2 (fst (new_thread ''w'' blank_pool_world)),
     initCallback = None\<rparr>"

lemma worker_world_destroy: "\<exists>w'. destroy_event_loop toy_os 5 worker_world = Inr w'"
proof -
  note defs = destroy_event_loop_def with_loop_def disableAll_def modify_channel_def with_channel_def channel_update_def
    loop_updateChannel_def poller_updateChannel_def with_poller_def updateOperation_def channel_remove_def
    loop_removeChannel_def poller_removeChannel_def andThen_def put_channel_def put_poller_def isNoneEvent_def Let_def
  show ?thesis
    by (simp add: defs worker_world_def toy_os_def toy_ctl_def ctl_legal_def ctl_effect_def toy0_def
        new_channel_def set_index_def set_events_def KAdded_def KNew_def KDeleted_def kNoneEvent_def)
qed

theorem worker_exception_dangles_witness:
  "\<exists>el w. threadFunc_catch toy_os 5 sample_worker worker_world = Inr (el, w) \<and>
     destroy_event_loop_thread toy_os el w = Inl Undefined"
proof -
  obtain w' where w: "destroy_event_loop toy_os 5 worker_world = Inr w'" using worker_world_destroy by blast
  show ?thesis
    using worker_exception_dangles [of sample_worker 5 toy_os worker_world "sample_worker\<lparr>elLoop := None\<rparr>" w'
        "sample_worker\<lparr>exiting := True\<rparr>" w']
    by (simp add: threadFunc_epilogue_def threadFunc_catch_def w Let_def)
      (simp add: sample_worker_def thread_start_def)
qed

end
