(* ===== verification/WorkerHandshake.thy ===== *)
theory WorkerHandshake
  imports Prelude
begin

text \<open>
  A worker thread and its owner: \<open>Thread::start\<close>, \<open>EventLoopThread::startLoop\<close>, \<open>threadFunc\<close> and the destructor,
  cut at every access to what the two threads share -- the semaphore of \<open>start\<close>, the pointer \<open>loop_\<close>, the condition
  variable, the loop's quit flag and the loop itself, which lives on the worker's stack. The test of the predicate
  and the wait are one step, as the mutex makes them, and so is the store under the lock.

  \<open>quit\<close> is three accesses to the loop, in \<open>EventLoop.cpp\<close>: it stores the flag, reads the loop's thread id, and,
  since the owner is another thread, writes the loop's eventfd. No mutex holds them together.

  \<open>returned\<close> and \<open>misused\<close> are not fields of the code: what \<open>startLoop\<close> returned, and whether \<open>quit\<close> has touched a
  loop that was gone.
\<close>

datatype worker_pc =
    Unborn          \<comment> \<open>before \<open>new std::thread\<close>\<close>
  | Posting         \<comment> \<open>the lambda of \<open>start\<close>: \<open>tid_\<close> and \<open>sem_post\<close>\<close>
  | Constructing    \<comment> \<open>\<open>EventLoop loop;\<close>\<close>
  | CallingBack     \<comment> \<open>\<open>callback_(&loop)\<close>\<close>
  | Publishing      \<comment> \<open>\<open>loop_.store(&loop)\<close> under the mutex\<close>
  | Notifying       \<comment> \<open>\<open>cond_.notify_one()\<close>\<close>
  | Entering        \<comment> \<open>\<open>loop.loop()\<close>, which clears the quit flag\<close>
  | Testing         \<comment> \<open>\<open>while (!quit_)\<close>\<close>
  | InTurn
  | Clearing        \<comment> \<open>\<open>loop_.store(nullptr)\<close>\<close>
  | Destructing     \<comment> \<open>the end of the \<open>try\<close> block\<close>
  | Catching        \<comment> \<open>a handler: \<open>exiting_\<close>\<close>
  | Finished

datatype owner_pc =
    Constructed
  | SemWaiting      \<comment> \<open>\<open>sem_wait\<close> in \<open>start\<close>\<close>
  | Checking        \<comment> \<open>the predicate of \<open>cond_.wait\<close>, with the mutex\<close>
  | Asleep          \<comment> \<open>in \<open>cond_.wait\<close>\<close>
  | Reading         \<comment> \<open>\<open>return loop_.load()\<close>\<close>
  | Serving         \<comment> \<open>after \<open>startLoop\<close>\<close>
  | Loading         \<comment> \<open>the destructor: \<open>loop_.load()\<close>\<close>
  | Quitting        \<comment> \<open>\<open>loop->quit()\<close>: \<open>quit_.store(true)\<close>\<close>
  | Asking          \<comment> \<open>\<open>if (!isInLoopThread())\<close> in \<open>quit\<close>\<close>
  | Waking          \<comment> \<open>\<open>wakeup()\<close> in \<open>quit\<close>\<close>
  | Joining
  | Gone

record handshake =
  wpc :: worker_pc
  opc :: owner_pc
  sem :: bool
  published :: bool       \<comment> \<open>\<open>loop_ != nullptr\<close>\<close>
  alive :: bool           \<comment> \<open>the loop on the worker's stack exists\<close>
  quitReq :: bool         \<comment> \<open>\<open>quit_\<close>\<close>
  exitingFlag :: bool
  returned :: "bool option"
  misused :: bool

definition before_start :: handshake where
  "before_start = \<lparr>wpc = Unborn, opc = Constructed, sem = False, published = False, alive = False, quitReq = False,
     exitingFlag = False, returned = None, misused = False\<rparr>"

text \<open>The worker, while nothing throws.\<close>

inductive worker_step :: "handshake \<Rightarrow> handshake \<Rightarrow> bool" where
  post: "wpc s = Posting \<Longrightarrow> worker_step s (s\<lparr>wpc := Constructing, sem := True\<rparr>)"
| build: "wpc s = Constructing \<Longrightarrow> worker_step s (s\<lparr>wpc := CallingBack, alive := True, quitReq := False\<rparr>)"
| called: "wpc s = CallingBack \<Longrightarrow> worker_step s (s\<lparr>wpc := Publishing\<rparr>)"
| publish: "wpc s = Publishing \<Longrightarrow> worker_step s (s\<lparr>wpc := Notifying, published := True\<rparr>)"
| notify: "wpc s = Notifying \<Longrightarrow>
    worker_step s (s\<lparr>wpc := Entering, opc := (if opc s = Asleep then Checking else opc s)\<rparr>)"
| enter: "wpc s = Entering \<Longrightarrow> worker_step s (s\<lparr>wpc := Testing, quitReq := False\<rparr>)"
| go: "wpc s = Testing \<Longrightarrow> \<not> quitReq s \<Longrightarrow> worker_step s (s\<lparr>wpc := InTurn\<rparr>)"
| turn: "wpc s = InTurn \<Longrightarrow> worker_step s (s\<lparr>wpc := Testing\<rparr>)"
| leave: "wpc s = Testing \<Longrightarrow> quitReq s \<Longrightarrow> worker_step s (s\<lparr>wpc := Clearing\<rparr>)"
| clear: "wpc s = Clearing \<Longrightarrow> worker_step s (s\<lparr>wpc := Destructing, published := False\<rparr>)"
| destruct: "wpc s = Destructing \<Longrightarrow> worker_step s (s\<lparr>wpc := Finished, alive := False\<rparr>)"

text \<open>An exception of the callback, or one that comes out of a turn: unwinding destroys the loop.\<close>

inductive worker_throw :: "handshake \<Rightarrow> handshake \<Rightarrow> bool" where
  throw: "wpc s \<in> {CallingBack, InTurn} \<Longrightarrow> worker_throw s (s\<lparr>wpc := Catching, alive := False\<rparr>)"
| catch: "wpc s = Catching \<Longrightarrow> worker_throw s (s\<lparr>wpc := Finished, exitingFlag := True\<rparr>)"

inductive owner_step :: "handshake \<Rightarrow> handshake \<Rightarrow> bool" where
  spawn: "opc s = Constructed \<Longrightarrow> owner_step s (s\<lparr>opc := SemWaiting, wpc := Posting\<rparr>)"
| started: "opc s = SemWaiting \<Longrightarrow> sem s \<Longrightarrow> owner_step s (s\<lparr>opc := Checking, sem := False\<rparr>)"
| sleep: "opc s = Checking \<Longrightarrow> \<not> published s \<Longrightarrow> owner_step s (s\<lparr>opc := Asleep\<rparr>)"
| satisfied: "opc s = Checking \<Longrightarrow> published s \<Longrightarrow> owner_step s (s\<lparr>opc := Reading\<rparr>)"
| spurious: "opc s = Asleep \<Longrightarrow> owner_step s (s\<lparr>opc := Checking\<rparr>)"
| read: "opc s = Reading \<Longrightarrow> owner_step s (s\<lparr>opc := Serving, returned := Some (published s)\<rparr>)"
| delete: "opc s \<in> {Constructed, Serving} \<Longrightarrow> owner_step s (s\<lparr>opc := Loading, exitingFlag := True\<rparr>)"
| load: "opc s = Loading \<Longrightarrow> owner_step s (s\<lparr>opc := (if published s then Quitting else Joining)\<rparr>)"
| store_quit: "opc s = Quitting \<Longrightarrow>
    owner_step s (s\<lparr>opc := Asking, quitReq := True, misused := (misused s \<or> \<not> alive s)\<rparr>)"
| ask_thread: "opc s = Asking \<Longrightarrow> owner_step s (s\<lparr>opc := Waking, misused := (misused s \<or> \<not> alive s)\<rparr>)"
| wake_loop: "opc s = Waking \<Longrightarrow> owner_step s (s\<lparr>opc := Joining, misused := (misused s \<or> \<not> alive s)\<rparr>)"
| never_started: "opc s = Joining \<Longrightarrow> wpc s = Unborn \<Longrightarrow> owner_step s (s\<lparr>opc := Gone\<rparr>)"
| join: "opc s = Joining \<Longrightarrow> wpc s = Finished \<Longrightarrow> owner_step s (s\<lparr>opc := Gone\<rparr>)"

text \<open>
  Anyone else who calls \<open>quit\<close> on the loop: a functor, a handler, or a thread that was given the pointer. Only the store
  matters to worker and owner; \<open>misused\<close> is about the owner's call.
\<close>

inductive other_step :: "handshake \<Rightarrow> handshake \<Rightarrow> bool" where
  other_quit: "alive s \<Longrightarrow> other_step s (s\<lparr>quitReq := True\<rparr>)"

text \<open>\<open>exc\<close>: exceptions occur. \<open>oth\<close>: others may quit the loop.\<close>

inductive together :: "bool \<Rightarrow> bool \<Rightarrow> handshake \<Rightarrow> handshake \<Rightarrow> bool" for exc oth where
  by_worker: "worker_step s s' \<Longrightarrow> together exc oth s s'"
| by_owner: "owner_step s s' \<Longrightarrow> together exc oth s s'"
| by_throw: "exc \<Longrightarrow> worker_throw s s' \<Longrightarrow> together exc oth s s'"
| by_other: "oth \<Longrightarrow> other_step s s' \<Longrightarrow> together exc oth s s'"

inductive arrives :: "bool \<Rightarrow> bool \<Rightarrow> handshake \<Rightarrow> handshake \<Rightarrow> bool" for exc oth s0 where
  here: "arrives exc oth s0 s0"
| further: "arrives exc oth s0 s \<Longrightarrow> together exc oth s s' \<Longrightarrow> arrives exc oth s0 s'"

inductive_cases worker_stepE: "worker_step s s'"
inductive_cases owner_stepE: "owner_step s s'"
inductive_cases worker_throwE: "worker_throw s s'"
inductive_cases other_stepE: "other_step s s'"
inductive_cases togetherE: "together exc oth s s'"

lemmas handshake_elims = worker_stepE owner_stepE worker_throwE other_stepE

subsection \<open>Invariants\<close>

text \<open>Where the two can stand, whatever happens.\<close>

definition phases_ok :: "handshake \<Rightarrow> bool" where
  "phases_ok s \<longleftrightarrow> (opc s = Constructed \<longrightarrow> wpc s = Unborn) \<and>
     (wpc s = Unborn \<longrightarrow> opc s \<in> {Constructed, Loading, Joining, Gone} \<and> \<not> sem s) \<and>
     (wpc s = Posting \<longrightarrow> opc s = SemWaiting \<and> \<not> sem s) \<and> (opc s = SemWaiting \<longrightarrow> sem s \<or> wpc s = Posting) \<and>
     (wpc s \<in> {Unborn, Posting, Constructing, CallingBack, Publishing} \<longrightarrow> \<not> published s) \<and>
     (wpc s \<in> {Unborn, Posting, Constructing} \<longrightarrow> \<not> alive s)"

lemma phases_worker: "worker_step s s' \<Longrightarrow> phases_ok s \<Longrightarrow> phases_ok s'"
  by (elim worker_stepE; cases "opc s") (simp_all add: phases_ok_def)

lemma phases_owner: "owner_step s s' \<Longrightarrow> phases_ok s \<Longrightarrow> phases_ok s'"
  by (elim owner_stepE; cases "wpc s") (simp_all add: phases_ok_def)

lemma phases_throw: "worker_throw s s' \<Longrightarrow> phases_ok s \<Longrightarrow> phases_ok s'"
  by (elim worker_throwE; cases "wpc s") (simp_all add: phases_ok_def)

lemma phases_other: "other_step s s' \<Longrightarrow> phases_ok s \<Longrightarrow> phases_ok s'"
  by (elim other_stepE) (auto simp: phases_ok_def)

lemma phases_step: "together exc oth s s' \<Longrightarrow> phases_ok s \<Longrightarrow> phases_ok s'"
  by (elim togetherE) (simp_all add: phases_worker phases_owner phases_throw phases_other)

text \<open>What the worker vouches for while nothing throws and no one else quits the loop.\<close>

definition worker_ok :: "handshake \<Rightarrow> bool" where
  "worker_ok s \<longleftrightarrow> wpc s \<noteq> Catching \<and>
     (wpc s \<in> {CallingBack, Publishing, Notifying, Entering, Testing, InTurn, Clearing, Destructing} \<longrightarrow> alive s) \<and>
     (wpc s \<in> {Notifying, Entering, Testing, InTurn, Clearing} \<longrightarrow> published s)"

text \<open>Before the owner has asked, the loop runs; once the owner is past the wait, the pointer has been published.\<close>

definition owner_ok :: "handshake \<Rightarrow> bool" where
  "owner_ok s \<longleftrightarrow> (opc s \<notin> {Asking, Waking, Joining, Gone} \<longrightarrow> \<not> quitReq s \<and> wpc s \<notin> {Clearing, Destructing, Finished}) \<and>
     (opc s = Asleep \<longrightarrow> wpc s \<in> {Constructing, CallingBack, Publishing, Notifying}) \<and>
     (opc s \<in> {Reading, Serving, Quitting} \<longrightarrow> wpc s \<in> {Notifying, Entering, Testing, InTurn}) \<and>
     (opc s \<in> {Asking, Waking} \<longrightarrow> wpc s \<noteq> Unborn) \<and>
     (opc s \<in> {Loading, Asking, Waking, Joining, Gone} \<longrightarrow> wpc s \<notin> {Posting, Constructing, CallingBack, Publishing})"

definition result_ok :: "handshake \<Rightarrow> bool" where
  "result_ok s \<longleftrightarrow> (misused s \<longrightarrow> opc s \<in> {Waking, Joining, Gone} \<and> wpc s = Finished) \<and> returned s \<noteq> Some False \<and> (opc s = Serving \<longrightarrow> returned s = Some True)"

definition calm_ok :: "handshake \<Rightarrow> bool" where
  "calm_ok s \<longleftrightarrow> phases_ok s \<and> worker_ok s \<and> owner_ok s \<and> result_ok s"

lemma worker_ok_worker: "worker_step s s' \<Longrightarrow> worker_ok s \<Longrightarrow> worker_ok s'"
  by (elim worker_stepE) (simp_all add: worker_ok_def)

lemma worker_ok_owner: "owner_step s s' \<Longrightarrow> worker_ok s \<Longrightarrow> worker_ok s'"
  by (elim owner_stepE) (simp_all add: worker_ok_def)

lemma owner_ok_worker: "worker_step s s' \<Longrightarrow> phases_ok s \<Longrightarrow> owner_ok s \<Longrightarrow> owner_ok s'"
  by (elim worker_stepE; cases "opc s") (simp_all add: owner_ok_def phases_ok_def)

lemma owner_ok_owner: "owner_step s s' \<Longrightarrow> phases_ok s \<Longrightarrow> worker_ok s \<Longrightarrow> owner_ok s \<Longrightarrow> owner_ok s'"
  by (elim owner_stepE; cases "wpc s") (simp_all add: owner_ok_def worker_ok_def phases_ok_def)

lemma result_ok_worker: "worker_step s s' \<Longrightarrow> result_ok s \<Longrightarrow> result_ok s'"
  by (elim worker_stepE) (simp_all add: result_ok_def)

lemma result_ok_owner: "owner_step s s' \<Longrightarrow> worker_ok s \<Longrightarrow> owner_ok s \<Longrightarrow> result_ok s \<Longrightarrow> result_ok s'"
  by (elim owner_stepE; cases "wpc s") (simp_all add: result_ok_def worker_ok_def owner_ok_def)

lemma calm_step:
  assumes "together False False s s'" and "calm_ok s"
  shows "calm_ok s'"
  using assms(1)
proof (cases rule: together.cases)
  case by_worker
  with assms(2) show ?thesis
    by (simp add: calm_ok_def phases_worker worker_ok_worker owner_ok_worker result_ok_worker)
next
  case by_owner
  with assms(2) show ?thesis
    by (simp add: calm_ok_def phases_owner worker_ok_owner owner_ok_owner result_ok_owner)
qed simp_all

lemma calm_initially: "calm_ok before_start"
  by (simp add: before_start_def calm_ok_def phases_ok_def worker_ok_def owner_ok_def result_ok_def)

lemma calm_arrives: "arrives False False before_start s \<Longrightarrow> calm_ok s"
  by (induction rule: arrives.induct) (simp add: calm_initially, rule calm_step)

lemmas calm_defs = calm_ok_def phases_ok_def worker_ok_def owner_ok_def result_ok_def

subsection \<open>Progress\<close>

text \<open>What is left of \<open>startLoop\<close>: the owner's way to its return, and the steps the worker owes it.\<close>

fun prologue_left :: "worker_pc \<Rightarrow> nat" where
  "prologue_left Posting = 5"
| "prologue_left Constructing = 4"
| "prologue_left CallingBack = 3"
| "prologue_left Publishing = 2"
| "prologue_left Notifying = 1"
| "prologue_left _ = 0"

fun owner_left :: "owner_pc \<Rightarrow> nat" where
  "owner_left SemWaiting = 4"
| "owner_left Checking = 3"
| "owner_left Asleep = 2"
| "owner_left Reading = 1"
| "owner_left _ = 0"

definition start_left :: "handshake \<Rightarrow> nat" where
  "start_left s = owner_left (opc s) + 2 * prologue_left (wpc s)"

text \<open>What is left of the worker once its flag is set.\<close>

fun farewell_left :: "worker_pc \<Rightarrow> nat" where
  "farewell_left InTurn = 4"
| "farewell_left Testing = 3"
| "farewell_left Clearing = 2"
| "farewell_left Destructing = 1"
| "farewell_left _ = 0"

definition starting :: "handshake \<Rightarrow> bool" where
  "starting s \<longleftrightarrow> opc s \<in> {SemWaiting, Checking, Asleep, Reading}"

lemma start_left_worker:
  assumes "worker_step s s'" and "calm_ok s" and "starting s"
  shows "start_left s' < start_left s \<or> start_left s' = start_left s \<and> wpc s \<in> {Entering, Testing, InTurn}"
  using assms
  by (elim worker_stepE; cases "opc s") (simp_all add: start_left_def starting_def calm_defs)

lemma start_left_owner:
  assumes "owner_step s s'" and "starting s"
  shows "start_left s' < start_left s \<or> opc s = Asleep \<and> s' = s\<lparr>opc := Checking\<rparr>"
  using assms by (elim owner_stepE) (auto simp: start_left_def starting_def)

lemma owner_awake:
  assumes "calm_ok s" and "starting s" and "wpc s \<in> {Entering, Testing, InTurn}"
  shows "opc s = SemWaiting \<and> sem s \<or> opc s = Checking \<and> published s \<or> opc s = Reading"
  using assms by (cases "wpc s"; cases "opc s") (simp_all add: starting_def calm_defs)

lemma owner_helps:
  assumes "calm_ok s" and "starting s" and "wpc s \<in> {Entering, Testing, InTurn}"
  shows "\<exists>s'. owner_step s s' \<and> start_left s' < start_left s"
  using owner_awake [OF assms]
proof (elim disjE conjE)
  assume "opc s = SemWaiting" and "sem s"
  from started [OF this] show ?thesis
    by (intro exI conjI) (assumption, simp add: start_left_def \<open>opc s = SemWaiting\<close>)
next
  assume "opc s = Checking" and "published s"
  from satisfied [OF this] show ?thesis
    by (intro exI conjI) (assumption, simp add: start_left_def \<open>opc s = Checking\<close>)
next
  assume "opc s = Reading"
  from read [OF this] show ?thesis
    by (intro exI conjI) (assumption, simp add: start_left_def \<open>opc s = Reading\<close>)
qed

lemma prologue_enabled:
  "wpc s \<in> {Posting, Constructing, CallingBack, Publishing, Notifying} \<Longrightarrow> \<exists>s'. worker_step s s'"
  by (elim insertE emptyE) (rule exI, erule worker_step.intros)+

lemma worker_where:
  "calm_ok s \<Longrightarrow> starting s \<Longrightarrow>
    wpc s \<in> {Posting, Constructing, CallingBack, Publishing, Notifying} \<or> wpc s \<in> {Entering, Testing, InTurn}"
  by (cases "wpc s"; cases "opc s") (simp_all add: starting_def calm_defs)

lemma worker_helps:
  assumes "calm_ok s" and "starting s" and "wpc s \<notin> {Entering, Testing, InTurn}"
  shows "\<exists>s'. worker_step s s' \<and> start_left s' < start_left s"
proof -
  obtain s' where s': "worker_step s s'"
    using prologue_enabled worker_where [OF assms(1,2)] assms(3) by blast
  then have "start_left s' < start_left s"
    using start_left_worker [OF s' assms(1,2)] assms(3) by simp
  with s' show ?thesis by blast
qed

subsection \<open>The join\<close>

lemma worker_moves: "worker_step s s' \<Longrightarrow> wpc s' \<noteq> wpc s"
  by (elim worker_stepE) simp_all

lemma farewell_step:
  assumes "together False oth s s'" and "opc s = Joining" and "quitReq s"
    and "wpc s \<in> {InTurn, Testing, Clearing, Destructing}"
  shows "quitReq s' \<and> opc s' = Joining \<and> farewell_left (wpc s') \<le> farewell_left (wpc s) \<and>
    (worker_step s s' \<longrightarrow> farewell_left (wpc s') < farewell_left (wpc s)) \<and>
    wpc s' \<in> {InTurn, Testing, Clearing, Destructing, Finished}"
  using assms(1)
proof (cases rule: together.cases)
  case by_worker
  then show ?thesis using assms(2-4) by (elim worker_stepE) simp_all
next
  case by_owner
  then show ?thesis using assms(2-4) by (elim owner_stepE) simp_all
next
  case by_other
  then show ?thesis using assms(2-4) by (elim other_stepE) (auto dest: worker_moves)
qed simp

subsection \<open>One run\<close>

lemma arrives_worker: "arrives exc oth s0 s \<Longrightarrow> worker_step s s' \<Longrightarrow> arrives exc oth s0 s'"
  and arrives_owner: "arrives exc oth s0 s \<Longrightarrow> owner_step s s' \<Longrightarrow> arrives exc oth s0 s'"
  by (blast intro: further by_worker by_owner)+

text \<open>\<open>startLoop\<close> has returned and the worker has not called \<open>loop()\<close>.\<close>

definition served :: handshake where
  "served = before_start\<lparr>wpc := Entering, opc := Serving, published := True, alive := True, returned := Some True\<rparr>"

lemma arrives_served: "arrives False False before_start served"
proof -
  let ?s = before_start
  have "arrives False False ?s (?s\<lparr>opc := SemWaiting, wpc := Posting\<rparr>)"
    by (rule arrives_owner [OF here spawn]) (simp add: before_start_def)
  from arrives_worker [OF this post]
  have "arrives False False ?s (?s\<lparr>wpc := Constructing, opc := SemWaiting, sem := True\<rparr>)" by (simp add: before_start_def)
  from arrives_owner [OF this started]
  have "arrives False False ?s (?s\<lparr>wpc := Constructing, opc := Checking, sem := False\<rparr>)" by (simp add: before_start_def)
  from arrives_worker [OF this build]
  have "arrives False False ?s (?s\<lparr>wpc := CallingBack, opc := Checking, sem := False, alive := True, quitReq := False\<rparr>)"
    by (simp add: before_start_def)
  from arrives_worker [OF this called]
  have "arrives False False ?s (?s\<lparr>wpc := Publishing, opc := Checking, sem := False, alive := True, quitReq := False\<rparr>)"
    by (simp add: before_start_def)
  from arrives_worker [OF this publish]
  have "arrives False False ?s (?s\<lparr>wpc := Notifying, opc := Checking, sem := False, published := True, alive := True,
      quitReq := False\<rparr>)" by (simp add: before_start_def)
  from arrives_worker [OF this notify]
  have "arrives False False ?s (?s\<lparr>wpc := Entering, opc := Checking, sem := False, published := True, alive := True,
      quitReq := False\<rparr>)" by (simp add: before_start_def)
  from arrives_owner [OF this satisfied]
  have "arrives False False ?s (?s\<lparr>wpc := Entering, opc := Reading, sem := False, published := True, alive := True,
      quitReq := False\<rparr>)" by (simp add: before_start_def)
  from arrives_owner [OF this read]
  show ?thesis by (simp add: served_def before_start_def)
qed

text \<open>The destructor, from there or after the worker has entered \<open>loop()\<close>: up to the store of the flag, and up to the join.\<close>

lemma arrives_quitting:
  assumes "arrives exc oth s0 s" and "opc s = Serving" and "published s"
  shows "arrives exc oth s0 (s\<lparr>exitingFlag := True, opc := Quitting\<rparr>)"
proof -
  have "arrives exc oth s0 (s\<lparr>opc := Loading, exitingFlag := True\<rparr>)"
    using arrives_owner [OF assms(1) delete] assms(2) by simp
  from arrives_owner [OF this load] show ?thesis by (simp add: assms(3))
qed

lemma arrives_asked:
  assumes "arrives exc oth s0 s" and "opc s = Asking"
  shows "arrives exc oth s0 (s\<lparr>opc := Joining, misused := misused s \<or> \<not> alive s\<rparr>)"
  using arrives_owner [OF arrives_owner [OF assms(1) ask_thread] wake_loop] assms(2) by simp

lemma arrives_joining:
  assumes "arrives False False s0 s" and "opc s = Serving" and "published s" and "alive s" and "\<not> misused s"
  shows "arrives False False s0 (s\<lparr>exitingFlag := True, quitReq := True, opc := Joining, misused := False\<rparr>)"
proof -
  from arrives_owner [OF arrives_quitting [OF assms(1-3)] store_quit]
  have "arrives False False s0 (s\<lparr>exitingFlag := True, opc := Asking, quitReq := True, misused := False\<rparr>)"
    by (simp add: assms(4,5))
  from arrives_asked [OF this] show ?thesis by (simp add: assms(4))
qed

text \<open>The worker, once its flag is set, up to its end.\<close>

lemma arrives_finished:
  assumes "arrives exc oth s0 s" and "wpc s \<in> {Testing, InTurn}" and "quitReq s"
  shows "arrives exc oth s0 (s\<lparr>published := False, wpc := Finished, alive := False\<rparr>)"
proof -
  have "arrives exc oth s0 (s\<lparr>wpc := Testing\<rparr>)"
    using assms(2) arrives_worker [OF assms(1) turn] assms(1) by (cases "wpc s = InTurn") (cases s; simp)+
  from arrives_worker [OF this leave] have "arrives exc oth s0 (s\<lparr>wpc := Clearing\<rparr>)" by (simp add: assms(3))
  from arrives_worker [OF this clear] have "arrives exc oth s0 (s\<lparr>wpc := Destructing, published := False\<rparr>)" by simp
  from arrives_worker [OF this destruct] show ?thesis by simp
qed

text \<open>From the store of the flag on, with the worker in \<open>loop()\<close>: either thread may be through first.\<close>

lemma arrives_gone:
  assumes s: "opc s = Asking" "wpc s \<in> {Testing, InTurn}" "quitReq s" "alive s" "\<not> misused s"
  shows "\<exists>t. arrives exc oth s t \<and> opc t = Gone \<and> misused t" and "\<exists>t. arrives exc oth s t \<and> opc t = Gone \<and> \<not> misused t"
proof -
  from arrives_asked [OF arrives_finished [OF here s(2,3)]] s(1)
  have "arrives exc oth s (s\<lparr>published := False, wpc := Finished, alive := False, opc := Joining, misused := True\<rparr>)" by simp
  from arrives_owner [OF this join] show "\<exists>t. arrives exc oth s t \<and> opc t = Gone \<and> misused t"
    by (intro exI conjI) (assumption | simp)+
  from arrives_finished [OF arrives_asked [OF here s(1)]] s
  have "arrives exc oth s (s\<lparr>opc := Joining, misused := False, published := False, wpc := Finished, alive := False\<rparr>)" by simp
  from arrives_owner [OF this join] show "\<exists>t. arrives exc oth s t \<and> opc t = Gone \<and> \<not> misused t"
    by (intro exI conjI) (assumption | simp)+
qed

text \<open>
  A flag that was set too early: the worker has still to clear it, or has cleared it, and the owner will not set it
  again.
\<close>

definition lost_quit :: "handshake \<Rightarrow> bool" where
  "lost_quit s \<longleftrightarrow> opc s \<in> {Asking, Waking, Joining} \<and>
     (wpc s \<in> {Notifying, Entering} \<or> wpc s \<in> {Testing, InTurn} \<and> \<not> quitReq s)"

lemma lost_quit_step: "together False False s s' \<Longrightarrow> lost_quit s \<Longrightarrow> lost_quit s'"
  by (elim togetherE worker_stepE owner_stepE) (simp_all add: lost_quit_def, auto)

lemma lost_quit_stays: "arrives False False s s' \<Longrightarrow> lost_quit s \<Longrightarrow> lost_quit s'"
  by (induction rule: arrives.induct) (simp_all add: lost_quit_step)

text \<open>
  A worker whose initialisation callback has thrown: it will never publish, and the owner, who is in \<open>startLoop\<close>, waits
  for that.
\<close>

definition unborn_wait :: "handshake \<Rightarrow> bool" where
  "unborn_wait s \<longleftrightarrow> (wpc s \<in> {Posting, Constructing, CallingBack, Publishing} \<longrightarrow> opc s \<in> {SemWaiting, Checking, Asleep})"

lemma unborn_wait_worker: "worker_step s s' \<Longrightarrow> unborn_wait s \<Longrightarrow> unborn_wait s'"
  by (elim worker_stepE; cases "opc s") (simp_all add: unborn_wait_def)

lemma unborn_wait_owner: "owner_step s s' \<Longrightarrow> phases_ok s \<Longrightarrow> unborn_wait s \<Longrightarrow> unborn_wait s'"
  by (elim owner_stepE; cases "wpc s") (simp_all add: unborn_wait_def phases_ok_def)

lemma unborn_wait_step: "together exc oth s s' \<Longrightarrow> phases_ok s \<Longrightarrow> unborn_wait s \<Longrightarrow> unborn_wait s'"
  by (elim togetherE)
    (simp_all add: unborn_wait_worker unborn_wait_owner, (elim worker_throwE other_stepE; simp add: unborn_wait_def)+)

lemma unborn_wait_arrives: "arrives exc oth before_start s \<Longrightarrow> phases_ok s \<and> unborn_wait s"
proof (induction rule: arrives.induct)
  case here
  then show ?case by (simp add: before_start_def phases_ok_def unborn_wait_def)
next
  case (further s s')
  with unborn_wait_step phases_step show ?case by blast
qed

definition hung_start :: "handshake \<Rightarrow> bool" where
  "hung_start s \<longleftrightarrow> wpc s \<in> {Catching, Finished} \<and> \<not> published s \<and> opc s \<in> {SemWaiting, Checking, Asleep}"

lemma hung_start_step: "together exc oth s s' \<Longrightarrow> hung_start s \<Longrightarrow> hung_start s'"
  by (elim togetherE worker_stepE owner_stepE worker_throwE other_stepE) (simp_all add: hung_start_def, auto)

lemma hung_start_stays: "arrives exc oth s s' \<Longrightarrow> hung_start s \<Longrightarrow> hung_start s'"
  by (induction rule: arrives.induct) (simp_all add: hung_start_step)

subsection \<open>What startLoop and the destructor promise\<close>

text \<open>
  C11. While nothing throws and nobody but the owner quits the loop: when \<open>startLoop\<close> has returned, it returned a
  loop (never null), and until the destructor starts that loop exists on the worker's stack and its flag is clear.
  When the destructor stores the quit flag, the loop still exists. A loop that is gone can only be touched after
  that store, by the rest of \<open>quit\<close>, and only if the worker has come to its end meanwhile. This holds in every
  interleaving, spurious wakeups included.
\<close>

theorem startLoop_returns_live_loop:
  assumes "arrives False False before_start s"
  shows "(opc s = Serving \<longrightarrow> returned s = Some True \<and> alive s \<and> published s \<and> \<not> quitReq s) \<and>
    returned s \<noteq> Some False \<and> (opc s = Quitting \<longrightarrow> alive s) \<and>
    (misused s \<longrightarrow> opc s \<in> {Waking, Joining, Gone} \<and> wpc s = Finished)"
  using calm_arrives [OF assms] by (cases "wpc s") (auto simp: calm_defs)

theorem startLoop_returns_live_loop_witness:
  "\<exists>s. arrives False False before_start s \<and> opc s = Serving \<and> returned s = Some True \<and> alive s \<and> published s \<and> \<not> quitReq s"
  using startLoop_returns_live_loop [OF arrives_served] arrives_served
  by (intro exI [of _ served]) (simp add: served_def)

text \<open>
  C12. \<open>startLoop\<close> returns. While the owner is in it, some step brings it nearer to its return: a step of the
  worker while the worker has not published and notified, else a step of the owner. Every step of either lowers
  the measure, except a spurious wakeup and the turns the worker takes meanwhile, and in those turns the owner
  can step. So it waits for ever only if the scheduler starves a thread or wakes it spuriously without end.
\<close>

theorem startLoop_progress:
  assumes "arrives False False before_start s" and "opc s \<in> {SemWaiting, Checking, Asleep, Reading}"
  shows "(if wpc s \<in> {Entering, Testing, InTurn} then \<exists>s'. owner_step s s' \<and> start_left s' < start_left s
      else \<exists>s'. worker_step s s' \<and> start_left s' < start_left s) \<and>
    (\<forall>s'. together False False s s' \<longrightarrow> start_left s' < start_left s \<or>
      opc s = Asleep \<and> s' = s\<lparr>opc := Checking\<rparr> \<or>
      worker_step s s' \<and> start_left s' = start_left s \<and> wpc s \<in> {Entering, Testing, InTurn})"
proof -
  have calm: "calm_ok s" and st: "starting s"
    using calm_arrives assms by (simp_all add: starting_def)
  show ?thesis
    using owner_helps [OF calm st] worker_helps [OF calm st] start_left_worker [OF _ calm st]
      start_left_owner [OF _ st]
    by (auto elim!: togetherE)
qed

theorem startLoop_progress_witness:
  "\<exists>s s'. arrives False False before_start s \<and> opc s = SemWaiting \<and> worker_step s s' \<and> start_left s' < start_left s"
proof -
  let ?s = "before_start\<lparr>opc := SemWaiting, wpc := Posting\<rparr>"
  have "arrives False False before_start ?s"
    by (rule arrives_owner [OF here spawn]) (simp add: before_start_def)
  moreover from this obtain s' where "worker_step ?s s' \<and> start_left s' < start_left ?s"
    using startLoop_progress [of ?s] by auto
  ultimately show ?thesis by (intro exI [of _ ?s] exI [of _ s']) simp
qed

text \<open>
  C35. The destructor returns when it comes late enough: once the worker is in \<open>loop()\<close>, the flag is set and the
  owner joins, the flag stays set, no step takes the worker back, the worker can always step, each of its steps
  lowers the measure, and when it is through, the owner can return.
\<close>

theorem join_returns:
  assumes "opc s = Joining" and "quitReq s" and "wpc s \<in> {InTurn, Testing, Clearing, Destructing, Finished}"
  shows "if wpc s = Finished then \<exists>s'. owner_step s s' \<and> opc s' = Gone
    else (\<exists>s'. worker_step s s') \<and> (\<forall>s'. together False oth s s' \<longrightarrow>
      quitReq s' \<and> opc s' = Joining \<and> wpc s' \<in> {InTurn, Testing, Clearing, Destructing, Finished} \<and>
      farewell_left (wpc s') \<le> farewell_left (wpc s) \<and>
      (worker_step s s' \<longrightarrow> farewell_left (wpc s') < farewell_left (wpc s)))"
proof (cases "wpc s = Finished")
  case True
  from join [OF assms(1) this] True show ?thesis by (simp del: ex_simps) (intro exI conjI, assumption, simp)
next
  case False
  with assms(3) have w: "wpc s \<in> {InTurn, Testing, Clearing, Destructing}" by auto
  have "\<exists>s'. worker_step s s'"
    using w assms(2) by (elim insertE emptyE) (rule exI, erule worker_step.intros, simp?)+
  with False farewell_step [OF _ assms(1,2) w] show ?thesis by auto
qed

theorem join_returns_witness:
  "\<exists>s. arrives False False before_start s \<and> opc s = Joining \<and> quitReq s \<and> (\<exists>s'. worker_step s s')"
proof -
  have "arrives False False before_start (served\<lparr>wpc := Testing, quitReq := False\<rparr>)"
    by (rule arrives_worker [OF arrives_served enter]) (simp add: served_def)
  from arrives_joining [OF this]
  have 1: "arrives False False before_start (served\<lparr>wpc := Testing, opc := Joining, exitingFlag := True, quitReq := True\<rparr>)"
      (is "arrives _ _ _ ?s")
    by (simp add: served_def before_start_def)
  have "\<exists>s'. worker_step ?s s'" using join_returns [of ?s False] by simp
  with 1 show ?thesis by (intro exI [of _ ?s]) simp
qed

text \<open>
  C34. It can come too early. \<open>startLoop\<close> returns as soon as the pointer is published, before the worker calls
  \<open>loop()\<close>, and \<open>loop()\<close> clears the flag. Take any reachable state in which the destructor stores the quit flag, while
  nothing throws and nobody else quits the loop: from there it can return exactly if the worker is in \<open>loop()\<close> already, past
  the store that clears the flag. If it is not, the destructor stays in \<open>quit\<close> or in \<open>join\<close> for ever, whatever the
  two threads do.
\<close>

theorem early_destructor_hangs:
  assumes "arrives False False before_start s" and "opc s = Quitting" and "owner_step s s'"
  shows "((\<exists>t. arrives False False s' t \<and> opc t = Gone) \<longleftrightarrow> wpc s \<in> {Testing, InTurn}) \<and>
    (wpc s \<notin> {Testing, InTurn} \<longrightarrow> (\<forall>t. arrives False False s' t \<longrightarrow> opc t \<in> {Asking, Waking, Joining}))"
proof -
  from assms(2,3) have s': "s' = s\<lparr>opc := Asking, quitReq := True, misused := misused s \<or> \<not> alive s\<rparr>"
    by (elim owner_stepE) auto
  from calm_arrives [OF assms(1)] assms(2) have w: "wpc s \<in> {Notifying, Entering} \<or> wpc s \<in> {Testing, InTurn}" "alive s" "\<not> misused s"
    by (cases "wpc s"; simp add: calm_defs; blast)+
  show ?thesis
  proof (cases "wpc s \<in> {Testing, InTurn}")
    case True
    have "\<exists>t. arrives False False s' t \<and> opc t = Gone \<and> \<not> misused t"
      by (rule arrives_gone(2)) (use True w s' in simp_all)
    with True show ?thesis by blast
  next
    case False
    with w(1) s' have "lost_quit s'" by (auto simp: lost_quit_def)
    then have "opc t \<in> {Asking, Waking, Joining}" if "arrives False False s' t" for t
      using lost_quit_stays [OF that] by (simp add: lost_quit_def)
    with False show ?thesis by fastforce
  qed
qed

text \<open>Right after \<open>startLoop\<close> has returned, and after the worker has entered the loop.\<close>

lemma quitting_reachable:
  "arrives False False before_start (served\<lparr>exitingFlag := True, opc := Quitting\<rparr>)"
  "arrives False False before_start (served\<lparr>wpc := Testing, exitingFlag := True, opc := Quitting\<rparr>)"
proof -
  show "arrives False False before_start (served\<lparr>exitingFlag := True, opc := Quitting\<rparr>)"
    by (rule arrives_quitting [OF arrives_served]) (simp_all add: served_def)
  have "arrives False False before_start (served\<lparr>wpc := Testing\<rparr>)"
    using arrives_worker [OF arrives_served enter] by (simp add: served_def before_start_def)
  from arrives_quitting [OF this]
  show "arrives False False before_start (served\<lparr>wpc := Testing, exitingFlag := True, opc := Quitting\<rparr>)" by (simp add: served_def)
qed

theorem early_destructor_hangs_witness:
  "\<exists>s s'. arrives False False before_start s \<and> returned s = Some True \<and> owner_step s s' \<and> opc s' = Asking \<and> quitReq s' \<and>
    \<not> (\<exists>t. arrives False False s' t \<and> opc t = Gone)"
proof -
  let ?s = "served\<lparr>exitingFlag := True, opc := Quitting\<rparr>" and ?s' = "served\<lparr>exitingFlag := True, opc := Asking, quitReq := True\<rparr>"
  have step: "owner_step ?s ?s'" using store_quit [of ?s] by (simp add: served_def before_start_def)
  from early_destructor_hangs [OF quitting_reachable(1) _ step] have "\<not> (\<exists>t. arrives False False ?s' t \<and> opc t = Gone)"
    by (simp add: served_def)
  with quitting_reachable(1) step show ?thesis
    by (intro exI [of _ ?s] exI [of _ ?s'] conjI) (simp_all add: served_def)
qed

text \<open>
  C22. And when it comes late enough, it is a race. \<open>quit\<close> stores the flag and then goes on using the loop, to ask
  for its thread and to write its eventfd; but the flag is all that the worker waits for, and the loop is on the worker's
  stack. From every reachable state in which the destructor stores the flag of a worker that is in \<open>loop()\<close>, two ends can be reached:
  the destructor returns having used the loop only while it existed, or it returns having used a loop that was gone.
\<close>

theorem destructor_quit_races:
  assumes "arrives False False before_start s" and "opc s = Quitting" and "wpc s \<in> {Testing, InTurn}" and "owner_step s s'"
  shows "\<not> misused s' \<and> (\<exists>t. arrives False False s' t \<and> opc t = Gone \<and> misused t) \<and>
    (\<exists>t. arrives False False s' t \<and> opc t = Gone \<and> \<not> misused t)"
proof -
  from assms(2,4) have s': "s' = s\<lparr>opc := Asking, quitReq := True, misused := misused s \<or> \<not> alive s\<rparr>"
    by (elim owner_stepE) auto
  from calm_arrives [OF assms(1)] assms(2,3) have "alive s" "\<not> misused s" by (auto simp: calm_defs)
  with assms(3) s' have h: "opc s' = Asking" "wpc s' \<in> {Testing, InTurn}" "quitReq s'" "alive s'" "\<not> misused s'" by simp_all
  from h(5) arrives_gone [OF h] show ?thesis by blast
qed

theorem destructor_quit_races_witness:
  "\<exists>s t. arrives False False before_start s \<and> opc s = Quitting \<and> alive s \<and> arrives False False s t \<and> opc t = Gone \<and> misused t"
proof -
  let ?s = "served\<lparr>wpc := Testing, exitingFlag := True, opc := Quitting\<rparr>"
  have step: "owner_step ?s (?s\<lparr>opc := Asking, quitReq := True\<rparr>)" (is "owner_step _ ?s'")
    using store_quit [of ?s] by (simp add: served_def before_start_def)
  from destructor_quit_races [OF quitting_reachable(2) _ _ step] obtain t where
    t: "arrives False False ?s' t" "opc t = Gone" "misused t" by (auto simp: served_def)
  have "arrives False False ?s u" if "arrives False False ?s' u" for u
    using that by (induction rule: arrives.induct) (blast intro: arrives_owner [OF here step], blast intro: further)
  with t quitting_reachable(2) show ?thesis
    by (intro exI [of _ ?s] exI [of _ t]) (simp add: served_def)
qed

text \<open>
  C36. An exception of the initialisation callback makes \<open>startLoop\<close>, and with it \<open>EventLoopThreadPool::start\<close> and
  \<open>TcpServer::start\<close>, wait for ever. The handlers of \<open>threadFunc\<close> set \<open>exiting_\<close>, but they neither publish a
  loop nor notify, and the predicate of the wait asks for \<open>loop_\<close> only. From the exception on, in every interleaving,
  spurious wakeups, further exceptions and other callers of \<open>quit\<close> included, the owner stays between \<open>sem_wait\<close>
  and the wait.
\<close>

theorem startLoop_waits_after_exception:
  assumes "arrives exc oth before_start s" and "wpc s = CallingBack" and "worker_throw s s'" and "arrives exc' oth' s' t"
  shows "opc t \<in> {SemWaiting, Checking, Asleep} \<and> \<not> published t \<and> \<not> alive t"
proof -
  from assms(2,3) have s': "s' = s\<lparr>wpc := Catching, alive := False\<rparr>" by (elim worker_throwE) auto
  from unborn_wait_arrives [OF assms(1)] assms(2) have "hung_start s'"
    by (auto simp: s' hung_start_def unborn_wait_def phases_ok_def)
  from hung_start_stays [OF assms(4) this] have t: "hung_start t" .
  have "\<not> alive t" using assms(4)
  proof (induction rule: arrives.induct)
    case here
    then show ?case by (simp add: s')
  next
    case (further u u')
    from hung_start_stays [OF further(1) \<open>hung_start s'\<close>] further(2,3) show ?case
      by (elim togetherE worker_stepE owner_stepE worker_throwE other_stepE) (auto simp: hung_start_def)
  qed
  with t show ?thesis by (simp add: hung_start_def)
qed

theorem startLoop_waits_after_exception_witness:
  "\<exists>s s'. arrives True False before_start s \<and> worker_throw s s' \<and> exitingFlag s' = False \<and>
    (\<forall>t. arrives True True s' t \<longrightarrow> opc t \<in> {SemWaiting, Checking, Asleep})"
proof -
  let ?b = before_start
  have "arrives True False ?b (?b\<lparr>opc := SemWaiting, wpc := Posting\<rparr>)"
    by (rule arrives_owner [OF here spawn]) (simp add: before_start_def)
  from arrives_worker [OF this post]
  have "arrives True False ?b (?b\<lparr>wpc := Constructing, opc := SemWaiting, sem := True\<rparr>)" by (simp add: before_start_def)
  from arrives_worker [OF this build]
  have s: "arrives True False ?b (?b\<lparr>wpc := CallingBack, opc := SemWaiting, sem := True, alive := True\<rparr>)" (is "arrives _ _ _ ?s")
    by (simp add: before_start_def)
  have th: "worker_throw ?s (?s\<lparr>wpc := Catching, alive := False\<rparr>)" (is "worker_throw _ ?s'")
    by (rule throw) simp
  from startLoop_waits_after_exception [OF s _ th] have "\<forall>t. arrives True True ?s' t \<longrightarrow> opc t \<in> {SemWaiting, Checking, Asleep}"
    by simp
  with s th show ?thesis by (intro exI [of _ ?s] exI [of _ ?s'] conjI) (simp_all add: before_start_def)
qed

end
