(* ===== verification/Server.thy ===== *)
theory Server
  imports ThreadPool
begin

text \<open>
  \<open>Acceptor\<close>, the operations of \<open>Socket.hpp\<close> it uses, and \<open>TcpServer.hpp\<close>. A process has one server and
  one acceptor. The map of connections is an association list in the order of insertion; where the code
  iterates over the hash map, the order is an argument. A connection is freed with \<open>destroy_connection\<close> when the last
  \<open>shared_ptr\<close> goes; when that is, theory \<open>Lifetime\<close> says.
\<close>

record acceptor =
  aLoop :: lid
  aSock :: fd
  aChan :: cid
  newConnectionSet :: bool \<comment> \<open>\<open>NewConnectionCallback_\<close> is the server's lambda\<close>
  listenning :: bool

record tcp_server =
  sLoop :: lid
  ipPort :: string
  sName :: string
  threadPool :: pool
  nextConnId :: uint32
  started :: bool
  connections :: "(string \<times> conn) list"
  threadInitCallback :: "nat option"
  connectionCallback :: "nat option"
  messageCallback :: "nat option"
  writeCompleteCallback :: "nat option"

record 'k server_world = "'k pool_world" +
  theAcceptor :: "acceptor option"
  theServer :: "tcp_server option"

definition with_acceptor :: "('k, 'z) server_world_scheme \<Rightarrow> (acceptor \<Rightarrow> 'a result) \<Rightarrow> 'a result" where
  "with_acceptor w f = (case theAcceptor w of None \<Rightarrow> Inl Undefined | Some a \<Rightarrow> f a)"

definition with_server :: "('k, 'z) server_world_scheme \<Rightarrow> (tcp_server \<Rightarrow> 'a result) \<Rightarrow> 'a result" where
  "with_server w f = (case theServer w of None \<Rightarrow> Inl Undefined | Some s \<Rightarrow> f s)"

definition put_server :: "tcp_server \<Rightarrow> ('k, 'z) server_world_scheme \<Rightarrow> ('k, 'z) server_world_scheme" where
  "put_server s w = w\<lparr>theServer := Some s\<rparr>"

subsection \<open>Socket\<close>

definition bindAddress :: "'k os \<Rightarrow> sockaddr \<Rightarrow> fd \<Rightarrow> ('k, 'z) chan_world_scheme \<Rightarrow> ('k, 'z) chan_world_scheme result" where
  "bindAddress os a f w =
     (case sys_bind os f a (kern w) of
        (None, k) \<Rightarrow> Inr (w\<lparr>kern := k\<rparr>)
      | (Some e, k) \<Rightarrow> Inl ExitFailure)"

definition kBacklog :: int where "kBacklog = 1024"

definition socket_listen :: "'k os \<Rightarrow> fd \<Rightarrow> ('k, 'z) chan_world_scheme \<Rightarrow> ('k, 'z) chan_world_scheme result" where
  "socket_listen os f w =
     (case sys_listen os f kBacklog (kern w) of
        (None, k) \<Rightarrow> Inr (w\<lparr>kern := k\<rparr>)
      | (Some e, k) \<Rightarrow> Inl ExitFailure)"

definition socket_accept :: "'k os \<Rightarrow> fd \<Rightarrow> ('k, 'z) chan_world_scheme \<Rightarrow>
    (errno + fd \<times> sockaddr) \<times> ('k, 'z) chan_world_scheme" where
  "socket_accept os f w = (let (r, k) = sys_accept os f (kern w) in (r, w\<lparr>kern := k\<rparr>))"

text \<open>\<open>~Socket\<close>\<close>

definition close_socket :: "'k os \<Rightarrow> fd \<Rightarrow> ('k, 'z) chan_world_scheme \<Rightarrow> ('k, 'z) chan_world_scheme" where
  "close_socket os f w = (if f \<ge> 0 then w\<lparr>kern := sys_close os f (kern w)\<rparr> else w)"

text \<open>Moving a socket: \<open>release()\<close> leaves \<open>-1\<close> behind, \<open>reset(fd)\<close> closes the old descriptor.\<close>

definition socket_release :: "fd \<Rightarrow> fd \<times> fd" where
  "socket_release f = (f, - 1)"

definition socket_reset :: "'k os \<Rightarrow> fd \<Rightarrow> fd \<Rightarrow> ('k, 'z) chan_world_scheme \<Rightarrow> fd \<times> ('k, 'z) chan_world_scheme" where
  "socket_reset os new f w = (new, if f \<ge> 0 then w\<lparr>kern := sys_close os f (kern w)\<rparr> else w)"

text \<open>\<open>a = std::move(b)\<close>: the new descriptors of both, and the state.\<close>

definition socket_move :: "'k os \<Rightarrow> fd \<Rightarrow> fd \<Rightarrow> ('k, 'z) chan_world_scheme \<Rightarrow> fd \<times> fd \<times> ('k, 'z) chan_world_scheme" where
  "socket_move os a b w = (let (f, b') = socket_release b; (a', w') = socket_reset os f a w in (a', b', w'))"

subsection \<open>Acceptor\<close>

definition createNonblocking :: "'k os \<Rightarrow> ('k, 'z) chan_world_scheme \<Rightarrow> (fd \<times> ('k, 'z) chan_world_scheme) result" where
  "createNonblocking os w =
     (case sys_socket os (kern w) of
        (Inl e, k) \<Rightarrow> Inl ExitFailure
      | (Inr f, k) \<Rightarrow> Inr (f, w\<lparr>kern := k\<rparr>))"

definition new_acceptor :: "'k os \<Rightarrow> cid \<Rightarrow> lid \<Rightarrow> sockaddr \<Rightarrow> bool \<Rightarrow> ('k, 'z) server_world_scheme \<Rightarrow>
    ('k, 'z) server_world_scheme result" where
  "new_acceptor os c l listenAddr reuseport w =
     andThen (createNonblocking os w) (\<lambda>(f, w).
     let w = put_channel c (new_channel l f) (w\<lparr>theAcceptor := Some \<lparr>aLoop = l, aSock = f, aChan = c,
               newConnectionSet = False, listenning = False\<rparr>\<rparr>);
         w = setOption os ReusePort reuseport f (setOption os ReuseAddr True f w)
     in andThen (bindAddress os listenAddr f w) (modify_channel c (setReadCallback AcceptorHandleRead)))"

definition destroy_acceptor :: "'k os \<Rightarrow> ('k, 'z) server_world_scheme \<Rightarrow> ('k, 'z) server_world_scheme result" where
  "destroy_acceptor os w =
     with_acceptor w (\<lambda>a.
     andThen (disableAll os (aChan a) w) (\<lambda>w.
     andThen (channel_remove os (aChan a) w) (\<lambda>w.
       Inr (close_socket os (aSock a) (w\<lparr>chans := (chans w)(aChan a := None), theAcceptor := None\<rparr>)))))"

definition setNewConnectionCallback :: "acceptor \<Rightarrow> acceptor" where
  "setNewConnectionCallback a = a\<lparr>newConnectionSet := True\<rparr>"

definition acceptor_listen :: "'k os \<Rightarrow> ('k, 'z) server_world_scheme \<Rightarrow> ('k, 'z) server_world_scheme result" where
  "acceptor_listen os w =
     with_acceptor w (\<lambda>a.
     let w = w\<lparr>theAcceptor := Some (a\<lparr>listenning := True\<rparr>)\<rparr> in
     andThen (socket_listen os (aSock a) w) (enableReading os (aChan a)))"

text \<open>Both arms of the \<open>switch\<close> are LOG_FATAL, so the code after it does not run.\<close>

definition handleAcceptError :: "errno \<Rightarrow> ('k, 'z) server_world_scheme \<Rightarrow> ('k, 'z) server_world_scheme result" where
  "handleAcceptError e w = Inl ExitFailure"

definition acceptor_handleRead :: "'k os \<Rightarrow>
    (fd \<Rightarrow> sockaddr \<Rightarrow> ('k, 'z) server_world_scheme \<Rightarrow> ('k, 'z) server_world_scheme result) \<Rightarrow>
    ('k, 'z) server_world_scheme \<Rightarrow> ('k, 'z) server_world_scheme result" where
  "acceptor_handleRead os newConn w =
     with_acceptor w (\<lambda>a.
       case socket_accept os (aSock a) w of
         (Inr (f, peer), w) \<Rightarrow>
           if newConnectionSet a then newConn f peer w
           else Inr (w\<lparr>kern := sys_close os f (kern w)\<rparr>)
       | (Inl e, w) \<Rightarrow> handleAcceptError e w)"

subsection \<open>TcpServer\<close>

datatype reuse_option = kNoReusePort | kReusePort

definition new_server :: "'k os \<Rightarrow> (32 word \<Rightarrow> string option) \<Rightarrow> cid \<Rightarrow> lid \<Rightarrow> sockaddr \<Rightarrow> string \<Rightarrow> reuse_option \<Rightarrow>
    ('k, 'z) server_world_scheme \<Rightarrow> ('k, 'z) server_world_scheme result" where
  "new_server os ntop c l listenAddr name opt w =
     andThen (new_acceptor os c l listenAddr (opt = kReusePort) w) (\<lambda>w.
     let s = \<lparr>sLoop = l, ipPort = toIpPort ntop listenAddr, sName = name, threadPool = new_pool l name,
           nextConnId = 1, started = False, connections = [], threadInitCallback = None,
           connectionCallback = None, messageCallback = None, writeCompleteCallback = None\<rparr>
     in with_acceptor w (\<lambda>a. Inr (put_server s (w\<lparr>theAcceptor := Some (setNewConnectionCallback a)\<rparr>))))"

text \<open>\<open>setThreadNum(size_t)\<close> passes its argument on as an \<open>int\<close>.\<close>

definition server_setThreadNum :: "size_t \<Rightarrow> tcp_server \<Rightarrow> tcp_server" where
  "server_setThreadNum n s = s\<lparr>threadPool := setThreadNum (sint (ucast n :: 32 word)) (threadPool s)\<rparr>"

definition setThreadInitCallback :: "nat option \<Rightarrow> tcp_server \<Rightarrow> tcp_server" where
  "setThreadInitCallback cb s = s\<lparr>threadInitCallback := cb\<rparr>"

definition server_setConnectionCallback :: "nat option \<Rightarrow> tcp_server \<Rightarrow> tcp_server" where
  "server_setConnectionCallback cb s = s\<lparr>connectionCallback := cb\<rparr>"

definition server_setMessageCallback :: "nat option \<Rightarrow> tcp_server \<Rightarrow> tcp_server" where
  "server_setMessageCallback cb s = s\<lparr>messageCallback := cb\<rparr>"

definition server_setWriteCompleteCallback :: "nat option \<Rightarrow> tcp_server \<Rightarrow> tcp_server" where
  "server_setWriteCompleteCallback cb s = s\<lparr>writeCompleteCallback := cb\<rparr>"

text \<open>\<open>started_.exchange(true)\<close>, and what \<open>start()\<close> does when it yields \<open>false\<close>.\<close>

definition exchange_started :: "tcp_server \<Rightarrow> bool \<times> tcp_server" where
  "exchange_started s = (started s, s\<lparr>started := True\<rparr>)"

definition server_launch :: "'k os \<Rightarrow> (nat \<Rightarrow> lid \<Rightarrow> ('k, 'z) server_world_scheme \<Rightarrow> ('k, 'z) server_world_scheme result) \<Rightarrow>
    (nat \<Rightarrow> tid \<times> lid \<times> cid) \<Rightarrow> tcp_server \<Rightarrow> ('k, 'z) server_world_scheme \<Rightarrow> ('k, 'z) server_world_scheme result option" where
  "server_launch os init ids s w =
     (case pool_start os init ids (threadInitCallback s) (threadPool s) w of
        None \<Rightarrow> None
      | Some (Inl e) \<Rightarrow> Some (Inl e)
      | Some (Inr (p, w)) \<Rightarrow>
          Some (runInLoop os (sLoop s) AcceptorListen (acceptor_listen os) (put_server (s\<lparr>threadPool := p\<rparr>) w)))"

definition server_start :: "'k os \<Rightarrow> (nat \<Rightarrow> lid \<Rightarrow> ('k, 'z) server_world_scheme \<Rightarrow> ('k, 'z) server_world_scheme result) \<Rightarrow>
    (nat \<Rightarrow> tid \<times> lid \<times> cid) \<Rightarrow> ('k, 'z) server_world_scheme \<Rightarrow> ('k, 'z) server_world_scheme result option" where
  "server_start os init ids w =
     (case theServer w of
        None \<Rightarrow> Some (Inl Undefined)
      | Some s \<Rightarrow>
          (let (was, s) = exchange_started s; w = put_server s w in
           if was then Some (Inr w) else server_launch os init ids s w))"

subsection \<open>Connections of the server\<close>

definition connection_name :: "tcp_server \<Rightarrow> string" where
  "connection_name s = sName s @ ''-'' @ ipPort s @ ''#'' @ decimal (unat (nextConnId s))"

text \<open>\<open>unordered_map::emplace\<close>: an entry that is there stays.\<close>

definition emplace :: "string \<Rightarrow> conn \<Rightarrow> (string \<times> conn) list \<Rightarrow> (string \<times> conn) list" where
  "emplace n i m = (if map_of m n = None then m @ [(n, i)] else m)"

text \<open>The close callback the server installs is the only one its connections have; its number is 0.\<close>

definition kRemoveConnection :: nat where "kRemoveConnection = 0"

text \<open>\<open>newConnection\<close>; \<open>i\<close> and \<open>c\<close> are the addresses of the new connection and its channel.\<close>

definition newConnection :: "'k os \<Rightarrow> ('k, 'z) server_world_scheme app \<Rightarrow> conn \<Rightarrow> cid \<Rightarrow> fd \<Rightarrow> sockaddr \<Rightarrow>
    ('k, 'z) server_world_scheme \<Rightarrow> ('k, 'z) server_world_scheme result" where
  "newConnection os app i c sockfd peer w =
     with_server w (\<lambda>s.
     let (ioLoop, p) = getNextLoop (threadPool s);
         connName = connection_name s;
         s = s\<lparr>threadPool := p, nextConnId := nextConnId s + 1\<rparr>;
         w = put_server s w
     in case sys_getsockname os sockfd (kern w) of
          (Inl e, k) \<Rightarrow> Inr (w\<lparr>kern := sys_close os sockfd k\<rparr>)
        | (Inr local, k) \<Rightarrow>
            andThen (new_connection os i c ioLoop connName sockfd local peer (w\<lparr>kern := k\<rparr>)) (\<lambda>w.
            let w = put_server (s\<lparr>connections := emplace connName i (connections s)\<rparr>) w
            in andThen (modify_conn i (\<lambda>co. conn_setCloseCallback (Some kRemoveConnection)
                   (conn_setWriteCompleteCallback (writeCompleteCallback s)
                   (conn_setMessageCallback (messageCallback s)
                   (conn_setConnectionCallback (connectionCallback s) co)))) w) (\<lambda>w.
               runInLoop os ioLoop (ConnectEstablished i) (connectEstablished os app i) w)))"

definition removeConnectionInLoop :: "'k os \<Rightarrow> conn \<Rightarrow> ('k, 'z) server_world_scheme \<Rightarrow>
    ('k, 'z) server_world_scheme result" where
  "removeConnectionInLoop os i w =
     with_server w (\<lambda>s. with_conn i w (\<lambda>co.
       if map_of (connections s) (cName co) \<noteq> None
       then queueInLoop os (cLoop co) (ConnectDestroyed i)
              (put_server (s\<lparr>connections := filter (\<lambda>(n, j). n \<noteq> cName co) (connections s)\<rparr>) w)
       else Inr w))"

definition removeConnection :: "'k os \<Rightarrow> conn \<Rightarrow> ('k, 'z) server_world_scheme \<Rightarrow>
    ('k, 'z) server_world_scheme result" where
  "removeConnection os i w =
     with_server w (\<lambda>s. runInLoop os (sLoop s) (RemoveConnectionInLoop i) (removeConnectionInLoop os i) w)"

text \<open>The application as the connections see it: their close callback is the server's.\<close>

definition server_app :: "'k os \<Rightarrow> ('k, 'z) server_world_scheme app \<Rightarrow> ('k, 'z) server_world_scheme app" where
  "server_app os app = app\<lparr>app_close := (\<lambda>h i w. removeConnection os i w)\<rparr>"

text \<open>
  The destructor: its body, then the members, last to first, of which the pool and the acceptor do
  something. \<open>order\<close> is the order in which the hash map yields the connections.
\<close>

definition destroy_pool :: "'k os \<Rightarrow> pool \<Rightarrow> ('k, 'z) pool_world_scheme \<Rightarrow> ('k, 'z) pool_world_scheme result" where
  "destroy_pool os p w =
     each (\<lambda>el w. andThen (destroy_event_loop_thread os el w) (\<lambda>(el, w). Inr w)) (threads p) w"

definition destroy_connections :: "'k os \<Rightarrow> ('k, 'z) server_world_scheme app \<Rightarrow> conn list \<Rightarrow>
    ('k, 'z) server_world_scheme \<Rightarrow> ('k, 'z) server_world_scheme result" where
  "destroy_connections os app order w =
     each (\<lambda>i w. with_conn i w (\<lambda>co.
       runInLoop os (cLoop co) (ConnectDestroyed i) (connectDestroyed os app i) w)) order w"

definition destroy_server :: "'k os \<Rightarrow> ('k, 'z) server_world_scheme app \<Rightarrow> conn list \<Rightarrow>
    ('k, 'z) server_world_scheme \<Rightarrow> ('k, 'z) server_world_scheme result" where
  "destroy_server os app order w =
     andThen (destroy_connections os app order w) (\<lambda>w.
     with_server w (\<lambda>s.
     andThen (destroy_pool os (threadPool s) w) (\<lambda>w.
     andThen (destroy_acceptor os w) (\<lambda>w. Inr (w\<lparr>theServer := None\<rparr>)))))"

subsection \<open>The callbacks and functors of all components\<close>

text \<open>\<open>fresh w\<close> is where the next connection and its channel are allocated.\<close>

definition run_callback :: "'k os \<Rightarrow> ('k, 'z) server_world_scheme app \<Rightarrow>
    (('k, 'z) server_world_scheme \<Rightarrow> conn \<times> cid) \<Rightarrow> event_cb \<Rightarrow> timestamp \<Rightarrow>
    ('k, 'z) server_world_scheme \<Rightarrow> ('k, 'z) server_world_scheme result" where
  "run_callback os app fresh =
     run_conn_callback os (server_app os app) (\<lambda>cb t.
       acceptor_handleRead os (\<lambda>f peer w. newConnection os (server_app os app) (fst (fresh w)) (snd (fresh w)) f peer w))"

definition run_functor :: "'k os \<Rightarrow> ('k, 'z) server_world_scheme app \<Rightarrow>
    (nat \<Rightarrow> ('k, 'z) server_world_scheme \<Rightarrow> ('k, 'z) server_world_scheme result) \<Rightarrow> functor_cb \<Rightarrow>
    ('k, 'z) server_world_scheme \<Rightarrow> ('k, 'z) server_world_scheme result" where
  "run_functor os app user =
     run_conn_functor os (server_app os app) (\<lambda>f w.
       case f of
         RemoveConnectionInLoop i \<Rightarrow> removeConnectionInLoop os i w
       | AcceptorListen \<Rightarrow> acceptor_listen os w
       | UserFunctor n \<Rightarrow> user n w
       | _ \<Rightarrow> Inr w)"

text \<open>One turn of a loop with everything attached.\<close>

definition server_turn :: "'k os \<Rightarrow> ('k, 'z) server_world_scheme app \<Rightarrow>
    (('k, 'z) server_world_scheme \<Rightarrow> conn \<times> cid) \<Rightarrow>
    (nat \<Rightarrow> ('k, 'z) server_world_scheme \<Rightarrow> ('k, 'z) server_world_scheme result) \<Rightarrow> lid \<Rightarrow>
    ('k, 'z) server_world_scheme \<Rightarrow> ('k, 'z) server_world_scheme result" where
  "server_turn os app fresh user l =
     loop_iteration os (\<lambda>i w. conns w i \<noteq> None) (run_callback os app fresh) (run_functor os app user) l"

end
