(* ===== verification/EchoServer.thy ===== *)
theory EchoServer
  imports Server
begin

text \<open>
  \<open>src/test.cpp\<close>: the example server. What \<open>onConnection\<close> logs is kept in the state as a list of notes,
  one for every "Connection UP" (True) and "Connection DOWN" (False), so that properties can count the
  notifications. (Line 35 of the file has a stray backquote; the model reads
  \<open>buf->retrieveAllAsString()\<close>.)
\<close>

record 'k echo_world = "'k server_world" +
  upDown :: "(conn \<times> bool) list"

definition onConnection_echo :: "conn \<Rightarrow> ('k, 'z) echo_world_scheme \<Rightarrow> ('k, 'z) echo_world_scheme result" where
  "onConnection_echo i w = with_conn i w (\<lambda>co. Inr (w\<lparr>upDown := upDown w @ [(i, connected co)]\<rparr>))"

definition onMessage_echo :: "'k os \<Rightarrow> conn \<Rightarrow> timestamp \<Rightarrow> ('k, 'z) echo_world_scheme \<Rightarrow>
    ('k, 'z) echo_world_scheme result" where
  "onMessage_echo os i t w =
     with_conn i w (\<lambda>co.
       let (msg, b) = retrieveAllAsString (inputBuffer co);
           w = put_conn i (co\<lparr>inputBuffer := b\<rparr>) w
       in andThen (send os msg i w) (shutdown os i))"

definition echo_app :: "'k os \<Rightarrow> ('k, 'z) echo_world_scheme app" where
  "echo_app os = \<lparr>app_connection = (\<lambda>h. onConnection_echo), app_message = (\<lambda>h. onMessage_echo os),
     app_writeComplete = (\<lambda>h i. Inr), app_close = (\<lambda>h i. Inr), app_highWater = (\<lambda>h i n. Inr)\<rparr>"

definition new_echo_server :: "'k os \<Rightarrow> (32 word \<Rightarrow> string option) \<Rightarrow> cid \<Rightarrow> lid \<Rightarrow> sockaddr \<Rightarrow> string \<Rightarrow>
    ('k, 'z) echo_world_scheme \<Rightarrow> ('k, 'z) echo_world_scheme result" where
  "new_echo_server os ntop c l addr name w =
     andThen (new_server os ntop c l addr name kNoReusePort w) (\<lambda>w.
     with_server w (\<lambda>s.
       Inr (put_server (server_setThreadNum 3 (server_setMessageCallback (Some 0)
         (server_setConnectionCallback (Some 0) s))) w)))"

text \<open>\<open>main\<close>: \<open>l\<close> is the base loop, \<open>c\<close> and \<open>c'\<close> its wakeup channel and the listening channel.\<close>

definition echo_main :: "'k os \<Rightarrow> (string \<Rightarrow> 32 word option) \<Rightarrow> (32 word \<Rightarrow> string option) \<Rightarrow> lid \<Rightarrow> cid \<Rightarrow> cid \<Rightarrow>
    (nat \<Rightarrow> tid \<times> lid \<times> cid) \<Rightarrow> (('k, 'z) echo_world_scheme \<Rightarrow> conn \<times> cid) \<Rightarrow>
    ('k, 'z) echo_world_scheme \<Rightarrow> ('k, 'z) echo_world_scheme result option" where
  "echo_main os pton ntop l c c' ids fresh w =
     (case andThen (new_event_loop os l c w) (\<lambda>w.
           andThen (new_address pton 8002 ''127.0.0.1'') (\<lambda>addr.
             new_echo_server os ntop c' l addr ''EchoServer01'' w)) of
        Inl e \<Rightarrow> Some (Inl e)
      | Inr w \<Rightarrow>
          (case server_start os (\<lambda>h l. Inr) ids w of
             None \<Rightarrow> None
           | Some (Inl e) \<Rightarrow> Some (Inl e)
           | Some (Inr w) \<Rightarrow>
               loop os (\<lambda>i w. conns w i \<noteq> None) (run_callback os (echo_app os) fresh)
                 (run_functor os (echo_app os) (\<lambda>n. Inr)) l w))"

lemma echo_app_simps [simp]:
  "app_connection (echo_app os) h i w = onConnection_echo i w"
  "app_message (echo_app os) h i t w = onMessage_echo os i t w"
  "app_connection (server_app os app) = app_connection app"
  "app_message (server_app os app) = app_message app"
  "app_close (server_app os app) h i w = removeConnection os i w"
  by (simp_all add: echo_app_def server_app_def)

end
