(* ===== verification/EchoProps.thy ===== *)
theory EchoProps
  imports EchoServer Footprint
begin

unbundle bit_operations_syntax

text \<open>The properties of the example server: what a client gets back, and how a connection ends.\<close>

subsection \<open>A concrete state\<close>

text \<open>
  The state of \<open>Samples\<close> with the example server in it: connection 7 is registered under its name, and
  the loop of the server is the connection's.
\<close>

definition sample_server :: tcp_server where
  "sample_server = \<lparr>sLoop = 0, ipPort = ''h:1'', sName = ''E'', threadPool = new_pool 0 ''E'', nextConnId = 2,
     started = True, connections = [(''c'', 7)], threadInitCallback = None, connectionCallback = Some 0,
     messageCallback = Some 0, writeCompleteCallback = None\<rparr>"

definition echo_state :: "conn_state \<Rightarrow> buffer \<Rightarrow> uint32 \<Rightarrow> nat list \<Rightarrow> toy echo_world" where
  "echo_state st b ev ns =
     \<lparr>kern = sample_kernel ev ns, chans = (\<lambda>_. None)(0 := Some wake_channel, 1 := Some (sample_channel ev)),
      pollers = (\<lambda>_. None)(0 := Some sample_poller), loops = (\<lambda>_. None)(0 := Some sample_loop),
      curThread = 1, loopInThisThread = (\<lambda>_. None),
      conns = (\<lambda>_. None)(7 := Some (sample_conn st b)),
      numCreated = 0, theAcceptor = None, theServer = Some sample_server, upDown = []\<rparr>"

lemma echo_fields [simp]:
  "conns (echo_state st b ev ns) 7 = Some (sample_conn st b)"
  "chans (echo_state st b ev ns) = (\<lambda>_. None)(0 := Some wake_channel, 1 := Some (sample_channel ev))"
  "pollers (echo_state st b ev ns) = (\<lambda>_. None)(0 := Some sample_poller)"
  "loops (echo_state st b ev ns) = (\<lambda>_. None)(0 := Some sample_loop)"
  "kern (echo_state st b ev ns) = sample_kernel ev ns" "curThread (echo_state st b ev ns) = 1"
  "theServer (echo_state st b ev ns) = Some sample_server" "upDown (echo_state st b ev ns) = []"
  by (simp_all add: echo_state_def)

lemma echo_registry [simp]: "registry_wf toy_os toy_ep (echo_state st b ev ns)"
  by (rule sample_registry_any) simp_all

lemma echo_conn_wf [simp]:
  "buffer_inv b \<Longrightarrow> conn_wf 7 (echo_state st b 3 ns) (sample_conn st b) (sample_channel 3)"
  by (simp add: conn_wf_def conn_live_def channel_ready_def isWriting_def kWriteEvent_def EPOLLOUT_def)

section \<open>The reply\<close>

text \<open>What \<open>onMessage\<close> establishes.\<close>

definition replied :: "'k os \<Rightarrow> 'k interest \<Rightarrow> 'k accepted \<Rightarrow> ('k \<Rightarrow> fd \<Rightarrow> bool) \<Rightarrow> conn \<Rightarrow>
    byte list \<Rightarrow> fd \<Rightarrow> ('k, 'z) echo_world_scheme \<Rightarrow> bool" where
  "replied os ep acc fin i stream f w' \<longleftrightarrow>
     (\<exists>co' ch'. conn_wf i w' co' ch' \<and> registry_wf os ep w' \<and> out_stream acc w' co' = stream \<and>
        contents (inputBuffer co') = [] \<and> cState co' = Disconnecting \<and> cSock co' = f \<and>
        (contents (outputBuffer co') = [] \<longrightarrow> fin (kern w') f))"

lemma onMessage_ok:
  assumes k: "kernel_ok os ep acc" "fin_contract os fin" and reg: "registry_wf os ep w"
    and wf: "conn_wf i w co ch" and st: "cState co = Connected"
    and here: "loops w (cLoop co) = Some lp" "threadId lp = curThread w"
    and msg: "msg = contents (inputBuffer co)" "msg \<noteq> []"
    and space: "length (bytes (outputBuffer co)) + length msg \<le> max_size"
    and soft: "\<And>e. idle co ch \<Longrightarrow> fst (sys_write os (cSock co) msg (kern w)) = Inl e \<Longrightarrow> isBlockingError e"
  shows "returns (onMessage_echo os i t w) (replied os ep acc fin i (out_stream acc w co @ msg) (cSock co))"
proof -
  note c = conn_wfD [OF wf]
  obtain b where b: "retrieveAllAsString (inputBuffer co) = (msg, b)" "buffer_inv b" "contents b = []"
    using retrieveAllAsString_ok [OF c(7)] msg(1) by (metis prod.collapse)
  let ?co = "co\<lparr>inputBuffer := b\<rparr>" and ?w = "put_conn i (co\<lparr>inputBuffer := b\<rparr>) w"
  have wf1: "conn_wf i ?w ?co ch" using conn_wf_buffers [OF wf b(2) c(8)] c(9) by simp
  have id: "idle ?co ch = idle co ch" by (simp add: idle_def)
  have "length (bytes (outputBuffer ?co)) + length msg \<le> max_size" using space by simp
  from sendInLoop_ok [OF k(1) _ wf1 this] reg obtain w2 co2 ch2 where
    s: "sendInLoop os msg i ?w = Inr w2" "sent os ep i ?co w2 co2 ch2"
      "out_stream acc w2 co2 = out_stream acc ?w ?co @ msg"
      "isWriting ch2 \<longleftrightarrow> contents (outputBuffer co2) \<noteq> []"
    using soft msg(2) by (auto simp: returns_iff id)
  have w2: "conn_wf i w2 co2 ch2" "registry_wf os ep w2" and eq: "co2 = ?co\<lparr>outputBuffer := outputBuffer co2\<rparr>"
    using s(2) by (auto simp: sent_def)
  have f: "cState co2 = Connected" "cSock co2 = cSock co" "cLoop co2 = cLoop co" "inputBuffer co2 = b"
    using arg_cong [OF eq, of cState] arg_cong [OF eq, of cSock] arg_cong [OF eq, of cLoop]
      arg_cong [OF eq, of inputBuffer] st by simp_all
  have "loops ?w (cLoop co) = Some lp" "threadId lp = curThread ?w" using here by simp_all
  from in_thread_same [OF th.send_in_loop [OF s(1)] this] obtain lp2 where
    l2: "loops w2 (cLoop co2) = Some lp2" "isInLoopThread lp2 w2" using f(3) by (auto simp: isInLoopThread_def)
  let ?v = "put_conn i (co2\<lparr>cState := Disconnecting\<rparr>) w2"
  let ?k = "snd (sys_shutdown_wr os (cSock co) (kern w2))"
  let ?w3 = "if isWriting ch2 then ?v else ?v\<lparr>kern := ?k\<rparr>"
  have sh: "shutdown os i w2 = Inr ?w3"
    using shutdown_eq [OF w2(1) l2, of os] f by simp
  have v: "conn_wf i ?v (co2\<lparr>cState := Disconnecting\<rparr>) ch2" by (rule conn_wf_state [OF w2(1)])
  have "conn_wf i ?w3 (co2\<lparr>cState := Disconnecting\<rparr>) ch2" using v conn_wf_kern [of i ?k ?v] by simp
  moreover have "registry_wf os ep ?w3"
    using w2(2) registry_kern(1) [of ep ?k ?v] kernel_okD(6) [OF k(1), of "cSock co" "kern w2"] by simp
  moreover have "out_stream acc ?w3 (co2\<lparr>cState := Disconnecting\<rparr>) = out_stream acc w co @ msg"
    using s(3) f(2) stream_contractD(6) [OF kernel_okD(3) [OF k(1)]] by (simp add: out_stream_def)
  moreover have "contents (outputBuffer co2) = [] \<longrightarrow> fin (kern ?w3) (cSock co)"
    using s(4) fin_contractD(1) [OF k(2)] by simp
  ultimately have "replied os ep acc fin i (out_stream acc w co @ msg) (cSock co) ?w3"
    unfolding replied_def using f b(3) by (intro exI [of _ "co2\<lparr>cState := Disconnecting\<rparr>"] exI [of _ ch2]) simp
  moreover have "onMessage_echo os i t w = Inr ?w3"
    using c(1) here b(1) st s(1) sh
    by (simp add: onMessage_echo_def send_def isInLoopThread_def)
  ultimately show ?thesis by simp
qed

text \<open>
  C15. The echo. When a read delivers bytes to a connected client of the example server, in the
  connection's own loop, the client is sent exactly the bytes it sent (with any that were in the
  input buffer before, in front): what the kernel has accepted followed by what is queued grows by exactly these bytes. The input
  buffer is empty afterwards, the connection is Disconnecting, and if the kernel took everything
  the write side is already closed. (A write error other than EAGAIN is excluded; it drops the data.)
\<close>

theorem echo_reply:
  assumes "kernel_ok os ep acc" and "fin_contract os fin" and "registry_wf os ep w"
    and "conn_wf i w co ch" and "cState co = Connected" and "onMessage co = Some h"
    and "loops w (cLoop co) = Some lp" and "threadId lp = curThread w"
    and "readv_contract (\<lambda>v. fst (sys_readv os (cSock co) v (kern w)))"
    and "sys_readv os (cSock co) (read_iov (inputBuffer co)) (kern w) = (Inr d, k)" and "d \<noteq> []"
    and "msg = contents (inputBuffer co) @ d"
    and "length (bytes (inputBuffer co)) + 65536 \<le> max_size"
    and "length (bytes (outputBuffer co)) + length msg \<le> max_size"
    and "\<And>e. idle co ch \<Longrightarrow> fst (sys_write os (cSock co) msg k) = Inl e \<Longrightarrow> isBlockingError e"
  shows "\<exists>w'. handleRead os (echo_app os) t i w = Inr w' \<and>
    replied os ep acc fin i (out_stream acc w co @ msg) (cSock co) w'"
proof -
  from handleRead_eq [OF assms(4,13,9,10), of "echo_app os" t] assms(6,11,12) obtain b where
    b: "contents b = msg"
      "conn_wf i (put_conn i (co\<lparr>inputBuffer := b\<rparr>) (w\<lparr>kern := k\<rparr>)) (co\<lparr>inputBuffer := b\<rparr>) ch"
      "handleRead os (echo_app os) t i w =
        noexcept (onMessage_echo os i t (put_conn i (co\<lparr>inputBuffer := b\<rparr>) (w\<lparr>kern := k\<rparr>)))"
    by (auto simp: Let_def)
  let ?co = "co\<lparr>inputBuffer := b\<rparr>" and ?w = "put_conn i (co\<lparr>inputBuffer := b\<rparr>) (w\<lparr>kern := k\<rparr>)"
  have ep: "ep k = ep (kern w)"
    using kernel_okD(7) [OF assms(1), of "cSock co" "read_iov (inputBuffer co)" "kern w"] assms(10) by simp
  have ac: "acc k = acc (kern w)"
    using kernel_okD(9) [OF assms(1), of "cSock co" "read_iov (inputBuffer co)" "kern w"]
      assms(10) by simp
  have "returns (onMessage_echo os i t ?w) (replied os ep acc fin i (out_stream acc ?w ?co @ msg) (cSock ?co))"
  proof (rule onMessage_ok [OF assms(1,2) _ b(2)])
    show "registry_wf os ep ?w" using registry_kern(1) [of ep, OF ep] assms(3) by simp
  qed (use assms b(1) in \<open>auto simp: idle_def\<close>)
  then show ?thesis
    using b(3) ac by (auto simp: returns_iff out_stream_def)
qed

theorem echo_reply_witness:
  "\<exists>w'. handleRead (toy_os\<lparr>sys_readv := (\<lambda>f v k. (Inr (take (sum_list (map unat v)) [5, 6]), k))\<rparr>)
      (echo_app (toy_os\<lparr>sys_readv := (\<lambda>f v k. (Inr (take (sum_list (map unat v)) [5, 6]), k))\<rparr>)) 0 7
      (echo_state Connected empty_buffer 3 []) = Inr w' \<and>
    replied (toy_os\<lparr>sys_readv := (\<lambda>f v k. (Inr (take (sum_list (map unat v)) [5, 6]), k))\<rparr>)
      toy_ep toy_out toy_fin 7 [5, 6] 9 w'"
proof -
  let ?os = "toy_os\<lparr>sys_readv := (\<lambda>f v k. (Inr (take (sum_list (map unat v)) [5, 6]), k))\<rparr>"
  let ?w = "echo_state Connected empty_buffer 3 []" and ?co = "sample_conn Connected empty_buffer"
  have k: "kernel_ok ?os toy_ep toy_out"
    using toy_kernel_ok by (simp add: kernel_ok_def epoll_contract_def epoll_resources_def
        io_keeps_interest_def stream_contract_def)
  have f: "fin_contract ?os toy_fin"
    using toy_fin_contract by (simp add: fin_contract_def)
  have r: "registry_wf ?os toy_ep ?w"
    using echo_registry k by (simp add: registry_wf_def kernel_ok_def)
  have e: "\<And>e. fst (sys_write ?os (cSock ?co) [5, 6] (sample_kernel 3 [])) \<noteq> Inl e"
    by simp
  from echo_reply [OF k f r, of 7 ?co "sample_channel 3" 0 sample_loop "[5, 6]" "sample_kernel 3 []" "[5, 6]" 0] e
  show ?thesis
    by (simp add: readv_contract_def max_size_def out_stream_def)
qed

text \<open>
  A client that resets the connection while the server replies. Nothing in the library or in the example ignores
  SIGPIPE; where the process has not inherited that, the direct write of the reply ends the whole server.
\<close>

lemma send_broken_pipe:
  assumes wf: "conn_wf i w co ch" and st: "cState co = Connected" and idle: "idle co ch"
    and here: "loops w (cLoop co) = Some lp" "threadId lp = curThread w"
    and wr: "fst (sys_write os (cSock co) msg (kern w)) = Inl EPIPE" "\<not> sigpipe_ignored os"
  shows "send os msg i w = Inl Killed"
proof -
  obtain k where k: "sys_write os (cSock co) msg (kern w) = (Inl EPIPE, k)"
    using wr(1) by (cases "sys_write os (cSock co) msg (kern w)") auto
  with conn_wfD [OF wf] st here wr(2) idle idle_guard [OF wf] show ?thesis
    by (simp add: send_def sendInLoop_def send_direct_def isInLoopThread_def broken_pipe_def Let_def)
qed

theorem reset_client_ends_server:
  assumes "conn_wf i w co ch" and "cState co = Connected" and "onMessage co = Some h"
    and "loops w (cLoop co) = Some lp" and "threadId lp = curThread w"
    and "readv_contract (\<lambda>v. fst (sys_readv os (cSock co) v (kern w)))"
    and "sys_readv os (cSock co) (read_iov (inputBuffer co)) (kern w) = (Inr d, k)" and "d \<noteq> []"
    and "length (bytes (inputBuffer co)) + 65536 \<le> max_size" and "idle co ch"
    and "fst (sys_write os (cSock co) (contents (inputBuffer co) @ d) k) = Inl EPIPE" and "\<not> sigpipe_ignored os"
  shows "handleRead os (echo_app os) t i w = Inl Killed"
proof -
  from handleRead_eq [OF assms(1,9,6,7), of "echo_app os" t] assms(3,8) obtain b where
    b: "contents b = contents (inputBuffer co) @ d"
      "conn_wf i (put_conn i (co\<lparr>inputBuffer := b\<rparr>) (w\<lparr>kern := k\<rparr>)) (co\<lparr>inputBuffer := b\<rparr>) ch"
      "handleRead os (echo_app os) t i w =
        noexcept (onMessage_echo os i t (put_conn i (co\<lparr>inputBuffer := b\<rparr>) (w\<lparr>kern := k\<rparr>)))"
    by (auto simp: Let_def)
  let ?w = "put_conn i (co\<lparr>inputBuffer := b\<rparr>) (w\<lparr>kern := k\<rparr>)"
  note c = conn_wfD [OF b(2)]
  have inv: "buffer_inv b" using c(7) by simp
  obtain b' where r: "retrieveAllAsString b = (contents (inputBuffer co) @ d, b')" "buffer_inv b'"
    using retrieveAllAsString_ok [OF inv] b(1) by (cases "retrieveAllAsString b") auto
  let ?co = "co\<lparr>inputBuffer := b'\<rparr>" and ?v = "put_conn i (co\<lparr>inputBuffer := b'\<rparr>) ?w"
  have "conn_wf i ?v ?co ch"
    using conn_wf_buffers [OF b(2) r(2), of "outputBuffer co"] c(8,9) by simp
  then have "send os (contents (inputBuffer co) @ d) i ?v = Inl Killed"
    by (rule send_broken_pipe) (use assms in \<open>simp_all add: idle_def\<close>)
  then have "onMessage_echo os i t ?w = Inl Killed"
    using r(1) by (simp add: onMessage_echo_def)
  then show ?thesis using b(3) by simp
qed

section \<open>The end of a connection\<close>

lemma conn_wf_cong:
  assumes "conns w' = conns w" "chans w' = chans w" "pollers w' = pollers w"
    and "loops w' (cLoop co) = None \<longleftrightarrow> loops w (cLoop co) = None"
  shows "conn_wf i w' co ch = conn_wf i w co ch"
  using assms(4) by (simp add: conn_wf_def conn_live_def channel_ready_def assms(1-3))

lemma closed_state_fields [simp]:
  "conns (closed_state i co ch p k w) = (conns w)(i \<mapsto> co\<lparr>cState := Disconnected\<rparr>)"
  "loops (closed_state i co ch p k w) = loops w" "curThread (closed_state i co ch p k w) = curThread w"
  "theServer (closed_state i co ch p k v) = theServer v" "upDown (closed_state i co ch p k u) = upDown u"
  by (simp_all add: closed_state_def put_entry_def put_channel_def put_poller_def put_conn_def)

lemma removed_state_fields [simp]:
  "theServer (removed_state i co ch p k v) = theServer v" "upDown (removed_state i co ch p k u) = upDown u"
  by (simp_all add: removed_state_def put_entry_def put_channel_def put_poller_def put_conn_def)

text \<open>
  The server's part of the closing, when the loop of the connection is the server's: it notes the DOWN, erases the
  entry and queues \<open>connectDestroyed\<close>; connections, channels and pollers stay.
\<close>

lemma close_callbacks:
  fixes x :: "('k, 'z) echo_world_scheme"
  assumes "theServer x = Some s" and "map_of (connections s) (cName co) = Some i" and "sLoop s = l"
    and "conns x i = Some co" and "cState co \<noteq> Connected" and "loops x l = Some lp" and "threadId lp = curThread x" and "cLoop co = l"
  shows "\<exists>y lp'. andThen (onConnection_echo i x) (removeConnection os i) = Inr y \<and>
    upDown y = upDown x @ [(i, False)] \<and> theServer y = Some (s\<lparr>connections := filter (\<lambda>(n, j). n \<noteq> cName co) (connections s)\<rparr>) \<and>
    loops y = (loops x)(l \<mapsto> lp') \<and> pendingFunctors lp' = pendingFunctors lp @ [ConnectDestroyed i] \<and>
    conns y = conns x \<and> chans y = chans x \<and> pollers y = pollers x \<and>
    (kern y = kern x \<or> kern y = sys_eventfd_write os (wakeupFd lp) (kern x))"
proof -
  let ?v = "x\<lparr>upDown := upDown x @ [(i, False)]\<rparr>"
  let ?q = "put_server (s\<lparr>connections := filter (\<lambda>(n, j). n \<noteq> cName co) (connections s)\<rparr>) ?v"
  let ?lp = "lp\<lparr>pendingFunctors := pendingFunctors lp @ [ConnectDestroyed i]\<rparr>"
  let ?k = "if threadId lp \<noteq> curThread ?q \<or> callingPendingFunctors lp
            then sys_eventfd_write os (wakeupFd lp) (kern ?q) else kern ?q"
  let ?y = "(put_loop l ?lp ?q)\<lparr>kern := ?k\<rparr>"
  have note_down: "onConnection_echo i x = Inr ?v" using assms(4,5) by (simp add: onConnection_echo_def connected_def)
  have lq: "loops ?q l = Some lp" using assms(6) by (simp add: put_server_def)
  have "removeConnectionInLoop os i ?v = Inr ?y"
    using assms(1,2,4,8) queueInLoop_eq [OF lq, of os "ConnectDestroyed i"]
    by (simp add: removeConnectionInLoop_def with_server_def)
  then have "andThen (onConnection_echo i x) (removeConnection os i) = Inr ?y"
    using note_down assms(1,3,6,7) by (simp add: removeConnection_def with_server_def runInLoop_def isInLoopThread_def)
  then show ?thesis
    by (intro exI [of _ ?y] exI [of _ ?lp]) (simp add: put_loop_def put_server_def)
qed

text \<open>
  C16. A connection ends once. When the peer of a registered connection of the example server has
  closed, in the single-threaded server (the connection's loop is the server's): \<open>handleClose\<close> notes one
  Connection DOWN, takes the connection out of the server's map and queues \<open>connectDestroyed\<close>; and
  running that functor makes no second note, takes the channel out of the poller and of the
  kernel's interest list, and leaves all in a consistent state.
\<close>

theorem connection_close_lifecycle:
  assumes "kernel_ok os ep acc" and "registry_wf os ep w" and "conn_wf i w co ch"
    and "onConnection co = Some h" and "onClose co = Some kRemoveConnection"
    and "theServer w = Some s" and "map_of (connections s) (cName co) = Some i" and "sLoop s = cLoop co"
    and "loops w (cLoop co) = Some lp" and "threadId lp = curThread w"
  shows "\<exists>w1 w2 lp1. handleClose os (server_app os (echo_app os)) i w = Inr w1 \<and>
    upDown w1 = upDown w @ [(i, False)] \<and>
    theServer w1 = Some (s\<lparr>connections := filter (\<lambda>(n, j). n \<noteq> cName co) (connections s)\<rparr>) \<and>
    loops w1 (cLoop co) = Some lp1 \<and> pendingFunctors lp1 = pendingFunctors lp @ [ConnectDestroyed i] \<and>
    run_functor os (echo_app os) user (ConnectDestroyed i) w1 = Inr w2 \<and>
    upDown w2 = upDown w1 \<and> theServer w2 = theServer w1 \<and> registry_wf os ep w2 \<and>
    kernel_mask ep w2 (cChan co) = None \<and> hasChannel (cLoop co) (cChan co) w2 = Inr False"
proof -
  let ?co = "co\<lparr>cState := Disconnected\<rparr>" let ?ch = "registered (\<lambda>e. kNoneEvent) ch"
  let ?app = "server_app os (echo_app os)"
  from handleClose_eq [OF assms(1-3), of ?app] obtain p k where
    h: "handleClose os ?app i w = noexcept (andThen
      (call (\<lambda>h. app_connection ?app h i) (onConnection co) (closed_state i co ch p k w))
      (\<lambda>w2. with_conn i w2 (\<lambda>co2. call (\<lambda>h. app_close ?app h i) (onClose co2) w2)))"
    and wf: "registry_wf os ep (closed_state i co ch p k w)" "conn_wf i (closed_state i co ch p k w) ?co ?ch"
    by blast
  let ?x = "closed_state i co ch p k w"
  have x: "theServer ?x = Some s" "conns ?x i = Some ?co" "loops ?x (cLoop co) = Some lp" "threadId lp = curThread ?x"
    using assms(6,9,10) by simp_all
  obtain y lp1 where y: "andThen (onConnection_echo i ?x) (removeConnection os i) = Inr y"
    "upDown y = upDown ?x @ [(i, False)]" "theServer y = Some (s\<lparr>connections := filter (\<lambda>(n, j). n \<noteq> cName co) (connections s)\<rparr>)"
    "loops y = (loops ?x)(cLoop co \<mapsto> lp1)" "pendingFunctors lp1 = pendingFunctors lp @ [ConnectDestroyed i]"
    "conns y = conns ?x" "chans y = chans ?x" "pollers y = pollers ?x"
    "kern y = kern ?x \<or> kern y = sys_eventfd_write os (wakeupFd lp) (kern ?x)"
    using close_callbacks [of ?x, OF x(1) _ assms(8) x(2) _ x(3,4), of os] assms(7) by auto
  from y(1) obtain v where v: "onConnection_echo i ?x = Inr v" "removeConnection os i v = Inr y"
    by (auto simp: andThen_Inr_iff)
  then have "conns v = conns ?x" by (auto simp: onConnection_echo_def with_conn_def split: option.splits)
  then have close: "handleClose os ?app i w = Inr y"
    using h v assms(4,5) by (simp add: kRemoveConnection_def)
  have "ep (kern y) = ep (kern ?x)" using kernel_okD(5) [OF assms(1)] y(9) by auto
  then have reg1: "registry_wf os ep y" using registry_cong(1) [OF y(8,7)] wf(1) by simp
  have wf1: "conn_wf i y ?co ?ch"
    using conn_wf_cong [OF y(6-8), of ?co i ?ch] wf(2) assms(9) y(4) by simp
  have "cState ?co \<noteq> Connected" by simp
  from connectDestroyed_eq [OF reg1 wf1 this, of ?app] obtain p2 k2 where
    d: "connectDestroyed os ?app i y = Inr (removed_state i ?co ?ch p2 k2 y)"
      "registry_wf os ep (removed_state i ?co ?ch p2 k2 y)"
      "kernel_mask ep (removed_state i ?co ?ch p2 k2 y) (cChan co) = None"
      "hasChannel (cLoop co) (cChan co) (removed_state i ?co ?ch p2 k2 y) = Inr False"
    by auto
  let ?w2 = "removed_state i ?co ?ch p2 k2 y"
  have "run_functor os (echo_app os) user (ConnectDestroyed i) y = Inr ?w2"
    using d(1) by (simp add: run_functor_def run_conn_functor_def)
  with close d(2-4) y(2-5) show ?thesis
    by (intro exI [of _ y] exI [of _ ?w2] exI [of _ lp1]) simp
qed

theorem connection_close_lifecycle_witness:
  "\<exists>w1 w2. handleClose toy_os (server_app toy_os (echo_app toy_os)) 7 (echo_state Connected empty_buffer 3 []) = Inr w1 \<and>
    upDown w1 = [(7, False)] \<and> map_option connections (theServer w1) = Some [] \<and>
    run_functor toy_os (echo_app toy_os) (\<lambda>n. Inr) (ConnectDestroyed 7) w1 = Inr w2 \<and>
    upDown w2 = [(7, False)] \<and> kernel_mask toy_ep w2 1 = None"
proof -
  let ?w = "echo_state Connected empty_buffer 3 []" and ?co = "sample_conn Connected empty_buffer"
  have c: "cName ?co = ''c''" "onClose ?co = Some kRemoveConnection"
    by (simp_all add: sample_conn_def kRemoveConnection_def)
  from connection_close_lifecycle [OF toy_kernel_ok echo_registry [of Connected empty_buffer 3 "[]"],
      of 7 ?co "sample_channel 3" 0 sample_server sample_loop "\<lambda>n. Inr"] c
  show ?thesis by (auto simp: sample_server_def)
qed

end
