(* ===== verification/ServerProps.thy ===== *)
theory ServerProps
  imports EchoProps
begin

unbundle bit_operations_syntax

text \<open>The properties of the server: new connections, their names, and what an accept error does.\<close>

section \<open>Names\<close>

definition name_of :: "tcp_server \<Rightarrow> nat \<Rightarrow> string" where
  "name_of s n = sName s @ ''-'' @ ipPort s @ ''#'' @ decimal n"

text \<open>Every registered connection has a name this server has given before.\<close>

definition names_below :: "tcp_server \<Rightarrow> bool" where
  "names_below s \<longleftrightarrow> (\<forall>(n, i) \<in> set (connections s). \<exists>m < unat (nextConnId s). n = name_of s m)"

lemma connection_name_of: "connection_name s = name_of s (unat (nextConnId s))"
  by (simp add: connection_name_def name_of_def)

lemma name_of_inj [simp]: "name_of s m = name_of s n \<longleftrightarrow> m = n"
  by (simp add: name_of_def)

lemma name_is_new: "names_below s \<Longrightarrow> map_of (connections s) (connection_name s) = None"
  by (force simp: names_below_def connection_name_of map_of_eq_None_iff)

lemma name_of_update [simp]:
  "name_of (s\<lparr>threadPool := p\<rparr>) n = name_of s n" "name_of (s\<lparr>nextConnId := x\<rparr>) n = name_of s n"
  "name_of (s\<lparr>connections := c\<rparr>) n = name_of s n"
  by (simp_all add: name_of_def)

lemma emplace_new: "names_below s \<Longrightarrow> emplace (connection_name s) i (connections s) = connections s @ [(connection_name s, i)]"
  by (simp add: emplace_def name_is_new)

lemma names_below_next:
  assumes "names_below s" "nextConnId s + 1 \<noteq> 0"
  shows "names_below (s\<lparr>threadPool := p, nextConnId := nextConnId s + 1,
    connections := connections s @ [(connection_name s, i)]\<rparr>)"
proof -
  have "unat (nextConnId s + 1) = Suc (unat (nextConnId s))"
    using assms(2) by (rule unat_increment)
  with assms(1) show ?thesis
    by (fastforce simp: names_below_def connection_name_of intro: less_SucI)
qed

section \<open>A new connection\<close>

text \<open>
  C17. A new connection on a server with worker threads. If \<open>getsockname\<close> succeeds and the next loop of
  the pool belongs to another thread, \<open>newConnection\<close> creates a Connecting connection on that loop with
  empty buffers, the server's callbacks and the addresses of the two ends, registers it under a name no
  registered connection has (the map keeps all the old entries and gains this one), advances the counter and the pool's
  position, and hands the connection over: \<open>connectEstablished\<close> is queued last on its loop. Until the 32-bit
  counter wraps around, the next name is again a new one.
\<close>

theorem newConnection_registers:
  assumes "theServer w = Some s" and "names_below s" and "getNextLoop (threadPool s) = (l, p)"
    and "loops w l = Some lp" and "threadId lp \<noteq> curThread w"
    and "sys_getsockname os f (kern w) = (Inr here, k)"
  shows "\<exists>w' s' co lp'. newConnection os app i c f peer w = Inr w' \<and> theServer w' = Some s' \<and>
    connections s' = connections s @ [(connection_name s, i)] \<and>
    map_of (connections s) (connection_name s) = None \<and>
    threadPool s' = p \<and> nextConnId s' = nextConnId s + 1 \<and> (nextConnId s + 1 \<noteq> 0 \<longrightarrow> names_below s') \<and>
    conns w' i = Some co \<and> cState co = Connecting \<and> cName co = connection_name s \<and> cLoop co = l \<and>
    cSock co = f \<and> localAddr co = here \<and> peerAddr co = peer \<and>
    contents (inputBuffer co) = [] \<and> contents (outputBuffer co) = [] \<and>
    onConnection co = connectionCallback s \<and> onMessage co = messageCallback s \<and>
    onWriteComplete co = writeCompleteCallback s \<and> onClose co = Some kRemoveConnection \<and>
    loops w' l = Some lp' \<and> pendingFunctors lp' = pendingFunctors lp @ [ConnectEstablished i]"
proof -
  have "unat kInitialSize + 8 \<le> max_size" by (simp add: max_size_def)
  from new_buffer_ok [OF this] obtain b where b: "new_buffer kInitialSize = Inr b" "contents b = []"
    by (auto simp: returns_iff)
  let ?s1 = "s\<lparr>threadPool := p, nextConnId := nextConnId s + 1\<rparr>"
  let ?s = "?s1\<lparr>connections := connections s @ [(connection_name s, i)]\<rparr>"
  let ?w0 = "(put_server ?s1 w)\<lparr>kern := k\<rparr>"
  let ?co = "\<lparr>cLoop = l, cName = connection_name s, cState = Connecting, cSock = f, cChan = c,
     localAddr = here, peerAddr = peer, inputBuffer = b, outputBuffer = b, onConnection = None, onMessage = None,
     onWriteComplete = None, onClose = None, onHighWaterMark = None, highWaterMark = kDefaultHighWaterMark\<rparr>"
  let ?cs = "conn_setCloseCallback (Some kRemoveConnection) (conn_setWriteCompleteCallback (writeCompleteCallback s)
      (conn_setMessageCallback (messageCallback s) (conn_setConnectionCallback (connectionCallback s) ?co)))"
  let ?k' = "snd (sys_setsockopt os f KeepAlive True (snd (sys_setsockopt os f TcpNoDelay True k)))"
  let ?w1 = "put_channel c (setupChannelCallbacks i (new_channel l f)) ((put_conn i ?co ?w0)\<lparr>kern := ?k'\<rparr>)"
  have nc: "new_connection os i c l (connection_name s) f here peer ?w0 = Inr ?w1"
    using b by (simp add: new_connection_def Let_def configureSocketOptions_def setOption_def put_channel_def
        put_conn_def modify_channel_def with_channel_def)
  let ?w2 = "put_conn i ?cs (put_server ?s ?w1)"
  have l2: "loops ?w2 l = Some lp" using assms(4) by (simp add: put_server_def)
  have th: "curThread ?w2 = curThread w" by (simp add: put_server_def put_conn_def put_channel_def)
  let ?w' = "(put_loop l (lp\<lparr>pendingFunctors := pendingFunctors lp @ [ConnectEstablished i]\<rparr>) ?w2)
      \<lparr>kern := sys_eventfd_write os (wakeupFd lp) (kern ?w2)\<rparr>"
  have q: "queueInLoop os l (ConnectEstablished i) ?w2 = Inr ?w'"
    using queueInLoop_eq [OF l2, of os "ConnectEstablished i"] assms(5) th by simp
  have "runInLoop os l (ConnectEstablished i) (connectEstablished os app i) ?w2 = Inr ?w'"
    using l2 assms(5) th q by (simp add: runInLoop_def isInLoopThread_def)
  moreover have "conns (put_server ?s ?w1) i = Some ?co" by (simp add: put_server_def put_channel_def put_conn_def)
  moreover have "kern (put_server ?s1 w) = kern w" by (simp add: put_server_def)
  ultimately have "newConnection os app i c f peer w = Inr ?w'"
    using assms(1,3,6) nc emplace_new [OF assms(2), of i]
    by (simp add: newConnection_def with_server_def Let_def connection_name_def)
  moreover have "names_below ?s" if "nextConnId s + 1 \<noteq> 0"
    by (rule names_below_next [OF assms(2) that])
  ultimately show ?thesis
    using name_is_new [OF assms(2)] b(2)
    by (intro exI [of _ ?w'] exI [of _ ?s] exI [of _ ?cs]
        exI [of _ "lp\<lparr>pendingFunctors := pendingFunctors lp @ [ConnectEstablished i]\<rparr>"])
      (simp add: put_loop_def put_server_def put_conn_def put_channel_def conn_setCloseCallback_def
        conn_setWriteCompleteCallback_def conn_setMessageCallback_def conn_setConnectionCallback_def)
qed

text \<open>A server with one worker: loop 5 of thread 2, and no connection.\<close>

definition worker_server :: tcp_server where
  "worker_server = sample_server\<lparr>threadPool := (new_pool 0 ''E'')\<lparr>ploops := [5]\<rparr>, connections := []\<rparr>"

definition worker_state :: "toy echo_world" where
  "worker_state = (echo_state Connected empty_buffer 3 [])\<lparr>
     loops := (\<lambda>_. None)(0 := Some sample_loop, 5 := Some (sample_loop\<lparr>threadId := 2\<rparr>)),
     theServer := Some worker_server\<rparr>"

theorem newConnection_registers_witness:
  "\<exists>w' s' co lp'. newConnection toy_os (echo_app toy_os) 8 9 20 \<lparr>sin_port = 2, sin_addr = 2\<rparr> worker_state = Inr w' \<and>
    theServer w' = Some s' \<and> connections s' = [(''E-h:1#2'', 8)] \<and> conns w' 8 = Some co \<and> cLoop co = 5 \<and>
    loops w' 5 = Some lp' \<and> pendingFunctors lp' = [ConnectEstablished 8]"
proof -
  have h: "theServer worker_state = Some worker_server" "names_below worker_server"
    "getNextLoop (threadPool worker_server) = (5, (new_pool 0 ''E'')\<lparr>ploops := [5], nextLoop := 1\<rparr>)"
    "loops worker_state 5 = Some (sample_loop\<lparr>threadId := 2\<rparr>)"
    "threadId (sample_loop\<lparr>threadId := 2\<rparr>) \<noteq> curThread worker_state"
    "sys_getsockname toy_os 20 (kern worker_state) =
      (Inr (projr (fst (sys_getsockname toy_os 20 (kern worker_state)))), snd (sys_getsockname toy_os 20 (kern worker_state)))"
    by (simp_all add: worker_state_def worker_server_def sample_server_def names_below_def getNextLoop_def new_pool_def toy_os_def)
  have n: "connection_name worker_server = ''E-h:1#2''"
  proof -
    have "char_of (50 :: nat) = CHR ''2''" by code_simp
    then show ?thesis
      by (simp add: connection_name_def worker_server_def sample_server_def decimal.simps digit_def)
  qed
  have e: "connections worker_server = []" "pendingFunctors sample_loop = []"
    by (simp_all add: worker_server_def sample_loop_def)
  from newConnection_registers [OF h, where app = "echo_app toy_os" and i = 8 and c = 9
      and peer = "\<lparr>sin_port = 2, sin_addr = 2\<rparr>"] show ?thesis
    by (auto simp: n e)
qed

section \<open>Removal and start\<close>

text \<open>
  A connection is removed once. However often \<open>handleClose\<close> reports a connection, the second
  \<open>removeConnectionInLoop\<close> and every one after it change nothing: the name is no longer in the map, so
  \<open>connectDestroyed\<close> is queued once only, at the first removal, and the other connections stay registered.
\<close>

theorem removeConnection_once:
  assumes "theServer w = Some s" and "conns w i = Some co" and "loops w (cLoop co) = Some lp"
    and "map_of (connections s) (cName co) \<noteq> None"
  shows "\<exists>w' s' lp'. removeConnectionInLoop os i w = Inr w' \<and> removeConnectionInLoop os i w' = Inr w' \<and>
    loops w' (cLoop co) = Some lp' \<and> pendingFunctors lp' = pendingFunctors lp @ [ConnectDestroyed i] \<and>
    theServer w' = Some s' \<and>
    map_of (connections s') = (map_of (connections s))(cName co := None)"
proof -
  let ?s = "s\<lparr>connections := filter (\<lambda>(n, j). n \<noteq> cName co) (connections s)\<rparr>"
  let ?q = "put_server ?s w"
  have "loops ?q (cLoop co) = Some lp" using assms(3) by (simp add: put_server_def)
  note q = queueInLoop_eq [OF this, of os "ConnectDestroyed i"]
  let ?lp = "lp\<lparr>pendingFunctors := pendingFunctors lp @ [ConnectDestroyed i]\<rparr>"
  let ?w' = "(put_loop (cLoop co) ?lp ?q)\<lparr>kern := if threadId lp \<noteq> curThread ?q \<or> callingPendingFunctors lp
      then sys_eventfd_write os (wakeupFd lp) (kern ?q) else kern ?q\<rparr>"
  have gone: "map_of (connections ?s) = (map_of (connections s))(cName co := None)"
  proof -
    have "map_of (filter (\<lambda>(n, j). n \<noteq> x) m) = (map_of m)(x := None)" for x and m :: "(string \<times> conn) list"
      by (induction m) auto
    then show ?thesis by simp
  qed
  have "removeConnectionInLoop os i w = Inr ?w'"
    using assms(1,2,4) q by (simp add: removeConnectionInLoop_def with_server_def)
  moreover have "removeConnectionInLoop os i ?w' = Inr ?w'"
    using assms(2) gone
    by (simp add: removeConnectionInLoop_def with_server_def with_conn_def put_loop_def put_server_def)
  ultimately show ?thesis
    using gone by (intro exI [of _ ?w'] exI [of _ ?s] exI [of _ ?lp]) (simp add: put_loop_def put_server_def)
qed

theorem removeConnection_once_witness:
  "\<exists>w'. removeConnectionInLoop toy_os 7 (echo_state Connected empty_buffer 3 []) = Inr w' \<and>
    removeConnectionInLoop toy_os 7 w' = Inr w' \<and>
    map_option pendingFunctors (loops w' 0) = Some [ConnectDestroyed 7]"
  using removeConnection_once [of "echo_state Connected empty_buffer 3 []" sample_server 7
      "sample_conn Connected empty_buffer" sample_loop toy_os]
  by (auto simp: sample_server_def sample_conn_def sample_loop_def)

text \<open>
  C40. \<open>setThreadNum\<close> takes a \<open>size_t\<close> and stores an \<open>int\<close>: the low 32 bits of the count, read as a signed number. If the
  top one of them is set, as for every count from \<open>2\<^sup>3\<^sup>1\<close> to \<open>2\<^sup>3\<^sup>2 - 1\<close>, the number is negative, and \<open>start\<close> first marks the
  server as started and then throws \<open>std::length_error\<close> out of \<open>reserve\<close>, before any thread is created. Nothing takes
  the mark back, and on a server that has it every later \<open>start\<close> does nothing, without an error.
\<close>

lemma signed_low_bits: "sint (ucast (n :: size_t) :: 32 word) =
    (let m = unat n mod 2 ^ 32 in if m < 2 ^ 31 then int m else int m - 2 ^ 32)"
proof -
  let ?m = "uint n mod 2 ^ 32"
  have m: "int (unat n mod 2 ^ 32) = ?m" by (simp add: of_nat_mod)
  then have small: "unat n mod 2 ^ 32 < 2 ^ 31 \<longleftrightarrow> ?m < 2 ^ 31"
    by (simp only: m [symmetric] of_nat_less_iff [where 'a = int, symmetric] of_nat_power of_nat_numeral)
  have "uint (ucast n :: 32 word) = take_bit 32 (uint n)"
    by (subst unsigned_ucast_eq, rule arg_cong2 [of _ _ _ _ take_bit]) (simp, rule refl)
  then have "sint (ucast n :: 32 word) = signed_take_bit 31 ?m" by (simp add: sint_uint take_bit_eq_mod)
  also have "\<dots> = (?m + 2 ^ 31) mod 2 ^ 32 - 2 ^ 31"
    by (simp add: signed_take_bit_eq_take_bit_shift take_bit_eq_mod)
  also have "\<dots> = (if ?m < 2 ^ 31 then ?m else ?m - 2 ^ 32)"
  proof (cases "?m < 2 ^ 31")
    case False
    have "0 \<le> ?m" "?m < 2 ^ 32" by simp_all
    with False have "(?m + 2 ^ 31) mod 2 ^ 32 = ?m + 2 ^ 31 - 2 ^ 32"
      using mod_add_self2 [of "?m - 2 ^ 31" "2 ^ 32"] by (simp add: mod_pos_pos_trivial add.commute)
    with False show ?thesis by simp
  qed simp
  finally show ?thesis by (simp only: Let_def m small)
qed

theorem thread_count_overflow:
  assumes "theServer w = Some (server_setThreadNum n s)" and "\<not> started s"
  shows "numThreads (threadPool (server_setThreadNum n s)) =
      (let m = unat n mod 2 ^ 32 in if m < 2 ^ 31 then int m else int m - 2 ^ 32) \<and>
    (2 ^ 31 \<le> unat n mod 2 ^ 32 \<longrightarrow>
      (\<exists>s1. exchange_started (server_setThreadNum n s) = (False, s1) \<and> started s1 \<and>
         server_start os init ids w = server_launch os init ids s1 (put_server s1 w) \<and>
         server_launch os init ids s1 (put_server s1 w) = Some (Inl LengthError))) \<and>
    (\<forall>v s1. theServer v = Some s1 \<and> started s1 \<longrightarrow> server_start os init ids v = Some (Inr v))"
proof -
  let ?s = "server_setThreadNum n s"
  have count: "numThreads (threadPool ?s) = (let m = unat n mod 2 ^ 32 in if m < 2 ^ 31 then int m else int m - 2 ^ 32)"
    unfolding server_setThreadNum_def setThreadNum_def by (simp add: signed_low_bits)
  have "numThreads (threadPool ?s) < 0" if "2 ^ 31 \<le> unat n mod 2 ^ 32"
  proof -
    have "unat n mod 2 ^ 32 < 2 ^ 32" by simp
    then have "int (unat n mod 2 ^ 32) < 2 ^ 32" by (metis of_nat_less_iff of_nat_numeral of_nat_power)
    with that show ?thesis unfolding count Let_def by simp
  qed
  moreover have "\<not> started ?s" using assms(2) by (simp add: server_setThreadNum_def)
  moreover have "server_start os init ids v = Some (Inr v)" if "theServer v = Some s1" "started s1" for v s1
  proof -
    have "s1\<lparr>started := True\<rparr> = s1" using that(2) by (cases s1) simp
    with that show ?thesis by (simp add: server_start_def exchange_started_def put_server_def)
  qed
  ultimately show ?thesis
    using assms(1) count by (auto simp: server_start_def exchange_started_def server_launch_def pool_start_def Let_def)
qed

theorem thread_count_overflow_witness:
  "let s = server_setThreadNum 0x180000000 (sample_server\<lparr>started := False\<rparr>);
       w = (echo_state Connected empty_buffer 3 [])\<lparr>theServer := Some s\<rparr>;
       w1 = put_server (s\<lparr>started := True\<rparr>) w in
     numThreads (threadPool s) = - (2 ^ 31) \<and> server_start toy_os (\<lambda>h l. Inr) (\<lambda>i. (2, 5, 6)) w = Some (Inl LengthError) \<and>
     server_start toy_os (\<lambda>h l. Inr) (\<lambda>i. (2, 5, 6)) w1 = Some (Inr w1)"
proof -
  let ?s = "server_setThreadNum 0x180000000 (sample_server\<lparr>started := False\<rparr>)"
  have "unat (0x180000000 :: size_t) mod 2 ^ 32 = 2 ^ 31" by simp
  with thread_count_overflow [where w = "(echo_state Connected empty_buffer 3 [])\<lparr>theServer := Some ?s\<rparr>"
     and n = "0x180000000" and s = "sample_server\<lparr>started := False\<rparr>" and os = toy_os and ids = "\<lambda>i. (2, 5, 6)"
     and init = "\<lambda>h l. Inr"]
  show ?thesis by (auto simp: Let_def put_server_def)
qed

section \<open>Accept errors\<close>

text \<open>
  C37. Any failure of \<open>accept\<close> ends the process. Take a turn of the base loop in which the poll reports the
  listening channel readable, anywhere among the channels it reports, and in which the channels before it have been
  handled. If \<open>accept4\<close> then fails, with EAGAIN or ECONNABORTED because the client has already gone, or for lack of
  descriptors, the turn ends in \<open>exit(EXIT_FAILURE)\<close>. (The listening channel has a read callback only, as the
  acceptor's constructor makes it.)
\<close>

theorem accept_failure_ends_process:
  fixes w :: "('k, 'z) server_world_scheme"
  assumes "poll os l kPollTimeMs [] w = Inr (now, before @ c # after, w1)" and "loops w1 l = Some lp"
    and "each (handleEvent (\<lambda>i w. conns w i \<noteq> None) (run_callback os app fresh) now) before
      (put_loop l (lp\<lparr>activeChannels := before @ c # after, pollReturnTime := now\<rparr>) w1) = Inr v"
    and "theAcceptor v = Some a" and "chans v c = Some ch" and "readCallback ch = Some AcceptorHandleRead" and "\<not> tied ch"
    and "closeCallback ch = None" and "errorCallback ch = None" and "revents ch AND (EPOLLIN OR EPOLLPRI) \<noteq> 0"
    and "fst (sys_accept os (aSock a) (kern v)) = Inl e"
  shows "server_turn os app fresh user l w = Inl ExitFailure"
proof -
  obtain k where ac: "sys_accept os (aSock a) (kern v) = (Inl e, k)"
    using assms(11) by (cases "sys_accept os (aSock a) (kern v)") auto
  have "run_callback os app fresh AcceptorHandleRead now v = Inl ExitFailure"
    using assms(4) ac
    by (simp add: run_callback_def run_conn_callback_def acceptor_handleRead_def with_acceptor_def
        socket_accept_def handleAcceptError_def)
  then have "handleEvent (\<lambda>i w. conns w i \<noteq> None) (run_callback os app fresh) now c v = Inl ExitFailure"
    using assms(5-10) by (simp add: handleEvent_def handleEventWithGuard_def fire_def)
  then show ?thesis
    using assms(1-3) by (simp add: server_turn_def loop_iteration_def each_append)
qed

text \<open>The listening channel 2 on descriptor 5 in the state of the example server, and a kernel that reports it behind the connection's.\<close>

definition listening_state :: "toy echo_world" where
  "listening_state = (echo_state Connected empty_buffer 3 [])\<lparr>
     chans := (\<lambda>_. None)(1 := Some (sample_channel 3), 2 := Some (setReadCallback AcceptorHandleRead (new_channel 0 5))),
     theAcceptor := Some \<lparr>aLoop = 0, aSock = 5, aChan = 2, newConnectionSet = True, listenning = True\<rparr>\<rparr>"

definition refusing_os :: "toy os" where
  "refusing_os = toy_os\<lparr>sys_epoll_wait := (\<lambda>e n t k. (Inr [(0, 1), (3, 2)], k)), sys_accept := (\<lambda>f k. (Inl 11, k))\<rparr>"

theorem accept_failure_ends_process_witness:
  "server_turn refusing_os (echo_app toy_os) (\<lambda>w. (8, 9)) (\<lambda>n. Inr) 0 listening_state = Inl ExitFailure"
proof -
  let ?ch1 = "set_revents 0 (sample_channel 3)" and ?ch2 = "set_revents 3 (setReadCallback AcceptorHandleRead (new_channel 0 5))"
  let ?w1 = "listening_state\<lparr>chans := (\<lambda>_. None)(1 := Some ?ch1, 2 := Some ?ch2)\<rparr>"
  let ?a = "\<lparr>aLoop = 0, aSock = 5, aChan = 2, newConnectionSet = True, listenning = True\<rparr>"
  have p: "poll refusing_os 0 kPollTimeMs [] listening_state = Inr (0, [1] @ 2 # [], ?w1)"
    by (simp add: poll_def refusing_os_def toy_os_def listening_state_def echo_state_def Let_def put_poller_def put_channel_def
        modify_channel_def with_channel_def sample_poller_def kInitEventListSize_def fun_upd_twist)
  have "each (handleEvent (\<lambda>i w. conns w i \<noteq> None) (run_callback refusing_os (echo_app toy_os) (\<lambda>w. (8, 9))) 0) [1]
      (put_loop 0 (sample_loop\<lparr>activeChannels := [1] @ 2 # [], pollReturnTime := 0\<rparr>) ?w1) =
    Inr (put_loop 0 (sample_loop\<lparr>activeChannels := [1] @ 2 # [], pollReturnTime := 0\<rparr>) ?w1)"
    by (simp add: handleEvent_def handleEventWithGuard_def fire_def with_channel_def set_revents_def sample_channel_def
        put_loop_def hup_only_def setupChannelCallbacks_def setReadCallback_def setWriteCallback_def setCloseCallback_def
        setErrorCallback_def new_channel_def)
  from accept_failure_ends_process [OF p _ this, of ?a ?ch2] show ?thesis
    by (simp add: listening_state_def echo_state_def put_loop_def set_revents_def setReadCallback_def new_channel_def
        EPOLLIN_def EPOLLPRI_def refusing_os_def)
qed

end
