(* ===== verification/CallbackLog.thy ===== *)
theory CallbackLog
  imports EchoServer Footprint
begin

unbundle bit_operations_syntax

text \<open>
  What the application hears. \<open>noting app\<close> is the application \<open>app\<close> with its connection and message callbacks
  preceded by a note in the field \<open>told\<close>: the name of the connection, and whether it was told that the
  connection is up, that it is down, or that there is data. \<open>calm\<close> is what every operation does to the notes and to the
  connections, but for the two that make a connection: names and callbacks stay, no connection is established, and
  what is noted is neither an Up nor about a connection that is not established.
\<close>

subsection \<open>The notes\<close>

datatype news = Up | Down | Data

record 'k noted_world = "'k echo_world" +
  told :: "(string \<times> news) list"

definition tell :: "conn \<Rightarrow> (tcp_connection \<Rightarrow> news) \<Rightarrow> ('k, 'z) noted_world_scheme \<Rightarrow> ('k, 'z) noted_world_scheme result" where
  "tell i x w = with_conn i w (\<lambda>co. Inr (w\<lparr>told := told w @ [(cName co, x co)]\<rparr>))"

definition noting :: "('k, 'z) noted_world_scheme app \<Rightarrow> ('k, 'z) noted_world_scheme app" where
  "noting app = app\<lparr>
     app_connection := (\<lambda>h i w. andThen (tell i (\<lambda>co. if connected co then Up else Down) w) (app_connection app h i)),
     app_message := (\<lambda>h i t w. andThen (tell i (\<lambda>co. Data) w) (app_message app h i t))\<rparr>"

definition heard :: "('k, 'z) noted_world_scheme \<Rightarrow> string \<Rightarrow> news list" where
  "heard w n = map snd (filter (\<lambda>p. fst p = n) (told w))"

text \<open>The protocol: nothing, or one Up and then no other.\<close>

fun protocol :: "news list \<Rightarrow> bool" where
  "protocol [] = True"
| "protocol (x # xs) = (x = Up \<and> Up \<notin> set xs)"

lemma protocol_append: "protocol xs \<Longrightarrow> xs \<noteq> [] \<Longrightarrow> Up \<notin> set ys \<Longrightarrow> protocol (xs @ ys)"
  by (cases xs) simp_all

lemma heard_append:
  "told w' = told w @ new \<Longrightarrow> heard w' n = heard w n @ map snd (filter (\<lambda>p. fst p = n) new)"
  by (simp add: heard_def)

subsection \<open>Calm operations\<close>

text \<open>Who is there: the name, the connection callback, and whether the connection waits to be established.\<close>

definition roll :: "('k, 'z) conn_world_scheme \<Rightarrow> conn \<Rightarrow> (string \<times> nat option \<times> bool) option" where
  "roll w i = map_option (\<lambda>co. (cName co, onConnection co, cState co = Connecting)) (conns w i)"

definition desk :: "('k, 'z) server_world_scheme \<Rightarrow> (string \<times> string \<times> uint32 \<times> nat option) option" where
  "desk w = map_option (\<lambda>s. (sName s, ipPort s, nextConnId s, connectionCallback s)) (theServer w)"

definition established :: "('k, 'z) conn_world_scheme \<Rightarrow> conn \<Rightarrow> bool" where
  "established w i \<longleftrightarrow> (\<exists>co. conns w i = Some co \<and> cState co \<noteq> Connecting)"

definition calm :: "('k, 'z) noted_world_scheme \<Rightarrow> ('k, 'z) noted_world_scheme \<Rightarrow> bool" where
  "calm w w' \<longleftrightarrow> roll w' = roll w \<and> desk w' = desk w \<and>
     (\<exists>new. told w' = told w @ new \<and> (\<forall>(n, x) \<in> set new. x \<noteq> Up \<and> (\<exists>i cb. roll w i = Some (n, cb, False))))"

lemma calm_same: "roll w' = roll w \<Longrightarrow> desk w' = desk w \<Longrightarrow> told w' = told w \<Longrightarrow> calm w w'"
  by (simp add: calm_def)

lemma calm_refl: "calm w w"
  by (rule calm_same) simp_all

lemma calm_trans:
  assumes "calm u v" "calm v w"
  shows "calm u w"
proof -
  from assms obtain a b where
    a: "told v = told u @ a" "\<forall>(n, x) \<in> set a. x \<noteq> Up \<and> (\<exists>i cb. roll u i = Some (n, cb, False))" and
    b: "told w = told v @ b" "\<forall>(n, x) \<in> set b. x \<noteq> Up \<and> (\<exists>i cb. roll u i = Some (n, cb, False))"
    unfolding calm_def by auto
  have "told w = told u @ (a @ b)" using a(1) b(1) by simp
  moreover have "\<forall>(n, x) \<in> set (a @ b). x \<noteq> Up \<and> (\<exists>i cb. roll u i = Some (n, cb, False))" using a(2) b(2) by auto
  ultimately show ?thesis using assms unfolding calm_def by (metis (no_types, lifting))
qed

lemma roll_cong: "conns w' = conns w \<Longrightarrow> roll w' = roll w"
  by (rule ext) (simp add: roll_def)

lemma desk_cong: "theServer w' = theServer w \<Longrightarrow> desk w' = desk w"
  by (simp add: desk_def)

lemma calm_untouched: "conns w' = conns w \<Longrightarrow> theServer w' = theServer w \<Longrightarrow> told w' = told w \<Longrightarrow> calm w w'"
  by (intro calm_same roll_cong desk_cong)

lemma calm_put_conn:
  assumes "conns w i = Some co" "cName co' = cName co" "onConnection co' = onConnection co"
    and "cState co' = Connecting \<longleftrightarrow> cState co = Connecting"
  shows "calm w (put_conn i co' w)"
proof (rule calm_same)
  show "roll (put_conn i co' w) = roll w" using assms by (auto simp: roll_def fun_eq_iff)
qed (simp_all add: desk_def put_conn_def)

lemma roll_established: "established w i \<longleftrightarrow> (\<exists>n cb. roll w i = Some (n, cb, False))"
  by (auto simp: established_def roll_def)

lemma calm_established: "calm w w' \<Longrightarrow> established w' i \<longleftrightarrow> established w i"
  by (simp add: roll_established calm_def)

interpretation nt: closing_relation os calm for os
  by unfold_locales (rule calm_refl | erule (1) calm_trans | (erule calm_put_conn; simp) |
    (rule calm_untouched; simp add: put_channel_def put_poller_def put_loop_def))+

text \<open>What the reactor leaves alone altogether.\<close>

interpretation nx: reactor_relation os "\<lambda>w w'. conns w' = conns w \<and> theServer w' = theServer w \<and> told w' = told w" for os
  by unfold_locales (simp_all add: put_channel_def put_poller_def)

subsection \<open>The application\<close>

text \<open>What is asked of the application: on an established connection its handlers are calm.\<close>

definition app_calm :: "('k, 'z) noted_world_scheme app \<Rightarrow> bool" where
  "app_calm app \<longleftrightarrow> (\<forall>w i h w'. established w i \<longrightarrow>
     (app_connection app h i w = Inr w' \<longrightarrow> calm w w') \<and> (\<forall>t. app_message app h i t w = Inr w' \<longrightarrow> calm w w') \<and>
     (app_writeComplete app h i w = Inr w' \<longrightarrow> calm w w') \<and> (\<forall>n. app_highWater app h i n w = Inr w' \<longrightarrow> calm w w'))"

lemma app_calmD:
  assumes "app_calm app" "established w i"
  shows "app_connection app h i w = Inr w' \<Longrightarrow> calm w w'" "app_message app h i t w = Inr w' \<Longrightarrow> calm w w'"
    "app_writeComplete app h i w = Inr w' \<Longrightarrow> calm w w'" "app_highWater app h i n w = Inr w' \<Longrightarrow> calm w w'"
  using assms unfolding app_calm_def by blast+

lemma noting_simps [simp]:
  "app_connection (noting app) h i w = andThen (tell i (\<lambda>co. if connected co then Up else Down) w) (app_connection app h i)"
  "app_message (noting app) h i t w = andThen (tell i (\<lambda>co. Data) w) (app_message app h i t)"
  "app_writeComplete (noting app) = app_writeComplete app" "app_highWater (noting app) = app_highWater app"
  "app_writeComplete (server_app os app) = app_writeComplete app" "app_highWater (server_app os app) = app_highWater app"
  by (simp_all add: server_app_def noting_def)

lemma tell_eq: "conns w i = Some co \<Longrightarrow> tell i x w = Inr (w\<lparr>told := told w @ [(cName co, x co)]\<rparr>)"
  by (simp add: tell_def)

lemma tell_calm:
  assumes "conns w i = Some co" "cState co \<noteq> Connecting" "x co \<noteq> Up" "tell i x w = Inr v"
  shows "calm w v"
proof -
  have v: "v = w\<lparr>told := told w @ [(cName co, x co)]\<rparr>" using assms(1,4) by (simp add: tell_eq)
  have "roll w i = Some (cName co, onConnection co, False)" using assms(1,2) by (simp add: roll_def)
  then show ?thesis
    using assms(3) unfolding calm_def v by (intro conjI exI [of _ "[(cName co, x co)]"] roll_cong desk_cong) auto
qed

lemma told_then:
  assumes app: "app_calm app" and i: "conns w i = Some co" "cState co \<noteq> Connecting" and x: "x co \<noteq> Up"
    and r: "andThen (tell i x w) f = Inr w'"
    and f: "\<And>v. established v i \<Longrightarrow> f v = Inr w' \<Longrightarrow> calm v w'"
  shows "calm w w'"
proof -
  from r obtain v where v: "tell i x w = Inr v" "f v = Inr w'" by (auto simp: andThen_Inr_iff)
  have c: "calm w v" by (rule tell_calm [OF i x v(1)])
  have "established w i" using i by (simp add: established_def)
  with c have "established v i" by (simp add: calm_established)
  from calm_trans [OF c f [OF this v(2)]] show ?thesis .
qed

lemma told_down:
  assumes app: "app_calm app" and i: "conns w i = Some co" "cState co = Disconnected"
    and r: "call (\<lambda>h. app_connection (server_app os (noting app)) h i) cb w = Inr w'"
  shows "calm w w'"
proof (cases cb)
  case (Some h)
  with r have "andThen (tell i (\<lambda>co. if connected co then Up else Down) w) (app_connection app h i) = Inr w'" by simp
  then show ?thesis
    by (rule told_then [OF app i(1), rotated 2]) (use i app_calmD(1) [OF app] in \<open>simp_all add: connected_def\<close>)
qed (use r in \<open>simp add: calm_refl\<close>)

lemma told_data:
  assumes app: "app_calm app" and i: "established w i"
    and r: "call (\<lambda>h. app_message (server_app os (noting app)) h i t) cb w = Inr w'"
  shows "calm w w'"
proof (cases cb)
  case (Some h)
  from i obtain co where co: "conns w i = Some co" "cState co \<noteq> Connecting" by (auto simp: established_def)
  from r Some have "andThen (tell i (\<lambda>co. Data) w) (app_message app h i t) = Inr w'" by simp
  then show ?thesis by (rule told_then [OF app co, rotated]) (use app_calmD(2) [OF app] in simp_all)
qed (use r in \<open>simp add: calm_refl\<close>)

subsection \<open>The handlers\<close>

lemma calm_kern: "calm w (w\<lparr>kern := k\<rparr>)"
  by (rule calm_untouched) simp_all

lemma removeConnectionInLoop_calm: "removeConnectionInLoop os i w = Inr w' \<Longrightarrow> calm w w'"
proof -
  assume r: "removeConnectionInLoop os i w = Inr w'"
  have c: "calm w (put_server (s\<lparr>connections := m\<rparr>) w)" if "theServer w = Some s" for s m
    by (intro calm_same roll_cong) (use that in \<open>simp_all add: desk_def put_server_def\<close>)
  from r show ?thesis
    by (auto simp: removeConnectionInLoop_def with_server_def with_conn_def split: option.splits if_splits
        intro: calm_refl calm_trans [OF c] nt.queue)
qed

lemma removeConnection_calm: "removeConnection os i w = Inr w' \<Longrightarrow> calm w w'"
  by (auto simp: removeConnection_def with_server_def runInLoop_def with_loop_def split: option.splits if_splits
      intro: removeConnectionInLoop_calm nt.queue)

lemma disable_conns: "disableAll os c w = Inr w' \<Longrightarrow> conns w' = conns w"
  unfolding channel_ops_change by (rule rx.change)

lemma switch_off_calm:
  assumes i: "conns w i = Some co" "cState co \<noteq> Connecting"
    and u: "disableAll os (cChan co) (put_conn i (co\<lparr>cState := Disconnected\<rparr>) w) = Inr u"
  shows "calm w u" "conns u i = Some (co\<lparr>cState := Disconnected\<rparr>)"
proof -
  have "calm w (put_conn i (co\<lparr>cState := Disconnected\<rparr>) w)" by (rule calm_put_conn [OF i(1)]) (use i(2) in simp_all)
  moreover have "calm (put_conn i (co\<lparr>cState := Disconnected\<rparr>) w) u" using u nt.change by (simp add: channel_ops_change)
  ultimately show "calm w u" by (rule calm_trans)
  show "conns u i = Some (co\<lparr>cState := Disconnected\<rparr>)" using disable_conns [OF u] by simp
qed

lemma handleClose_calm:
  assumes app: "app_calm app" and i: "established w i"
    and r: "handleClose os (server_app os (noting app)) i w = Inr w'"
  shows "calm w w'"
proof -
  from i obtain co where co: "conns w i = Some co" "cState co \<noteq> Connecting" by (auto simp: established_def)
  from r co obtain u v where
    u: "disableAll os (cChan co) (put_conn i (co\<lparr>cState := Disconnected\<rparr>) w) = Inr u" and
    v: "call (\<lambda>h. app_connection (server_app os (noting app)) h i) (onConnection co) u = Inr v" and
    w': "with_conn i v (\<lambda>co. call (\<lambda>h. app_close (server_app os (noting app)) h i) (onClose co) v) = Inr w'"
    by (auto simp: handleClose_def Let_def noexcept_Inr andThen_Inr_iff)
  note off = switch_off_calm [OF co u]
  have "calm u v" by (rule told_down [OF app off(2) _ v]) simp
  moreover have "calm v w'"
    using w' by (auto simp: with_conn_def call_def split: option.splits intro: calm_refl removeConnection_calm)
  ultimately show ?thesis by (rule calm_trans [OF calm_trans [OF off(1)]])
qed

lemma handleError_calm: "handleError os i w = Inr w' \<Longrightarrow> calm w w'"
  by (auto simp: handleError_def with_conn_def getSocketError_def split: option.splits sum.splits prod.splits intro: calm_kern)

lemma handleRead_calm:
  assumes app: "app_calm app" and i: "established w i"
    and r: "handleRead os (server_app os (noting app)) t i w = Inr w'"
  shows "calm w w'"
proof -
  from i obtain co where co: "conns w i = Some co" "cState co \<noteq> Connecting" by (auto simp: established_def)
  from r co obtain ch where ch: "chans w (cChan co) = Some ch" by (auto simp: handleRead_def with_channel_def split: option.splits)
  let ?k = "snd (sys_readv os (chFd ch) (read_iov (inputBuffer co)) (kern w))"
  from r co ch obtain n b where "readFd (\<lambda>v. fst (sys_readv os (chFd ch) v (kern w))) (inputBuffer co) = Inr (n, b)"
    by (auto simp: handleRead_def Let_def noexcept_Inr andThen_Inr_iff)
  let ?v = "put_conn i (co\<lparr>inputBuffer := b\<rparr>) (w\<lparr>kern := ?k\<rparr>)"
  from r co ch \<open>readFd _ _ = _\<close> have
    w': "(case n of Inr n \<Rightarrow> if n \<noteq> 0 then call (\<lambda>h. app_message (server_app os (noting app)) h i t) (onMessage co) ?v
           else handleClose os (server_app os (noting app)) i ?v
         | Inl e \<Rightarrow> handleError os i ?v) = Inr w'"
    by (simp add: handleRead_def Let_def noexcept_Inr)
  have "calm (w\<lparr>kern := ?k\<rparr>) ?v" by (rule calm_put_conn) (use co in simp_all)
  with calm_kern have v: "calm w ?v" by (rule calm_trans)
  with i have e: "established ?v i" by (simp add: calm_established)
  have "calm ?v w'"
  proof (cases n)
    case (Inl e)
    with w' show ?thesis by (simp add: handleError_calm)
  next
    case (Inr m)
    with w' show ?thesis by (auto split: if_splits intro: told_data [OF app e] handleClose_calm [OF app e])
  qed
  with v show ?thesis by (rule calm_trans)
qed

lemma loop_handleRead_calm: "loop_handleRead os l w = Inr w' \<Longrightarrow> calm w w'"
  by (auto simp: loop_handleRead_def with_loop_def split: option.splits intro: calm_kern)

lemma connectDestroyed_calm:
  assumes app: "app_calm app" and i: "established w i"
    and r: "connectDestroyed os (server_app os (noting app)) i w = Inr w'"
  shows "calm w w'"
proof -
  from i obtain co where co: "conns w i = Some co" "cState co \<noteq> Connecting" by (auto simp: established_def)
  let ?v = "put_conn i (co\<lparr>cState := Disconnected\<rparr>) w"
  have v: "calm w ?v" by (rule calm_put_conn [OF co(1)]) (use co(2) in simp_all)
  from r co obtain u where
    u: "(if cState co = Connected
         then andThen (disableAll os (cChan co) ?v) (call (\<lambda>h. app_connection (server_app os (noting app)) h i) (onConnection co))
         else Inr ?v) = Inr u" and w': "channel_remove os (cChan co) u = Inr w'"
    by (auto simp: connectDestroyed_def Let_def andThen_Inr_iff)
  have "calm w u"
  proof (cases "cState co = Connected")
    case True
    with u obtain x where x: "disableAll os (cChan co) ?v = Inr x"
      "call (\<lambda>h. app_connection (server_app os (noting app)) h i) (onConnection co) x = Inr u" by (auto simp: andThen_Inr_iff)
    note off = switch_off_calm [OF co x(1)]
    have "calm x u" by (rule told_down [OF app off(2) _ x(2)]) simp
    with off(1) show ?thesis by (rule calm_trans)
  qed (use u v in auto)
  then show ?thesis by (rule calm_trans) (rule nt.remove [OF w'])
qed

lemma acceptor_listen_calm: "acceptor_listen os w = Inr w' \<Longrightarrow> calm w w'"
proof -
  assume r: "acceptor_listen os w = Inr w'"
  then obtain a k where "enableReading os (aChan a) (w\<lparr>theAcceptor := Some (a\<lparr>listenning := True\<rparr>), kern := k\<rparr>) = Inr w'"
    by (auto simp: acceptor_listen_def with_acceptor_def socket_listen_def Let_def andThen_Inr_iff split: option.splits prod.splits)
  then have "calm (w\<lparr>theAcceptor := Some (a\<lparr>listenning := True\<rparr>), kern := k\<rparr>) w'"
    unfolding channel_ops_change by (rule nt.change)
  moreover have "calm w (w\<lparr>theAcceptor := Some (a\<lparr>listenning := True\<rparr>), kern := k\<rparr>)" by (rule calm_untouched) simp_all
  ultimately show ?thesis by (blast intro: calm_trans)
qed

lemma poll_calm: "poll os l t active w = Inr (now, cs, w') \<Longrightarrow> calm w w'"
proof -
  assume r: "poll os l t active w = Inr (now, cs, w')"
  then obtain k where "w' = w\<lparr>kern := k\<rparr> \<or> (\<exists>evs v l p. fillActiveChannels evs active (w\<lparr>kern := k\<rparr>) = Inr (cs, v) \<and>
      w' \<in> {v, put_poller l p v})"
    unfolding poll_def with_poller_def
    by (auto simp: Let_def andThen_Inr_iff split: option.splits sum.splits prod.splits if_splits) blast+
  then show ?thesis
  proof (elim disjE exE conjE)
    fix evs v l p assume "fillActiveChannels evs active (w\<lparr>kern := k\<rparr>) = Inr (cs, v)" and w': "w' \<in> {v, put_poller l p v}"
    from calm_trans [OF calm_kern nt.fill [OF this(1)]] nt.rel_poller calm_trans w' show ?thesis by blast
  qed (simp add: calm_kern)
qed

end
