(* ===== verification/Lifetime.thy ===== *)
theory Lifetime
  imports Server
begin

text \<open>
  When a connection is freed. A \<open>TcpConnectionPtr\<close> is held by the server's map and by the functors that
  capture one; \<open>send\<close>, \<open>shutdown\<close> and the notifications capture the bare \<open>this\<close> and keep nothing alive. The
  vector of functors \<open>doPendingFunctors\<close> runs is destroyed at its end, with what they captured: a
  connection no one else holds is destroyed then. \<open>live_turn\<close> is a turn of a loop with this made explicit.
\<close>

text \<open>The connection a functor owns a share of.\<close>

fun captured :: "functor_cb \<Rightarrow> conn option" where
  "captured (ConnectEstablished i) = Some i"
| "captured (RemoveConnectionInLoop i) = Some i"
| "captured (ConnectDestroyed i) = Some i"
| "captured f = None"

text \<open>Does anyone hold \<open>i\<close>? \<open>ls\<close> are the loops of the process.\<close>

definition referenced :: "lid list \<Rightarrow> conn \<Rightarrow> ('k, 'z) server_world_scheme \<Rightarrow> bool" where
  "referenced ls i w \<longleftrightarrow>
     (case theServer w of None \<Rightarrow> False | Some s \<Rightarrow> i \<in> snd ` set (connections s)) \<or>
     list_ex (\<lambda>l. case loops w l of None \<Rightarrow> False | Some lp \<Rightarrow> Some i \<in> captured ` set (pendingFunctors lp)) ls"

definition drop_ref :: "'k os \<Rightarrow> lid list \<Rightarrow> functor_cb \<Rightarrow> ('k, 'z) server_world_scheme \<Rightarrow>
    ('k, 'z) server_world_scheme result" where
  "drop_ref os ls f w =
     (case captured f of
        None \<Rightarrow> Inr w
      | Some i \<Rightarrow> if conns w i = None \<or> referenced ls i w then Inr w else destroy_connection os i w)"

definition run_batch :: "'k os \<Rightarrow> lid list \<Rightarrow>
    (functor_cb \<Rightarrow> ('k, 'z) server_world_scheme \<Rightarrow> ('k, 'z) server_world_scheme result) \<Rightarrow> lid \<Rightarrow>
    ('k, 'z) server_world_scheme \<Rightarrow> ('k, 'z) server_world_scheme result" where
  "run_batch os ls run l w =
     with_loop l w (\<lambda>lp. andThen (doPendingFunctors run l w) (each (drop_ref os ls) (pendingFunctors lp)))"

definition live_turn :: "'k os \<Rightarrow> lid list \<Rightarrow> ('k, 'z) server_world_scheme app \<Rightarrow>
    (('k, 'z) server_world_scheme \<Rightarrow> conn \<times> cid) \<Rightarrow>
    (nat \<Rightarrow> ('k, 'z) server_world_scheme \<Rightarrow> ('k, 'z) server_world_scheme result) \<Rightarrow> lid \<Rightarrow>
    ('k, 'z) server_world_scheme \<Rightarrow> ('k, 'z) server_world_scheme result" where
  "live_turn os ls app fresh user l w =
     andThen (poll os l kPollTimeMs [] w) (\<lambda>(now, active, w).
     andThen (modify_loop l (\<lambda>lp. lp\<lparr>activeChannels := active, pollReturnTime := now\<rparr>) w) (\<lambda>w.
     andThen (each (handleEvent (\<lambda>i w. conns w i \<noteq> None) (run_callback os app fresh) now) active w)
       (run_batch os ls (run_functor os app user) l)))"

text \<open>
  The bare \<open>this\<close> of \<open>send\<close> keeps nothing alive. If another thread found the connection Connected and queues its
  \<open>sendInLoop\<close> only after the loop has begun the batch with \<open>connectDestroyed\<close>, the connection is freed at
  the end of that batch and the next one uses it.
\<close>

lemma drop_ref_free:
  assumes "conns w i = Some co" "\<not> referenced ls i w" "captured f = Some i"
  shows "drop_ref os ls f w = destroy_connection os i w"
  using assms by (simp add: drop_ref_def)

end
