(* ===== verification/SafetyInv.thy ===== *)
theory SafetyInv
  imports Lifetime Footprint
begin

unbundle bit_operations_syntax

text \<open>
  The global invariant of a server with any number of loops: every pointer the program holds leads to a live
  object. \<open>world_ok\<close> says it of the pollers, channels, connections, queued functors and the server's map; \<open>grows\<close>
  says what a step never takes away. \<open>step_ok\<close> is the shape of all the facts about operations.

  The invariant has two parameters: \<open>l\<close>, the loop whose thread is executing, and \<open>T\<close>, the functors that loops
  have taken from their queues and not run yet, each with its loop.
\<close>

subsection \<open>What the kernel promises\<close>

text \<open>\<open>opn k\<close> are the descriptors that are open.\<close>

definition quiet_call :: "('k \<Rightarrow> 'k) \<Rightarrow> 'k interest \<Rightarrow> ('k \<Rightarrow> fd set) \<Rightarrow> bool" where
  "quiet_call g ep opn \<longleftrightarrow> (\<forall>k. ep (g k) = ep k \<and> opn (g k) = opn k)"

text \<open>
  \<open>epoll_wait\<close> reports registered descriptors, each at most once, with their user data; \<open>accept\<close> yields a
  descriptor that was not open; \<open>close\<close> takes a descriptor out of every interest list. The other calls change
  neither the interest lists nor the set of open descriptors.
\<close>

definition wait_contract :: "'k os \<Rightarrow> 'k interest \<Rightarrow> bool" where
  "wait_contract os ep \<longleftrightarrow> (\<forall>e n t k evs k'. sys_epoll_wait os e n t k = (Inr evs, k') \<longrightarrow>
     (\<exists>fs. distinct fs \<and> list_all2 (\<lambda>f (ev, c). \<exists>m. ep k e f = Some (m, c)) fs evs))"

definition accept_contract :: "'k os \<Rightarrow> 'k interest \<Rightarrow> ('k \<Rightarrow> fd set) \<Rightarrow> bool" where
  "accept_contract os ep opn \<longleftrightarrow> (\<forall>f k r k'. sys_accept os f k = (r, k') \<longrightarrow> ep k' = ep k \<and>
     (case r of Inl e \<Rightarrow> opn k' = opn k | Inr (g, peer) \<Rightarrow> g \<notin> opn k \<and> opn k' = insert g (opn k)))"

definition close_contract :: "'k os \<Rightarrow> 'k interest \<Rightarrow> ('k \<Rightarrow> fd set) \<Rightarrow> bool" where
  "close_contract os ep opn \<longleftrightarrow> (\<forall>f k. opn (sys_close os f k) = opn k - {f} \<and>
     ep (sys_close os f k) = (\<lambda>e. (ep k e)(f := None)))"

definition server_kernel :: "'k os \<Rightarrow> 'k interest \<Rightarrow> ('k \<Rightarrow> fd set) \<Rightarrow> bool" where
  "server_kernel os ep opn \<longleftrightarrow>
     epoll_contract os ep \<and> wait_contract os ep \<and> accept_contract os ep opn \<and> close_contract os ep opn \<and>
     (\<forall>f k. readv_contract (\<lambda>v. fst (sys_readv os f v k))) \<and>
     (\<forall>f k. write_contract (\<lambda>d. fst (sys_write os f d k))) \<and>
     (\<forall>e op f ev c k. opn (snd (sys_epoll_ctl os e op f ev c k)) = opn k) \<and>
     (\<forall>e n t. quiet_call (\<lambda>k. snd (sys_epoll_wait os e n t k)) ep opn) \<and>
     quiet_call (\<lambda>k. snd (sys_now os k)) ep opn \<and>
     (\<forall>f d. quiet_call (\<lambda>k. snd (sys_write os f d k)) ep opn) \<and>
     (\<forall>f v. quiet_call (\<lambda>k. snd (sys_readv os f v k)) ep opn) \<and>
     (\<forall>f. quiet_call (\<lambda>k. snd (sys_shutdown_wr os f k)) ep opn) \<and>
     (\<forall>f. quiet_call (sys_eventfd_write os f) ep opn) \<and>
     (\<forall>f. quiet_call (sys_eventfd_read os f) ep opn) \<and>
     (\<forall>f opt b. quiet_call (\<lambda>k. snd (sys_setsockopt os f opt b k)) ep opn) \<and>
     (\<forall>f n. quiet_call (\<lambda>k. snd (sys_listen os f n k)) ep opn) \<and>
     (\<forall>f. quiet_call (\<lambda>k. snd (sys_getsockopt_error os f k)) ep opn) \<and>
     (\<forall>f. quiet_call (\<lambda>k. snd (sys_getsockname os f k)) ep opn)"

lemma server_kernelD:
  assumes "server_kernel os ep opn"
  shows "epoll_contract os ep" "opn (snd (sys_epoll_ctl os e op f ev c k)) = opn k"
    "wait_contract os ep" "accept_contract os ep opn" "close_contract os ep opn"
    "readv_contract (\<lambda>v. fst (sys_readv os f v k))" "write_contract (\<lambda>d. fst (sys_write os f d k))"
  using assms by (simp_all add: server_kernel_def)

lemma server_kernel_quiet:
  assumes "server_kernel os ep opn"
  shows "ep (snd (sys_epoll_wait os e n t k)) = ep k" "opn (snd (sys_epoll_wait os e n t k)) = opn k"
    "ep (snd (sys_now os k)) = ep k" "opn (snd (sys_now os k)) = opn k"
    "ep (snd (sys_write os f d k)) = ep k" "opn (snd (sys_write os f d k)) = opn k"
    "ep (snd (sys_readv os f v k)) = ep k" "opn (snd (sys_readv os f v k)) = opn k"
    "ep (snd (sys_shutdown_wr os f k)) = ep k" "opn (snd (sys_shutdown_wr os f k)) = opn k"
    "ep (sys_eventfd_write os f k) = ep k" "opn (sys_eventfd_write os f k) = opn k"
    "ep (sys_eventfd_read os f k) = ep k" "opn (sys_eventfd_read os f k) = opn k"
    "ep (snd (sys_setsockopt os f opt b k)) = ep k" "opn (snd (sys_setsockopt os f opt b k)) = opn k"
    "ep (snd (sys_listen os f m k)) = ep k" "opn (snd (sys_listen os f m k)) = opn k"
    "ep (snd (sys_getsockopt_error os f k)) = ep k" "opn (snd (sys_getsockopt_error os f k)) = opn k"
    "ep (snd (sys_getsockname os f k)) = ep k" "opn (snd (sys_getsockname os f k)) = opn k"
  using assms by (simp_all add: server_kernel_def quiet_call_def)

subsection \<open>The invariant\<close>

type_synonym taken = "(lid \<times> functor_cb) set"

definition attached :: "('k, 'z) server_world_scheme \<Rightarrow> conn \<Rightarrow> bool" where
  "attached w i \<longleftrightarrow> (\<exists>s n. theServer w = Some s \<and> (n, i) \<in> set (connections s))"

definition leaving :: "('k, 'z) server_world_scheme \<Rightarrow> conn \<Rightarrow> bool" where
  "leaving w i \<longleftrightarrow> (\<exists>l lp. loops w l = Some lp \<and> ConnectDestroyed i \<in> set (pendingFunctors lp))"

text \<open>A connection of the loop \<open>l\<close> that is established, and one that is in the map or about to be destroyed.\<close>

definition mine :: "lid \<Rightarrow> ('k, 'z) conn_world_scheme \<Rightarrow> conn \<Rightarrow> bool" where
  "mine l w i \<longleftrightarrow> (\<exists>co. conns w i = Some co \<and> cLoop co = l \<and> cState co \<noteq> Connecting)"

definition held :: "lid \<Rightarrow> ('k, 'z) server_world_scheme \<Rightarrow> conn \<Rightarrow> bool" where
  "held l w i \<longleftrightarrow> (\<exists>co. conns w i = Some co \<and> cLoop co = l) \<and> (attached w i \<or> leaving w i)"

text \<open>A connection that is over: past Connected, and its events off.\<close>

definition closing :: "tcp_connection \<Rightarrow> bool" where
  "closing co \<longleftrightarrow> cState co = Disconnected \<or> cState co = Disconnecting"

definition dormant :: "('k, 'z) conn_world_scheme \<Rightarrow> conn \<Rightarrow> bool" where
  "dormant w i \<longleftrightarrow> (\<exists>co ch. conns w i = Some co \<and> chans w (cChan co) = Some ch \<and> closing co \<and> events ch = 0)"

definition callbacks_of :: "channel \<Rightarrow> event_cb option set" where
  "callbacks_of ch = {readCallback ch, writeCallback ch, closeCallback ch, errorCallback ch}"

definition cb_ok :: "('k, 'z) server_world_scheme \<Rightarrow> lid \<Rightarrow> cid \<Rightarrow> event_cb \<Rightarrow> bool" where
  "cb_ok w l c cb = (case cb of
       LoopHandleRead l' \<Rightarrow> l' = l
     | AcceptorHandleRead \<Rightarrow> \<exists>a. theAcceptor w = Some a \<and> aChan a = c
     | ConnHandleRead i \<Rightarrow> \<exists>co. conns w i = Some co \<and> cChan co = c
     | ConnHandleWrite i \<Rightarrow> \<exists>co. conns w i = Some co \<and> cChan co = c
     | ConnHandleClose i \<Rightarrow> \<exists>co. conns w i = Some co \<and> cChan co = c
     | ConnHandleError i \<Rightarrow> \<exists>co. conns w i = Some co \<and> cChan co = c)"

definition chans_ok :: "'k interest \<Rightarrow> ('k \<Rightarrow> fd set) \<Rightarrow> ('k, 'z) server_world_scheme \<Rightarrow> bool" where
  "chans_ok ep opn w \<longleftrightarrow> poller_sync ep w \<and>
     (\<forall>c ch. chans w c = Some ch \<longrightarrow> pollers w (chLoop ch) \<noteq> None \<and> chFd ch \<in> opn (kern w)) \<and>
     (\<forall>c c' ch ch'. chans w c = Some ch \<longrightarrow> chans w c' = Some ch' \<longrightarrow> chFd ch = chFd ch' \<longrightarrow> c = c')"

text \<open>A connection that is still Connecting has never been given to the poller.\<close>

definition conns_ok :: "('k, 'z) server_world_scheme \<Rightarrow> bool" where
  "conns_ok w \<longleftrightarrow> finite (dom (conns w)) \<and> finite (dom (chans w)) \<and>
     (\<forall>i co. conns w i = Some co \<longrightarrow> buffer_inv (inputBuffer co) \<and> buffer_inv (outputBuffer co) \<and>
        (\<exists>ch. chans w (cChan co) = Some ch \<and> chFd ch = cSock co \<and> chLoop ch = cLoop co \<and>
           readCallback ch = Some (ConnHandleRead i) \<and> (cState co = Connecting \<longrightarrow> index ch = KNew))) \<and>
     (\<forall>c ch cb. chans w c = Some ch \<longrightarrow> Some cb \<in> callbacks_of ch \<longrightarrow> cb_ok w (chLoop ch) c cb) \<and>
     (\<forall>c ch. chans w c = Some ch \<longrightarrow>
        Some AcceptorHandleRead \<notin> {writeCallback ch, closeCallback ch, errorCallback ch})"

text \<open>Names are given in the order of a counter, so no two live connections share one.\<close>

definition serves :: "('k, 'z) server_world_scheme \<Rightarrow> tcp_server \<Rightarrow> acceptor \<Rightarrow> bool" where
  "serves w s a \<longleftrightarrow> (\<exists>ch. chans w (aChan a) = Some ch \<and> chLoop ch = sLoop s) \<and>
     (\<forall>i co. conns w i = Some co \<longrightarrow> cChan co \<noteq> aChan a) \<and>
     (\<forall>l \<in> insert (sLoop s) (set (ploops (threadPool s))). pollers w l \<noteq> None) \<and> baseLoop (threadPool s) = sLoop s \<and>
     (\<forall>n i. (n, i) \<in> set (connections s) \<longrightarrow> (\<exists>co. conns w i = Some co \<and> cName co = n)) \<and>
     (\<forall>i co. conns w i = Some co \<longrightarrow>
        (\<exists>m < unat (nextConnId s). cName co = sName s @ ''-'' @ ipPort s @ ''#'' @ decimal m)) \<and>
     (\<forall>i j co co'. conns w i = Some co \<longrightarrow> conns w j = Some co' \<longrightarrow> cName co = cName co' \<longrightarrow> i = j)"

definition server_ok :: "('k, 'z) server_world_scheme \<Rightarrow> bool" where
  "server_ok w \<longleftrightarrow> (\<exists>s a. theServer w = Some s \<and> theAcceptor w = Some a \<and> serves w s a)"

lemma servesD:
  assumes "serves w s a"
  shows "\<exists>ch. chans w (aChan a) = Some ch \<and> chLoop ch = sLoop s" "conns w i = Some co \<Longrightarrow> cChan co \<noteq> aChan a"
    "l \<in> insert (sLoop s) (set (ploops (threadPool s))) \<Longrightarrow> pollers w l \<noteq> None" "baseLoop (threadPool s) = sLoop s"
    "(n, i) \<in> set (connections s) \<Longrightarrow> \<exists>co. conns w i = Some co \<and> cName co = n"
    "conns w i = Some co \<Longrightarrow> \<exists>m < unat (nextConnId s). cName co = sName s @ ''-'' @ ipPort s @ ''#'' @ decimal m"
    "conns w i = Some co \<Longrightarrow> conns w j = Some co' \<Longrightarrow> cName co = cName co' \<Longrightarrow> i = j"
  using assms unfolding serves_def by blast+

lemma servesI:
  assumes "\<exists>ch. chans w (aChan a) = Some ch \<and> chLoop ch = sLoop s" "\<And>i co. conns w i = Some co \<Longrightarrow> cChan co \<noteq> aChan a"
    "\<And>l. l \<in> insert (sLoop s) (set (ploops (threadPool s))) \<Longrightarrow> pollers w l \<noteq> None" "baseLoop (threadPool s) = sLoop s"
    "\<And>n i. (n, i) \<in> set (connections s) \<Longrightarrow> \<exists>co. conns w i = Some co \<and> cName co = n"
    "\<And>i co. conns w i = Some co \<Longrightarrow> \<exists>m < unat (nextConnId s). cName co = sName s @ ''-'' @ ipPort s @ ''#'' @ decimal m"
    "\<And>i j co co'. conns w i = Some co \<Longrightarrow> conns w j = Some co' \<Longrightarrow> cName co = cName co' \<Longrightarrow> i = j"
  shows "serves w s a"
  unfolding serves_def by (intro conjI allI impI ballI) (fact assms(1) assms(4) | erule (1) assms(7) | erule assms(2,3,5,6) | blast intro: assms)+

text \<open>What a functor needs to run in the loop \<open>l\<close>, and what one needs to stand in the queue of \<open>l\<close>.\<close>

definition base_loop :: "lid \<Rightarrow> ('k, 'z) server_world_scheme \<Rightarrow> bool" where
  "base_loop l w \<longleftrightarrow> (\<exists>s. theServer w = Some s \<and> sLoop s = l)"

definition waiting :: "lid \<Rightarrow> ('k, 'z) conn_world_scheme \<Rightarrow> conn \<Rightarrow> bool" where
  "waiting l w i \<longleftrightarrow> (\<exists>co. conns w i = Some co \<and> cLoop co = l \<and> cState co = Connecting)"

fun runnable :: "lid \<Rightarrow> ('k, 'z) server_world_scheme \<Rightarrow> functor_cb \<Rightarrow> bool" where
  "runnable l w (WriteComplete i) \<longleftrightarrow> mine l w i"
| "runnable l w (HighWaterMark i n) \<longleftrightarrow> mine l w i"
| "runnable l w (ConnectDestroyed i) \<longleftrightarrow> mine l w i"
| "runnable l w (ConnectEstablished i) \<longleftrightarrow> waiting l w i"
| "runnable l w (RemoveConnectionInLoop i) \<longleftrightarrow> base_loop l w \<and> dormant w i"
| "runnable l w AcceptorListen \<longleftrightarrow> base_loop l w"
| "runnable l w (UserFunctor n) \<longleftrightarrow> True"
| "runnable l w f \<longleftrightarrow> False"

text \<open>The connection a functor reaches by a bare \<open>this\<close>; \<open>captured\<close> is the one it owns a share of.\<close>

fun bare :: "functor_cb \<Rightarrow> conn option" where
  "bare (WriteComplete i) = Some i"
| "bare (HighWaterMark i n) = Some i"
| "bare (SendInLoop i d) = Some i"
| "bare (ShutdownInLoop i) = Some i"
| "bare f = None"

definition functor_ok :: "lid \<Rightarrow> ('k, 'z) server_world_scheme \<Rightarrow> functor_cb \<Rightarrow> bool" where
  "functor_ok l w f \<longleftrightarrow> runnable l w f \<and> (\<forall>i. bare f = Some i \<longrightarrow> held l w i)"

fun establishes :: "functor_cb \<Rightarrow> bool" where
  "establishes (ConnectEstablished i) = True"
| "establishes f = False"

text \<open>
  The loops: each has a poller and a thread of its own, what stands in its queue is as it should be, and no
  connection is established twice.
\<close>

definition loops_ok :: "taken \<Rightarrow> ('k, 'z) server_world_scheme \<Rightarrow> bool" where
  "loops_ok T w \<longleftrightarrow> (\<forall>l. pollers w l = None \<longleftrightarrow> loops w l = None) \<and>
     (\<forall>l l' lp lp'. loops w l = Some lp \<longrightarrow> loops w l' = Some lp' \<longrightarrow> threadId lp = threadId lp' \<longrightarrow> l = l') \<and>
     (\<forall>l lp f. loops w l = Some lp \<longrightarrow> f \<in> set (pendingFunctors lp) \<longrightarrow>
        functor_ok l w f \<and> (establishes f \<longrightarrow> (l, f) \<notin> T)) \<and>
     (\<forall>l lp. loops w l = Some lp \<longrightarrow> distinct (filter establishes (pendingFunctors lp))) \<and>
     (\<forall>l f. (l, f) \<in> T \<longrightarrow> runnable l w f)"

definition in_thread :: "lid \<Rightarrow> ('k, 'z) loop_world_scheme \<Rightarrow> bool" where
  "in_thread l w \<longleftrightarrow> (\<exists>lp. loops w l = Some lp \<and> threadId lp = curThread w)"

text \<open>A connection outside the map is over, and about to be destroyed or no longer known to the poller.\<close>

definition life_ok :: "taken \<Rightarrow> ('k, 'z) server_world_scheme \<Rightarrow> bool" where
  "life_ok T w \<longleftrightarrow> (\<forall>i co. conns w i = Some co \<longrightarrow> \<not> attached w i \<longrightarrow>
     dormant w i \<and> (leaving w i \<or> (cLoop co, ConnectDestroyed i) \<in> T \<or>
       (\<exists>ch. chans w (cChan co) = Some ch \<and> index ch = KNew)))"

definition world_ok :: "'k interest \<Rightarrow> ('k \<Rightarrow> fd set) \<Rightarrow> lid \<Rightarrow> taken \<Rightarrow> ('k, 'z) server_world_scheme \<Rightarrow> bool" where
  "world_ok ep opn l T w \<longleftrightarrow> chans_ok ep opn w \<and> conns_ok w \<and> server_ok w \<and> loops_ok T w \<and> life_ok T w \<and> in_thread l w"

lemma world_okD:
  assumes "world_ok ep opn l T w"
  shows "chans_ok ep opn w" "conns_ok w" "server_ok w" "loops_ok T w" "life_ok T w" "in_thread l w"
  using assms by (simp_all add: world_ok_def)

text \<open>The number of the next connection.\<close>

definition next_id :: "('k, 'z) server_world_scheme \<Rightarrow> nat" where
  "next_id w = (case theServer w of None \<Rightarrow> 0 | Some s \<Rightarrow> unat (nextConnId s))"

definition acceptor_chan :: "('k, 'z) server_world_scheme \<Rightarrow> cid option" where
  "acceptor_chan w = map_option aChan (theAcceptor w)"

text \<open>What a step never takes away.\<close>

definition same_loops :: "('k, 'z) loop_world_scheme \<Rightarrow> ('k, 'z) loop_world_scheme \<Rightarrow> bool" where
  "same_loops w w' \<longleftrightarrow> (\<forall>l. loops w' l = None \<longleftrightarrow> loops w l = None) \<and> (\<forall>l lp lp'. loops w l = Some lp \<longrightarrow> loops w' l = Some lp' \<longrightarrow>
     threadId lp' = threadId lp \<and> set (pendingFunctors lp) \<subseteq> set (pendingFunctors lp'))"

lemma same_loops_refl [simp]: "same_loops w w"
  by (simp add: same_loops_def)

lemma same_loops_eq: "loops w' = loops w \<Longrightarrow> same_loops w w'"
  by (simp add: same_loops_def)

lemma same_loopsD:
  assumes "same_loops w w'"
  shows "loops w' l = None \<longleftrightarrow> loops w l = None"
    and "loops w l = Some lp \<Longrightarrow> \<exists>lp'. loops w' l = Some lp' \<and> threadId lp' = threadId lp \<and>
      set (pendingFunctors lp) \<subseteq> set (pendingFunctors lp')"
  using assms unfolding same_loops_def by (blast, metis not_None_eq)

lemma same_loops_trans:
  assumes "same_loops u v" "same_loops v w"
  shows "same_loops u w"
  unfolding same_loops_def
proof (intro conjI allI impI)
  show "loops w l = None \<longleftrightarrow> loops u l = None" for l using same_loopsD(1) assms by blast
  fix l lp lp' assume l: "loops u l = Some lp" "loops w l = Some lp'"
  from same_loopsD(2) [OF assms(1) l(1)] obtain lv where
    lv: "loops v l = Some lv" "threadId lv = threadId lp" "set (pendingFunctors lp) \<subseteq> set (pendingFunctors lv)" by blast
  from same_loopsD(2) [OF assms(2) lv(1)] l(2) lv
  show "threadId lp' = threadId lp" "set (pendingFunctors lp) \<subseteq> set (pendingFunctors lp')" by auto
qed

lemma same_loops_leaving: "same_loops w w' \<Longrightarrow> leaving w i \<Longrightarrow> leaving w' i"
  unfolding leaving_def using same_loopsD(2) by blast

definition grows :: "('k, 'z) server_world_scheme \<Rightarrow> ('k, 'z) server_world_scheme \<Rightarrow> bool" where
  "grows w w' \<longleftrightarrow> (\<forall>l i. held l w i \<longrightarrow> held l w' i) \<and> (\<forall>l i. mine l w i \<longrightarrow> mine l w' i) \<and>
     (\<forall>i co. conns w i = Some co \<longrightarrow> (\<exists>co'. conns w' i = Some co' \<and> cChan co' = cChan co \<and> cLoop co' = cLoop co)) \<and>
     (\<forall>i co'. conns w' i = Some co' \<longrightarrow> conns w i \<noteq> None \<or> held (cLoop co') w' i \<and> chans w (cChan co') = None) \<and>
     (\<forall>c ch. chans w c = Some ch \<longrightarrow> (\<exists>ch'. chans w' c = Some ch' \<and> chLoop ch' = chLoop ch)) \<and>
     (\<forall>i. dormant w i \<longrightarrow> dormant w' i) \<and> acceptor_chan w' = acceptor_chan w \<and> same_loops w w'"

lemma growsI:
  assumes "\<And>l i. held l w i \<Longrightarrow> held l w' i" "\<And>l i. mine l w i \<Longrightarrow> mine l w' i"
    and "\<And>i co. conns w i = Some co \<Longrightarrow> \<exists>co'. conns w' i = Some co' \<and> cChan co' = cChan co \<and> cLoop co' = cLoop co"
    and "\<And>i co'. conns w' i = Some co' \<Longrightarrow> conns w i \<noteq> None \<or> held (cLoop co') w' i \<and> chans w (cChan co') = None"
    and "\<And>c ch. chans w c = Some ch \<Longrightarrow> \<exists>ch'. chans w' c = Some ch' \<and> chLoop ch' = chLoop ch"
    and "\<And>i. dormant w i \<Longrightarrow> dormant w' i" "theAcceptor w' = theAcceptor w" "same_loops w w'"
  shows "grows w w'"
  using assms unfolding grows_def acceptor_chan_def by (intro conjI allI impI) (blast | simp only:)+

lemma growsD:
  assumes "grows w w'"
  shows "held l w i \<Longrightarrow> held l w' i" "dormant w i \<Longrightarrow> dormant w' i" "mine l w i \<Longrightarrow> mine l w' i"
    "chans w c = Some ch \<Longrightarrow> \<exists>ch'. chans w' c = Some ch' \<and> chLoop ch' = chLoop ch"
    "conns w' i = Some co' \<Longrightarrow> conns w i \<noteq> None \<or> held (cLoop co') w' i \<and> chans w (cChan co') = None"
    "acceptor_chan w' = acceptor_chan w" "same_loops w w'"
    "conns w i = Some co \<Longrightarrow> \<exists>co'. conns w' i = Some co' \<and> cChan co' = cChan co \<and> cLoop co' = cLoop co"
  using assms unfolding grows_def by blast+

lemma grows_refl [simp]: "grows w w"
  by (simp add: grows_def)

lemma grows_trans:
  assumes "grows u v" "grows v w"
  shows "grows u w"
proof (unfold grows_def, intro conjI allI impI)
  show "same_loops u w" using growsD(7) assms same_loops_trans by blast
  show "acceptor_chan w = acceptor_chan u" using growsD(6) assms by metis
  show "\<exists>co'. conns w i = Some co' \<and> cChan co' = cChan co \<and> cLoop co' = cLoop co" if "conns u i = Some co" for i co
    using growsD(8) [OF assms(1) that] growsD(8) [OF assms(2)] by fastforce
  show "\<exists>ch'. chans w c = Some ch' \<and> chLoop ch' = chLoop ch" if "chans u c = Some ch" for c ch
    using growsD(4) [OF assms(1) that] growsD(4) [OF assms(2)] by fastforce
  fix i co' assume i: "conns w i = Some co'"
  show "conns u i \<noteq> None \<or> held (cLoop co') w i \<and> chans u (cChan co') = None"
  proof (cases "conns v i")
    case None
    with growsD(5) [OF assms(2) i] have h: "held (cLoop co') w i" "chans v (cChan co') = None" by auto
    have "chans u (cChan co') = None"
    proof (rule ccontr)
      assume "chans u (cChan co') \<noteq> None"
      then obtain ch where "chans u (cChan co') = Some ch" by blast
      from growsD(4) [OF assms(1) this] h(2) show False by simp
    qed
    with h(1) show ?thesis by blast
  next
    case (Some cv)
    from growsD(8) [OF assms(2) Some] i have "cChan co' = cChan cv" "cLoop co' = cLoop cv" by auto
    with growsD(5) [OF assms(1) Some] growsD(1) [OF assms(2)] show ?thesis by auto
  qed
next
  show "held l w i" if "held l u i" for l i by (rule growsD(1) [OF assms(2) growsD(1) [OF assms(1) that]])
  show "mine l w i" if "mine l u i" for l i by (rule growsD(3) [OF assms(2) growsD(3) [OF assms(1) that]])
  show "dormant w i" if "dormant u i" for i by (rule growsD(2) [OF assms(2) growsD(2) [OF assms(1) that]])
qed

lemma grows_simple:
  assumes "conns w' = conns w" "chans w' = chans w" "theServer w' = theServer w" "theAcceptor w' = theAcceptor w"
    and "same_loops w w'"
  shows "grows w w'"
proof (rule growsI)
  show "held l w' i" if "held l w i" for l i
    using that same_loops_leaving [OF assms(5)] assms(1,3) by (auto simp: held_def attached_def)
qed (use assms in \<open>simp_all add: mine_def dormant_def\<close>)

text \<open>The shape of all the facts about operations.\<close>

definition step_ok :: "'k interest \<Rightarrow> ('k \<Rightarrow> fd set) \<Rightarrow> lid \<Rightarrow> taken \<Rightarrow> ('k, 'z) server_world_scheme \<Rightarrow>
    ('k, 'z) server_world_scheme result \<Rightarrow> bool" where
  "step_ok ep opn l T w r \<longleftrightarrow> defined r (\<lambda>w'. world_ok ep opn l T w' \<and> grows w w' \<and> next_id w' = next_id w)"

lemma step_ok_Inr: "world_ok ep opn l T w \<Longrightarrow> step_ok ep opn l T w (Inr w)"
  by (simp add: step_ok_def)

lemma step_ok_Inl [simp]: "step_ok ep opn l T w (Inl e) \<longleftrightarrow> e \<noteq> Undefined"
  by (simp add: step_ok_def)

lemma step_ok_noexcept [simp]: "step_ok ep opn l T w (noexcept r) = step_ok ep opn l T w r"
  by (simp add: step_ok_def)

lemma step_ok_from:
  "step_ok ep opn l T v r \<Longrightarrow> grows w v \<Longrightarrow> next_id v = next_id w \<Longrightarrow> step_ok ep opn l T w r"
  unfolding step_ok_def by (auto elim!: defined_mono intro: grows_trans)

lemma step_ok_andThen:
  assumes "step_ok ep opn l T w r"
    and "\<And>v. r = Inr v \<Longrightarrow> world_ok ep opn l T v \<Longrightarrow> grows w v \<Longrightarrow> step_ok ep opn l U v (f v)"
  shows "step_ok ep opn l U w (andThen r f)"
proof (cases r)
  case (Inr v)
  with assms(1) have v: "world_ok ep opn l T v" "grows w v" "next_id v = next_id w" by (simp_all add: step_ok_def)
  show ?thesis unfolding Inr andThen_simps by (rule step_ok_from [OF assms(2) [OF Inr v(1,2)] v(2,3)])
qed (use assms(1) in simp)

end
