(* ===== verification/SafetyStep.thy ===== *)
theory SafetyStep
  imports SafetyInv
begin

unbundle bit_operations_syntax

text \<open>
  The primitive steps of a server against the global invariant: a system call that does not touch the interest
  lists, a new value of a connection, a change of a channel's events or its removal from the poller, and a queued
  functor. Every operation of the code is a composition of these.
\<close>

subsection \<open>What the parts of the invariant depend on\<close>

lemma server_fields [simp]:
  "theServer (put_conn i co w) = theServer w" "theAcceptor (put_conn i co w) = theAcceptor w"
  "theServer (put_channel c ch w) = theServer w" "theAcceptor (put_channel c ch w) = theAcceptor w"
  "theServer (put_loop l lp w) = theServer w" "theAcceptor (put_loop l lp w) = theAcceptor w"
  "theServer (put_poller l p w) = theServer w" "theAcceptor (put_poller l p w) = theAcceptor w"
  "theServer (put_entry c ch p k w) = theServer w" "theAcceptor (put_entry c ch p k w) = theAcceptor w"
  "theServer (put_server s w) = Some s" "theAcceptor (put_server s w) = theAcceptor w"
  "conns (put_server s w) = conns w" "chans (put_server s w) = chans w" "pollers (put_server s w) = pollers w"
  "loops (put_server s w) = loops w" "kern (put_server s w) = kern w" "curThread (put_server s w) = curThread w"
  by (simp_all add: put_conn_def put_channel_def put_loop_def put_poller_def put_entry_def put_server_def)

lemma sync_cong:
  "pollers w' = pollers w \<Longrightarrow> chans w' = chans w \<Longrightarrow> ep (kern w') = ep (kern w) \<Longrightarrow>
    poller_sync ep w' = poller_sync ep w"
  by (simp only: poller_sync_def poller_ok_def)

lemma attached_cong: "theServer w' = theServer w \<Longrightarrow> attached w' i = attached w i"
  by (simp add: attached_def)

lemma leaving_cong: "loops w' = loops w \<Longrightarrow> leaving w' i = leaving w i"
  by (simp add: leaving_def)

lemma dormant_cong: "conns w' = conns w \<Longrightarrow> chans w' = chans w \<Longrightarrow> dormant w' i = dormant w i"
  by (simp add: dormant_def)

lemma mine_cong: "conns w' = conns w \<Longrightarrow> mine l w' i = mine l w i" "conns w' = conns w \<Longrightarrow> waiting l w' i = waiting l w i"
  by (simp_all add: mine_def waiting_def)

lemma base_cong: "theServer w' = theServer w \<Longrightarrow> base_loop l w' = base_loop l w"
  by (simp add: base_loop_def)

lemma next_id_cong: "theServer w' = theServer w \<Longrightarrow> next_id w' = next_id w"
  by (simp add: next_id_def)

text \<open>What keeps a functor as it should be.\<close>

definition supports :: "('k, 'z) server_world_scheme \<Rightarrow> ('k, 'z) server_world_scheme \<Rightarrow> bool" where
  "supports w w' \<longleftrightarrow> (\<forall>l i. held l w i \<longrightarrow> held l w' i) \<and> (\<forall>l i. mine l w i \<longrightarrow> mine l w' i) \<and>
     (\<forall>i. dormant w i \<longrightarrow> dormant w' i) \<and> (\<forall>l. base_loop l w \<longrightarrow> base_loop l w')"

lemma supportsI:
  "grows w w' \<Longrightarrow> (\<And>l. base_loop l w \<Longrightarrow> base_loop l w') \<Longrightarrow> supports w w'"
  using growsD(1,2,3) unfolding supports_def by blast

lemma runnable_mono:
  assumes "runnable l w f" "supports w w'" "\<And>i. f = ConnectEstablished i \<Longrightarrow> waiting l w i \<Longrightarrow> waiting l w' i"
  shows "runnable l w' f"
  using assms by (cases f) (auto simp: supports_def)

lemma functor_ok_mono:
  assumes "functor_ok l w f" "supports w w'" "\<And>i. f = ConnectEstablished i \<Longrightarrow> waiting l w i \<Longrightarrow> waiting l w' i"
  shows "functor_ok l w' f"
  using assms runnable_mono [OF _ assms(2,3)] by (auto simp: functor_ok_def supports_def)

lemma cb_ok_mono:
  assumes "cb_ok w l c cb" "\<And>i co. conns w i = Some co \<Longrightarrow> \<exists>co'. conns w' i = Some co' \<and> cChan co' = cChan co"
    and "\<And>a. theAcceptor w = Some a \<Longrightarrow> \<exists>a'. theAcceptor w' = Some a' \<and> aChan a' = aChan a"
  shows "cb_ok w' l c cb"
proof (cases cb)
  case AcceptorHandleRead
  with assms(1,3) show ?thesis by (auto simp: cb_ok_def)
qed (use assms(1,2) in \<open>force simp: cb_ok_def\<close>)+

subsection \<open>Reading the invariant\<close>

lemma conns_okD:
  assumes "conns_ok w" "conns w i = Some co"
  shows "buffer_inv (inputBuffer co)" "buffer_inv (outputBuffer co)"
    "\<exists>ch. chans w (cChan co) = Some ch \<and> chFd ch = cSock co \<and> chLoop ch = cLoop co \<and>
      readCallback ch = Some (ConnHandleRead i) \<and> (cState co = Connecting \<longrightarrow> index ch = KNew)"
  using assms by (simp_all add: conns_ok_def)

lemma ok_conn:
  assumes "world_ok ep opn l T w" "conns w i = Some co"
  obtains ch where "chans w (cChan co) = Some ch" "chFd ch = cSock co" "readCallback ch = Some (ConnHandleRead i)"
    "chLoop ch = cLoop co" "buffer_inv (inputBuffer co)" "buffer_inv (outputBuffer co)"
    "cState co = Connecting \<Longrightarrow> index ch = KNew"
  using conns_okD [OF world_okD(2) [OF assms(1)] assms(2)] that by blast

lemma ok_bufs:
  assumes "world_ok ep opn l T w" "conns w i = Some co"
  shows "buffer_inv (inputBuffer co) \<and> buffer_inv (outputBuffer co)"
  using conns_okD(1,2) [OF world_okD(2) [OF assms(1)] assms(2)] by simp

lemma ok_chan_owner:
  assumes "world_ok ep opn l T w" "conns w i = Some co" "conns w j = Some co'" "cChan co = cChan co'"
  shows "i = j"
  using conns_okD(3) [OF world_okD(2) [OF assms(1)] assms(2)] conns_okD(3) [OF world_okD(2) [OF assms(1)] assms(3)]
    assms(4) by auto

lemma ok_channel:
  assumes "world_ok ep opn l T w" "chans w c = Some ch"
  shows "pollers w (chLoop ch) \<noteq> None" "chFd ch \<in> opn (kern w)"
    and "chans w c' = Some ch' \<Longrightarrow> chFd ch' = chFd ch \<Longrightarrow> c' = c"
  using assms unfolding world_ok_def chans_ok_def by blast+

lemma ok_sync: "world_ok ep opn l T w \<Longrightarrow> poller_sync ep w"
  by (simp add: world_ok_def chans_ok_def)

lemma loops_okD:
  assumes "loops_ok T w"
  shows "pollers w l = None \<longleftrightarrow> loops w l = None"
    "loops w l = Some lp \<Longrightarrow> loops w l' = Some lp' \<Longrightarrow> threadId lp = threadId lp' \<Longrightarrow> l = l'"
    "loops w l = Some lp \<Longrightarrow> f \<in> set (pendingFunctors lp) \<Longrightarrow> functor_ok l w f"
    "loops w l = Some lp \<Longrightarrow> f \<in> set (pendingFunctors lp) \<Longrightarrow> establishes f \<Longrightarrow> (l, f) \<notin> T"
    "loops w l = Some lp \<Longrightarrow> distinct (filter establishes (pendingFunctors lp))"
    "(l, f) \<in> T \<Longrightarrow> runnable l w f"
  using assms unfolding loops_ok_def by blast+

lemma ok_loop:
  assumes "world_ok ep opn l T w"
  obtains lp where "loops w l = Some lp" "threadId lp = curThread w"
    "\<And>f. f \<in> set (pendingFunctors lp) \<Longrightarrow> functor_ok l w f"
proof -
  obtain lp where lp: "loops w l = Some lp" "threadId lp = curThread w"
    using world_okD(6) [OF assms] by (auto simp: in_thread_def)
  with loops_okD(3) [OF world_okD(4) [OF assms]] that show ?thesis by blast
qed

lemma ok_poller:
  assumes "world_ok ep opn l T w"
  obtains p where "pollers w l = Some p"
proof -
  obtain lp where "loops w l = Some lp" using ok_loop [OF assms] .
  then have "pollers w l \<noteq> None" using loops_okD(1) [OF world_okD(4) [OF assms], of l] by simp
  with that show ?thesis by blast
qed

lemma ok_ready:
  assumes w: "world_ok ep opn l T w" and c: "chans w c = Some ch"
  shows "channel_ready c w"
proof -
  obtain p where p: "pollers w (chLoop ch) = Some p" using ok_channel(1) [OF w c] by blast
  have "channels p (chFd ch) = None" if idx: "index ch = KNew"
  proof (rule ccontr)
    assume "channels p (chFd ch) \<noteq> None"
    then obtain c' where c': "channels p (chFd ch) = Some c'" by blast
    from syncD(1) [OF ok_sync [OF w] p] c' obtain ch' where
      "chans w c' = Some ch'" "chFd ch' = chFd ch" "index ch' \<noteq> KNew"
      unfolding poller_ok_def by blast
    with ok_channel(3) [OF w c, of c' ch'] c idx show False by auto
  qed
  with p c show ?thesis by (simp add: channel_ready_def)
qed

text \<open>A connection that takes part is in the server's map.\<close>

lemma ok_attached:
  assumes "world_ok ep opn l T w" "conns w i = Some co"
    "\<not> closing co \<or> (\<exists>ch. chans w (cChan co) = Some ch \<and> events ch \<noteq> 0)"
  shows "attached w i"
proof (rule ccontr)
  assume "\<not> attached w i"
  with assms(1,2) have "dormant w i" by (auto simp: world_ok_def life_ok_def)
  with assms(2,3) show False by (auto simp: dormant_def)
qed

lemma ok_acceptor:
  assumes "world_ok ep opn l T w"
  obtains s a ch where "theServer w = Some s" "theAcceptor w = Some a" "chans w (aChan a) = Some ch" "chLoop ch = sLoop s"
    "\<And>i co. conns w i = Some co \<Longrightarrow> cChan co \<noteq> aChan a"
    "\<And>n i. (n, i) \<in> set (connections s) \<Longrightarrow> \<exists>co. conns w i = Some co \<and> cName co = n"
  using assms unfolding world_ok_def server_ok_def by (blast dest: servesD(1,2,5))

subsection \<open>System calls\<close>

lemma chans_ok_cong:
  assumes "pollers w' = pollers w" "chans w' = chans w" "ep (kern w') = ep (kern w)" "opn (kern w') = opn (kern w)"
  shows "chans_ok ep opn w' = chans_ok ep opn w"
  by (simp only: chans_ok_def sync_cong [where ep = ep, OF assms(1-3)] assms(1,2,4))

lemma conns_ok_cong:
  "conns w' = conns w \<Longrightarrow> chans w' = chans w \<Longrightarrow> theAcceptor w' = theAcceptor w \<Longrightarrow> conns_ok w' = conns_ok w"
  by (simp only: conns_ok_def cb_ok_def)

lemma server_ok_cong:
  "conns w' = conns w \<Longrightarrow> chans w' = chans w \<Longrightarrow> pollers w' = pollers w \<Longrightarrow> theAcceptor w' = theAcceptor w \<Longrightarrow>
    theServer w' = theServer w \<Longrightarrow> server_ok w' = server_ok w"
  by (simp only: server_ok_def serves_def)

lemma runnable_cong:
  "conns w' = conns w \<Longrightarrow> chans w' = chans w \<Longrightarrow> theServer w' = theServer w \<Longrightarrow> runnable l w' f = runnable l w f"
  by (cases f) (simp_all add: mine_def waiting_def dormant_def base_loop_def)

lemma functor_ok_cong:
  assumes "conns w' = conns w" "chans w' = chans w" "theServer w' = theServer w" "loops w' = loops w"
  shows "functor_ok l w' f = functor_ok l w f"
  by (simp only: functor_ok_def runnable_cong [OF assms(1-3)] held_def attached_def leaving_def assms(1,3,4))

lemma loops_ok_cong:
  assumes "conns w' = conns w" "chans w' = chans w" "theServer w' = theServer w" "loops w' = loops w" "pollers w' = pollers w"
  shows "loops_ok T w' = loops_ok T w"
  by (simp only: loops_ok_def functor_ok_cong [OF assms(1-4)] runnable_cong [OF assms(1-3)] assms(4,5))

lemma life_ok_cong:
  "conns w' = conns w \<Longrightarrow> chans w' = chans w \<Longrightarrow> theServer w' = theServer w \<Longrightarrow> loops w' = loops w \<Longrightarrow>
    life_ok T w' = life_ok T w"
  by (simp only: life_ok_def attached_def leaving_def dormant_def)

lemma in_thread_cong: "loops w' = loops w \<Longrightarrow> curThread w' = curThread w \<Longrightarrow> in_thread l w' = in_thread l w"
  by (simp add: in_thread_def)

lemma ok_kern:
  assumes "world_ok ep opn l T w" "ep k = ep (kern w)" "opn k = opn (kern w)"
  shows "world_ok ep opn l T (w\<lparr>kern := k\<rparr>)"
proof -
  let ?v = "w\<lparr>kern := k\<rparr>"
  have "world_ok ep opn l T ?v = world_ok ep opn l T w"
    by (simp add: world_ok_def chans_ok_cong [of ?v w] conns_ok_cong [of ?v w] server_ok_cong [of ?v w]
        loops_ok_cong [of ?v w] life_ok_cong [of ?v w] in_thread_cong [of ?v w] assms(2,3))
  with assms(1) show ?thesis by simp
qed

text \<open>A call that changes what is open, but nothing the server's objects use.\<close>

lemma ok_kern_wide:
  assumes w: "world_ok ep opn l T w"
    and ep: "\<And>l' p. pollers w l' = Some p \<Longrightarrow> ep k (epollfd p) = ep (kern w) (epollfd p)"
    and opn: "\<And>c ch. chans w c = Some ch \<Longrightarrow> chFd ch \<in> opn k"
  shows "world_ok ep opn l T (w\<lparr>kern := k\<rparr>)"
proof -
  let ?v = "w\<lparr>kern := k\<rparr>"
  have "poller_sync ep ?v"
    using ok_sync [OF w] ep by (simp add: poller_sync_def poller_ok_def)
  then have "chans_ok ep opn ?v"
    using world_okD(1) [OF w] opn by (simp add: chans_ok_def)
  with world_okD(2-6) [OF w] show ?thesis
    by (simp add: world_ok_def conns_ok_cong [of ?v w] server_ok_cong [of ?v w] loops_ok_cong [of ?v w]
        life_ok_cong [of ?v w] in_thread_cong [of ?v w])
qed

lemma step_kern:
  assumes "world_ok ep opn l T w" "ep k = ep (kern w)" "opn k = opn (kern w)"
  shows "step_ok ep opn l T w (Inr (w\<lparr>kern := k\<rparr>))"
proof -
  have "grows w (w\<lparr>kern := k\<rparr>)" by (rule grows_simple) (simp_all add: same_loops_eq)
  with ok_kern [OF assms] show ?thesis by (simp add: step_ok_def next_id_def)
qed

text \<open>Another thread goes on.\<close>

lemma ok_switch:
  assumes "world_ok ep opn l T w" "loops w l' = Some lp"
  shows "world_ok ep opn l' T (w\<lparr>curThread := threadId lp\<rparr>)"
proof -
  let ?v = "w\<lparr>curThread := threadId lp\<rparr>"
  show ?thesis
    using world_okD [OF assms(1)] assms(2)
    by (simp add: world_ok_def chans_ok_cong [of ?v w] conns_ok_cong [of ?v w] server_ok_cong [of ?v w]
        loops_ok_cong [of ?v w] life_ok_cong [of ?v w] in_thread_def)
qed

subsection \<open>New values of connections and channels\<close>

text \<open>A new value of a channel, and of a connection, that keeps what the invariant says of other objects.\<close>

definition chan_twin :: "channel \<Rightarrow> channel \<Rightarrow> bool" where
  "chan_twin ch ch' \<longleftrightarrow> chLoop ch' = chLoop ch \<and> chFd ch' = chFd ch \<and> readCallback ch' = readCallback ch \<and>
     writeCallback ch' = writeCallback ch \<and> closeCallback ch' = closeCallback ch \<and> errorCallback ch' = errorCallback ch"

definition conn_twin :: "tcp_connection \<Rightarrow> tcp_connection \<Rightarrow> bool" where
  "conn_twin co co' \<longleftrightarrow> cLoop co' = cLoop co \<and> cChan co' = cChan co \<and> cSock co' = cSock co \<and> cName co' = cName co \<and>
     (cState co' = Connecting \<longrightarrow> cState co = Connecting)"

lemma twin_refl [simp]: "chan_twin ch ch" "conn_twin co co"
  by (simp_all add: chan_twin_def conn_twin_def)

lemma chan_twin_updates [simp]:
  "chan_twin ch (registered g ch)" "chan_twin ch (set_index n ch)" "chan_twin ch (set_revents r ch)"
  "chan_twin ch (tie i ch)"
  by (simp_all add: chan_twin_def registered_def set_index_def set_revents_def tie_def)

definition twins :: "('k, 'z) server_world_scheme \<Rightarrow> ('k, 'z) server_world_scheme \<Rightarrow> bool" where
  "twins w w' \<longleftrightarrow> (\<forall>c. rel_option chan_twin (chans w c) (chans w' c)) \<and>
     (\<forall>i. rel_option conn_twin (conns w i) (conns w' i)) \<and> theServer w' = theServer w \<and>
     theAcceptor w' = theAcceptor w \<and> loops w' = loops w \<and> curThread w' = curThread w \<and>
     (\<forall>l. pollers w' l = None \<longleftrightarrow> pollers w l = None)"

lemma twinsD:
  assumes "twins w w'"
  shows "theServer w' = theServer w" "theAcceptor w' = theAcceptor w" "loops w' = loops w"
    "curThread w' = curThread w" "pollers w' l = None \<longleftrightarrow> pollers w l = None"
    "chans w' c = None \<longleftrightarrow> chans w c = None" "conns w' i = None \<longleftrightarrow> conns w i = None"
proof -
  have "rel_option chan_twin (chans w c) (chans w' c)" "rel_option conn_twin (conns w i) (conns w' i)"
    using assms by (simp_all add: twins_def)
  then show "chans w' c = None \<longleftrightarrow> chans w c = None" "conns w' i = None \<longleftrightarrow> conns w i = None"
    by (auto simp: rel_option_iff split: option.splits)
qed (use assms in \<open>simp_all add: twins_def\<close>)

lemma twins_chan:
  assumes "twins w w'" "chans w c = Some ch"
  obtains ch' where "chans w' c = Some ch'" "chan_twin ch ch'"
  using assms unfolding twins_def by (metis option_rel_Some1)

lemma twins_chan':
  assumes "twins w w'" "chans w' c = Some ch'"
  obtains ch where "chans w c = Some ch" "chan_twin ch ch'"
  using assms unfolding twins_def by (metis option_rel_Some2)

lemma twins_conn:
  assumes "twins w w'" "conns w i = Some co"
  obtains co' where "conns w' i = Some co'" "conn_twin co co'"
  using assms unfolding twins_def by (metis option_rel_Some1)

lemma twins_conn':
  assumes "twins w w'" "conns w' i = Some co'"
  obtains co where "conns w i = Some co" "conn_twin co co'"
  using assms unfolding twins_def by (metis option_rel_Some2)

lemma twins_held:
  assumes "twins w w'"
  shows "attached w' i = attached w i" "leaving w' i = leaving w i" "held l w' i = held l w i"
    "mine l w i \<Longrightarrow> mine l w' i"
proof -
  show al: "attached w' i = attached w i" "leaving w' i = leaving w i"
    using twinsD [OF assms] by (simp_all add: attached_def leaving_def)
  have r: "rel_option conn_twin (conns w i) (conns w' i)" using assms by (simp add: twins_def)
  with al show "held l w' i = held l w i"
    by (auto simp: held_def conn_twin_def rel_option_iff split: option.splits)
  from r show "mine l w' i" if "mine l w i"
    using that by (auto simp: mine_def conn_twin_def rel_option_iff split: option.splits)
qed

lemma twins_grows:
  assumes t: "twins w w'" and dorm: "\<And>i. dormant w i \<Longrightarrow> dormant w' i"
  shows "grows w w'"
proof (rule growsI)
  show "\<exists>co'. conns w' i = Some co' \<and> cChan co' = cChan co \<and> cLoop co' = cLoop co" if i: "conns w i = Some co" for i co
    by (rule twins_conn [OF t i]) (simp add: conn_twin_def)
  show "\<exists>ch'. chans w' c = Some ch' \<and> chLoop ch' = chLoop ch" if c: "chans w c = Some ch" for c ch
    by (rule twins_chan [OF t c]) (simp add: chan_twin_def)
  show "conns w i \<noteq> None \<or> held (cLoop co') w' i \<and> chans w (cChan co') = None" if "conns w' i = Some co'" for i co'
    using twinsD(7) [OF t, of i] that by simp
next
  show "held l w' i" if "held l w i" for l i using that twins_held(3) [OF t] by blast
  show "mine l w' i" if "mine l w i" for l i by (rule twins_held(4) [OF t that])
  show "dormant w' i" if "dormant w i" for i by (rule dorm [OF that])
  show "theAcceptor w' = theAcceptor w" "same_loops w w'" using twinsD(2,3) [OF t] by (simp_all add: same_loops_eq)
qed

lemma twins_conns_ok:
  assumes t: "twins w w'" and w: "conns_ok w"
    and bufs: "\<And>i co. conns w' i = Some co \<Longrightarrow> buffer_inv (inputBuffer co) \<and> buffer_inv (outputBuffer co)"
    and new: "\<And>i co ch. conns w' i = Some co \<Longrightarrow> cState co = Connecting \<Longrightarrow> chans w' (cChan co) = Some ch \<Longrightarrow> index ch = KNew"
  shows "conns_ok w'"
proof -
  have a: "buffer_inv (inputBuffer co) \<and> buffer_inv (outputBuffer co) \<and>
      (\<exists>ch. chans w' (cChan co) = Some ch \<and> chFd ch = cSock co \<and> chLoop ch = cLoop co \<and>
         readCallback ch = Some (ConnHandleRead i) \<and> (cState co = Connecting \<longrightarrow> index ch = KNew))"
    if i: "conns w' i = Some co" for i co
  proof -
    obtain co0 where c0: "conns w i = Some co0" "conn_twin co0 co" using twins_conn' [OF t i] .
    note c = conns_okD [OF w c0(1)]
    from c(3) obtain ch where ch: "chans w (cChan co0) = Some ch" "chFd ch = cSock co0" "chLoop ch = cLoop co0"
      "readCallback ch = Some (ConnHandleRead i)" by blast
    obtain ch' where "chans w' (cChan co0) = Some ch'" "chan_twin ch ch'" using twins_chan [OF t ch(1)] .
    with ch c0(2) bufs [OF i] new [OF i] show ?thesis by (simp add: chan_twin_def conn_twin_def)
  qed
  have b: "cb_ok w' (chLoop ch) c cb \<and> Some AcceptorHandleRead \<notin> {writeCallback ch, closeCallback ch, errorCallback ch}"
    if c: "chans w' c = Some ch" "Some cb \<in> callbacks_of ch" for c ch cb
  proof -
    obtain ch0 where ch0: "chans w c = Some ch0" "chan_twin ch0 ch" using twins_chan' [OF t c(1)] .
    then have "callbacks_of ch = callbacks_of ch0" "chLoop ch = chLoop ch0" by (simp_all add: callbacks_of_def chan_twin_def)
    with c ch0 w have "cb_ok w (chLoop ch) c cb" by (simp add: conns_ok_def)
    then have "cb_ok w' (chLoop ch) c cb"
    proof (rule cb_ok_mono)
      show "\<exists>co'. conns w' i = Some co' \<and> cChan co' = cChan co" if "conns w i = Some co" for i co
        using twins_conn [OF t that] by (metis conn_twin_def)
      show "\<exists>a'. theAcceptor w' = Some a' \<and> aChan a' = aChan a" if "theAcceptor w = Some a" for a
        using that twinsD(2) [OF t] by simp
    qed
    with w ch0 show ?thesis by (simp add: conns_ok_def chan_twin_def)
  qed
  have c: "Some AcceptorHandleRead \<notin> {writeCallback ch, closeCallback ch, errorCallback ch}"
    if "chans w' c = Some ch" for c ch
    using b [OF that, of AcceptorHandleRead] by (auto simp: callbacks_of_def)
  have d: "dom (conns w') = dom (conns w)" "dom (chans w') = dom (chans w)"
    using twinsD(6,7) [OF t] by (auto simp: dom_def)
  from w have f: "finite (dom (conns w))" "finite (dom (chans w))" by (simp_all add: conns_ok_def)
  show ?thesis unfolding conns_ok_def d using a b c f by blast
qed

lemma twins_server_ok:
  assumes t: "twins w w'" and w: "server_ok w"
  shows "server_ok w'"
proof -
  from w obtain s a where sa: "theServer w = Some s" "theAcceptor w = Some a" "serves w s a"
    unfolding server_ok_def by blast
  have old: "\<exists>co0. conns w i = Some co0 \<and> cChan co = cChan co0 \<and> cName co = cName co0"
    if "conns w' i = Some co" for i co
    using twins_conn' [OF t that] by (metis conn_twin_def)
  have "serves w' s a"
  proof (rule servesI)
    show "\<exists>co'. conns w' i = Some co' \<and> cName co' = n" if "(n, i) \<in> set (connections s)" for n i
      using servesD(5) [OF sa(3) that] twins_conn [OF t] by (metis conn_twin_def)
    show "\<exists>ch. chans w' (aChan a) = Some ch \<and> chLoop ch = sLoop s"
      using servesD(1) [OF sa(3)] twins_chan [OF t] by (metis chan_twin_def)
    show "pollers w' l \<noteq> None" if "l \<in> insert (sLoop s) (set (ploops (threadPool s)))" for l
      using servesD(3) [OF sa(3) that] twinsD(5) [OF t, of l] by simp
    show "i = j" if "conns w' i = Some co" "conns w' j = Some co'" "cName co = cName co'" for i j co co'
      using old [OF that(1)] old [OF that(2)] that(3) servesD(7) [OF sa(3)] by metis
  qed (use old servesD(2,4,6) [OF sa(3)] in metis)+
  with sa twinsD(1,2) [OF t] show ?thesis by (auto simp: server_ok_def)
qed

text \<open>A connection that is to be established.\<close>

definition establishing :: "taken \<Rightarrow> ('k, 'z) loop_world_scheme \<Rightarrow> conn \<Rightarrow> bool" where
  "establishing T w i \<longleftrightarrow> (\<exists>l. (l, ConnectEstablished i) \<in> T) \<or>
     (\<exists>l lp. loops w l = Some lp \<and> ConnectEstablished i \<in> set (pendingFunctors lp))"

lemma establishingI:
  "(l, ConnectEstablished i) \<in> T \<Longrightarrow> establishing T w i"
  "loops w l = Some lp \<Longrightarrow> ConnectEstablished i \<in> set (pendingFunctors lp) \<Longrightarrow> establishing T w i"
  by (auto simp: establishing_def)

lemma establishing_waits:
  assumes "world_ok ep opn l T w" "establishing T w i"
  shows "\<exists>l. waiting l w i"
  using assms(2) loops_okD(3,6) [OF world_okD(4) [OF assms(1)]] unfolding establishing_def
  by (elim disjE exE conjE) (fastforce simp: functor_ok_def)+

text \<open>The loops' part of the invariant, when the loops stay as they are.\<close>

lemma loops_ok_mono:
  assumes w: "loops_ok T w" and s: "supports w w'"
    and same: "loops w' = loops w" "\<And>l. pollers w' l = None \<longleftrightarrow> pollers w l = None"
    and wait: "\<And>i l. establishing T w i \<Longrightarrow> waiting l w i \<Longrightarrow> waiting l w' i"
  shows "loops_ok T w'"
proof -
  note d = loops_okD [OF w]
  have f: "functor_ok l w' f" if "loops w l = Some lp" "f \<in> set (pendingFunctors lp)" for l lp f
    by (rule functor_ok_mono [OF d(3) [OF that] s]) (use that wait establishingI(2) in blast)
  have r: "runnable l w' f" if "(l, f) \<in> T" for l f
    by (rule runnable_mono [OF d(6) [OF that] s]) (use that wait establishingI(1) in blast)
  show ?thesis
    unfolding loops_ok_def same using d(1,2,4,5) f r by blast
qed

lemma twins_chans_ok:
  assumes t: "twins w w'" and w: "chans_ok ep opn w"
    and sync: "poller_sync ep w'" and opn: "opn (kern w') = opn (kern w)"
  shows "chans_ok ep opn w'"
proof -
  have old: "\<exists>ch0. chans w c = Some ch0 \<and> chLoop ch = chLoop ch0 \<and> chFd ch = chFd ch0"
    if "chans w' c = Some ch" for c ch
    using twins_chan' [OF t that] by (metis chan_twin_def)
  have a: "pollers w' (chLoop ch) \<noteq> None \<and> chFd ch \<in> opn (kern w')" if "chans w' c = Some ch" for c ch
    using old [OF that] w opn twinsD(5) [OF t] by (auto simp: chans_ok_def)
  have b: "c = c'" if m: "chans w' c = Some ch" "chans w' c' = Some ch'" "chFd ch = chFd ch'" for c c' ch ch'
  proof -
    obtain ch0 ch0' where "chans w c = Some ch0" "chans w c' = Some ch0'" "chFd ch0 = chFd ch0'"
      using old [OF m(1)] old [OF m(2)] m(3) by auto
    with w show ?thesis unfolding chans_ok_def by blast
  qed
  show ?thesis
    unfolding chans_ok_def using sync a b by blast
qed

lemma step_twins:
  assumes t: "twins w w'" and w: "world_ok ep opn l T w"
    and sync: "poller_sync ep w'" and opn: "opn (kern w') = opn (kern w)"
    and bufs: "\<And>i co. conns w' i = Some co \<Longrightarrow> buffer_inv (inputBuffer co) \<and> buffer_inv (outputBuffer co)"
    and new: "\<And>i co ch. conns w' i = Some co \<Longrightarrow> cState co = Connecting \<Longrightarrow> chans w' (cChan co) = Some ch \<Longrightarrow> index ch = KNew"
    and wait: "\<And>i l. establishing T w i \<Longrightarrow> waiting l w i \<Longrightarrow> waiting l w' i"
    and dorm: "\<And>i. dormant w i \<Longrightarrow> dormant w' i"
    and gone: "\<And>i co. conns w i = Some co \<Longrightarrow> \<not> attached w i \<Longrightarrow> leaving w i \<or> (cLoop co, ConnectDestroyed i) \<in> T \<or>
      (\<exists>ch. chans w' (cChan co) = Some ch \<and> index ch = KNew)"
  shows "step_ok ep opn l T w (Inr w')"
proof -
  have "life_ok T w'"
    unfolding life_ok_def twins_held(1,2) [OF t]
  proof (intro allI impI conjI)
    fix i co assume i: "conns w' i = Some co" "\<not> attached w i"
    obtain co0 where c0: "conns w i = Some co0" "conn_twin co0 co" using twins_conn' [OF t i(1)] .
    with w i(2) have "dormant w i" by (simp add: world_ok_def life_ok_def)
    then show "dormant w' i" by (rule dorm)
    show "leaving w i \<or> (cLoop co, ConnectDestroyed i) \<in> T \<or> (\<exists>ch. chans w' (cChan co) = Some ch \<and> index ch = KNew)"
      using gone [OF c0(1) i(2)] c0(2) by (simp add: conn_twin_def)
  qed
  moreover have g: "grows w w'" by (rule twins_grows [OF t dorm])
  moreover have "base_loop l w' = base_loop l w" for l by (rule base_cong [OF twinsD(1) [OF t]])
  then have "supports w w'" by (intro supportsI [OF g]) simp
  then have "loops_ok T w'"
    by (rule loops_ok_mono [OF world_okD(4) [OF w] _ twinsD(3) [OF t] twinsD(5) [OF t] wait])
  ultimately have "world_ok ep opn l T w'"
    using world_okD(1-3,6) [OF w] twins_chans_ok [OF t _ sync opn] twins_conns_ok [OF t _ bufs new] twins_server_ok [OF t]
      in_thread_cong [OF twinsD(3,4) [OF t]]
    by (simp add: world_ok_def)
  with g show ?thesis by (simp add: step_ok_def next_id_cong [OF twinsD(1) [OF t]])
qed

subsection \<open>The primitive steps\<close>

lemma ok_life:
  assumes "world_ok ep opn l T w" "conns w i = Some co" "\<not> attached w i"
  shows "dormant w i"
    and "leaving w i \<or> (cLoop co, ConnectDestroyed i) \<in> T \<or> (\<exists>ch. chans w (cChan co) = Some ch \<and> index ch = KNew)"
  using assms by (simp_all add: world_ok_def life_ok_def)

lemma ok_new:
  assumes "world_ok ep opn l T w" "conns w i = Some co" "cState co = Connecting" "chans w (cChan co) = Some ch"
  shows "index ch = KNew"
  using conns_okD(3) [OF world_okD(2) [OF assms(1)] assms(2)] assms(3,4) by auto

text \<open>A new value of a connection; one that is to be established stays Connecting.\<close>

lemma step_conn:
  assumes w: "world_ok ep opn l T w" and i: "conns w i = Some co" and twin: "conn_twin co co'"
    and bufs: "buffer_inv (inputBuffer co')" "buffer_inv (outputBuffer co')"
    and st: "closing co \<Longrightarrow> closing co'" "cState co = Connecting \<Longrightarrow> cState co' = Connecting \<or> \<not> establishing T w i"
  shows "step_ok ep opn l T w (Inr (put_conn i co' w))"
proof (rule step_twins [OF _ w])
  show "twins w (put_conn i co' w)"
    using i twin by (auto simp: twins_def rel_option_iff split: option.splits)
  show "poller_sync ep (put_conn i co' w)" using ok_sync [OF w] by (simp add: sync_cong [of "put_conn i co' w" w])
  show "buffer_inv (inputBuffer x) \<and> buffer_inv (outputBuffer x)" if "conns (put_conn i co' w) j = Some x" for j x
    using that bufs ok_bufs [OF w, of j] by (auto split: if_splits)
  show "index ch = KNew" if "conns (put_conn i co' w) j = Some x" "cState x = Connecting"
    "chans (put_conn i co' w) (cChan x) = Some ch" for j x ch
    using that i twin ok_new [OF w, of j x ch] ok_new [OF w i, of ch] by (auto simp: conn_twin_def split: if_splits)
  show "waiting m (put_conn i co' w) j" if "establishing T w j" "waiting m w j" for j m
    using that i st(2) twin by (auto simp: waiting_def conn_twin_def)
  show "dormant (put_conn i co' w) j" if "dormant w j" for j
    using that i st twin by (auto simp: dormant_def conn_twin_def)
qed (use ok_life(2) [OF w] in simp_all)

text \<open>A channel's other fields do not matter to the poller.\<close>

lemma put_channel_sync:
  assumes sync: "poller_sync ep w" and c: "chans w c = Some ch"
    and same: "chLoop ch' = chLoop ch" "chFd ch' = chFd ch" "events ch' = events ch" "index ch' = index ch"
  shows "poller_sync ep (put_channel c ch' w)"
proof -
  let ?cs = "(chans w)(c \<mapsto> ch')"
  have ei: "expected_interest p ?cs = expected_interest p (chans w)" for p
    using c same by (auto simp: fun_eq_iff expected_interest_def split: option.splits)
  have "poller_ok ep (kern w) ?cs l p" if p: "pollers w l = Some p" for l p
  proof -
    note ok = syncD(1) [OF sync p]
    have "\<exists>x. ?cs c' = Some x \<and> chFd x = f \<and> chLoop x = l \<and> index x \<noteq> KNew" if "channels p f = Some c'" for f c'
      using ok that c same unfolding poller_ok_def by (cases "c' = c") (fastforce+)
    with ok show ?thesis unfolding poller_ok_def ei by blast
  qed
  moreover have "channel_ok (pollers w) d x" if "?cs d = Some x" for d x
    using that syncD(2) [OF sync] c same by (cases "d = c") (auto simp: channel_ok_def)
  ultimately show ?thesis using syncD(3) [OF sync] by (simp add: poller_sync_def)
qed

lemma step_channel:
  assumes w: "world_ok ep opn l T w" and c: "chans w c = Some ch" and twin: "chan_twin ch ch'"
    and same: "events ch' = events ch" "index ch' = index ch"
  shows "step_ok ep opn l T w (Inr (put_channel c ch' w))"
proof (rule step_twins [OF _ w])
  show "twins w (put_channel c ch' w)"
    using c twin by (auto simp: twins_def rel_option_iff split: option.splits)
  show "poller_sync ep (put_channel c ch' w)"
    by (rule put_channel_sync [OF ok_sync [OF w] c]) (use twin same in \<open>simp_all add: chan_twin_def\<close>)
  show "dormant (put_channel c ch' w) j" if "dormant w j" for j
    using that c same by (auto simp: dormant_def)
  show "leaving w j \<or> (cLoop co, ConnectDestroyed j) \<in> T \<or> (\<exists>x. chans (put_channel c ch' w) (cChan co) = Some x \<and> index x = KNew)"
    if "conns w j = Some co" "\<not> attached w j" for j co
    using ok_life(2) [OF w that] c same by auto
  show "index x = KNew" if "conns (put_channel c ch' w) j = Some y" "cState y = Connecting"
    "chans (put_channel c ch' w) (cChan y) = Some x" for j x y
    using that c same ok_new [OF w, of j y] by (auto split: if_splits)
qed (use ok_bufs [OF w] in \<open>simp_all add: waiting_def\<close>)

text \<open>Writing a channel's entry.\<close>

lemma step_entry:
  assumes w: "world_ok ep opn l T w" and c: "chans w c = Some ch" and twin: "chan_twin ch ch'"
    and p: "pollers w (chLoop ch) = Some p" and sync: "poller_sync ep (put_entry c ch' p k w)" and opn: "opn k = opn (kern w)"
    and dorm: "\<And>i co. conns w i = Some co \<Longrightarrow> cChan co = c \<Longrightarrow> dormant w i \<Longrightarrow> events ch' = 0"
    and gone: "\<And>i co. conns w i = Some co \<Longrightarrow> cChan co = c \<Longrightarrow>
      held (cLoop co) w i \<or> (cLoop co, ConnectDestroyed i) \<in> T \<or> index ch' = KNew"
    and new: "\<And>i co. conns w i = Some co \<Longrightarrow> cChan co = c \<Longrightarrow> cState co = Connecting \<Longrightarrow> index ch' = KNew"
  shows "step_ok ep opn l T w (Inr (put_entry c ch' p k w))"
proof (rule step_twins [OF _ w])
  have l: "chLoop ch' = chLoop ch" using twin by (simp add: chan_twin_def)
  show "twins w (put_entry c ch' p k w)"
    using c p l twin by (auto simp: twins_def rel_option_iff split: option.splits)
  show "dormant (put_entry c ch' p k w) j" if "dormant w j" for j
    using that dorm [of j] by (auto simp: dormant_def)
  show "leaving w j \<or> (cLoop co, ConnectDestroyed j) \<in> T \<or> (\<exists>x. chans (put_entry c ch' p k w) (cChan co) = Some x \<and> index x = KNew)"
    if "conns w j = Some co" "\<not> attached w j" for j co
    using ok_life(2) [OF w that] gone [OF that(1)] that by (auto simp: held_def)
  show "index x = KNew" if "conns (put_entry c ch' p k w) j = Some y" "cState y = Connecting"
    "chans (put_entry c ch' p k w) (cChan y) = Some x" for j x y
    using that new [of j y] ok_new [OF w, of j y] by (auto split: if_splits)
qed (use sync opn ok_bufs [OF w] in \<open>simp_all add: waiting_def\<close>)

text \<open>
  Changing a channel's events: a dormant connection's stay off, and only the channels of established connections
  that are held or in a batch are given to the poller.
\<close>

lemma step_change:
  assumes os: "server_kernel os ep opn" and w: "world_ok ep opn l T w" and c: "chans w c = Some ch"
    and dorm: "\<And>i co. conns w i = Some co \<Longrightarrow> cChan co = c \<Longrightarrow> dormant w i \<Longrightarrow> g (events ch) = 0"
    and gone: "\<And>i co. conns w i = Some co \<Longrightarrow> cChan co = c \<Longrightarrow> held (cLoop co) w i \<or> (cLoop co, ConnectDestroyed i) \<in> T"
    and new: "\<And>i co. conns w i = Some co \<Longrightarrow> cChan co = c \<Longrightarrow> cState co \<noteq> Connecting"
  shows "step_ok ep opn l T w (change_events os g c w)"
    and "change_events os g c w = Inr w' \<Longrightarrow> chans w' c = Some (registered g ch) \<and> conns w' = conns w"
proof -
  obtain p where p: "pollers w (chLoop ch) = Some p" using ok_channel(1) [OF w c] by blast
  note cases = change_events_cases [OF ok_sync [OF w] server_kernelD(1) [OF os] ok_ready [OF w c] c p, of g]
  have opn: "opn k = opn (kern w)" if "change_events os g c w = Inr (put_entry c (registered g ch) p k w)" for k
  proof -
    obtain r k' where r: "sys_epoll_ctl os (epollfd p) (update_ctl g ch) (chFd ch) (g (events ch)) c (kern w) = (r, k')"
      by fastforce
    with that have "put_entry c (registered g ch) p k w = put_entry c (registered g ch) p k' w"
      unfolding change_events_unfold [OF ok_sync [OF w] c p] by (auto split: option.splits if_splits)
    then have "k = k'" by (metis put_entry_fields(1))
    with r server_kernelD(2) [OF os] show ?thesis by (metis snd_conv)
  qed
  show "step_ok ep opn l T w (change_events os g c w)"
    using cases
  proof (elim disjE exE conjE)
    fix k assume k: "change_events os g c w = Inr (put_entry c (registered g ch) p k w)"
      "poller_sync ep (put_entry c (registered g ch) p k w)"
    show ?thesis
      unfolding k(1) by (rule step_entry [OF w c _ p k(2) opn [OF k(1)]]) (use dorm gone new in auto)
  qed simp
  show "chans w' c = Some (registered g ch) \<and> conns w' = conns w" if "change_events os g c w = Inr w'"
    using cases that by auto
qed

lemma remove_opn:
  assumes "server_kernel os ep opn" "channel_remove os c w = Inr w'"
  shows "opn (kern w') = opn (kern w)"
proof -
  have "opn k' = opn k" if "sys_epoll_ctl os e op f ev d k = (r, k')" for e op f ev d k r k'
    using server_kernelD(2) [OF assms(1), of e op f ev d k] that by simp
  with assms(2) show ?thesis
    by (auto simp: channel_remove_def loop_removeChannel_def poller_removeChannel_def updateOperation_def
        with_channel_def with_poller_def modify_channel_def Let_def andThen_Inr_iff
        split: option.splits prod.splits if_splits)
qed

text \<open>Functors that have run are no longer taken.\<close>

lemma ok_shrink:
  assumes w: "world_ok ep opn l T w" and sub: "U \<subseteq> T"
    and over: "\<And>i co. conns w i = Some co \<Longrightarrow> (cLoop co, ConnectDestroyed i) \<in> T \<Longrightarrow>
      (cLoop co, ConnectDestroyed i) \<in> U \<or> held (cLoop co) w i \<or> (\<exists>ch. chans w (cChan co) = Some ch \<and> index ch = KNew)"
  shows "world_ok ep opn l U w"
proof -
  have "life_ok U w"
    unfolding life_ok_def using ok_life [OF w] over by (fastforce simp: held_def)
  moreover have "loops_ok U w"
    using world_okD(4) [OF w] sub unfolding loops_ok_def by blast
  ultimately show ?thesis using w by (simp add: world_ok_def)
qed

lemma step_remove:
  assumes os: "server_kernel os ep opn" and w: "world_ok ep opn l T w" and i: "conns w i = Some co"
    and U: "U \<subseteq> T" "T \<subseteq> insert (cLoop co, ConnectDestroyed i) U"
  shows "step_ok ep opn l U w (channel_remove os (cChan co) w)"
proof -
  obtain ch where c: "chans w (cChan co) = Some ch" "chLoop ch = cLoop co" using ok_conn [OF w i] .
  obtain p where p: "pollers w (chLoop ch) = Some p" using ok_channel(1) [OF w c(1)] by blast
  from removeChannel_ok [OF ok_sync [OF w] server_kernelD(1) [OF os] ok_ready [OF w c(1)] c(1) p] obtain k where
    k: "channel_remove os (cChan co) w = Inr (put_entry (cChan co) (set_index KNew ch) p k w)" (is "_ = Inr ?v")
      "poller_sync ep (put_entry (cChan co) (set_index KNew ch) p k w)" by blast
  have s: "step_ok ep opn l T w (Inr ?v)"
  proof (rule step_entry [OF w c(1) _ p k(2)])
    show "opn k = opn (kern w)" using remove_opn [OF os k(1)] by simp
    show "events (set_index KNew ch) = 0"
      if "conns w j = Some x" "cChan x = cChan co" "dormant w j" for j x
      using that c(1) by (auto simp: dormant_def)
  qed simp_all
  have "world_ok ep opn l U ?v"
  proof (rule ok_shrink)
    show "world_ok ep opn l T ?v" using s by (simp add: step_ok_def)
    show "(cLoop x, ConnectDestroyed j) \<in> U \<or> held (cLoop x) ?v j \<or> (\<exists>ch. chans ?v (cChan x) = Some ch \<and> index ch = KNew)"
      if "conns ?v j = Some x" "(cLoop x, ConnectDestroyed j) \<in> T" for j x
    proof (cases "j = i")
      case True
      with that(1) i show ?thesis by simp
    next
      case False
      with that(2) U(2) have "(cLoop x, ConnectDestroyed j) \<in> U" by blast
      then show ?thesis by blast
    qed
  qed (rule U(1))
  with s show ?thesis unfolding k(1) by (simp add: step_ok_def)
qed

subsection \<open>The queues\<close>

lemma step_put_loop:
  assumes w: "world_ok ep opn l T w" and lp: "loops w m = Some lp"
    and new: "threadId lp' = threadId lp" "set (pendingFunctors lp) \<subseteq> set (pendingFunctors lp')"
    and fs: "\<And>f. f \<in> set (pendingFunctors lp') \<Longrightarrow> f \<in> set (pendingFunctors lp) \<or>
      functor_ok m w f \<and> (establishes f \<longrightarrow> (m, f) \<notin> T)"
    and once: "distinct (filter establishes (pendingFunctors lp'))"
  shows "step_ok ep opn l T w (Inr (put_loop m lp' w))"
proof -
  let ?v = "put_loop m lp' w"
  have same: "same_loops w ?v"
    using lp new by (auto simp: same_loops_def)
  have g: "grows w ?v" by (rule grows_simple) (use same in simp_all)
  have s: "supports w ?v" by (rule supportsI [OF g]) (simp add: base_loop_def)
  note d = loops_okD [OF world_okD(4) [OF w]]
  have wait: "waiting k ?v i = waiting k w i" for k i by (simp add: waiting_def)
  have "loops_ok T ?v"
    unfolding loops_ok_def
  proof (intro conjI allI impI)
    show "pollers ?v k = None \<longleftrightarrow> loops ?v k = None" for k using d(1) [of k] lp by auto
    have old: "\<exists>y. loops w k = Some y \<and> threadId y = threadId x" if "loops ?v k = Some x" for k x
      using that lp new(1) by (auto split: if_splits)
    show "k = k'" if "loops ?v k = Some x" "loops ?v k' = Some x'" "threadId x = threadId x'" for k k' x x'
      using old [OF that(1)] old [OF that(2)] that(3) d(2) by metis
    fix k x f assume x: "loops ?v k = Some x" "f \<in> set (pendingFunctors x)"
    have "functor_ok k w f \<and> (establishes f \<longrightarrow> (k, f) \<notin> T)"
      using x fs [of f] d(3,4) [OF lp, of f] d(3,4) [of k x f] by (auto split: if_splits)
    then show "functor_ok k ?v f" "establishes f \<Longrightarrow> (k, f) \<notin> T"
      using functor_ok_mono [OF _ s] wait by blast+
  next
    show "distinct (filter establishes (pendingFunctors x))" if "loops ?v k = Some x" for k x
      using that once d(5) [of k x] by (auto split: if_splits)
    show "runnable k ?v f" if "(k, f) \<in> T" for k f
      using runnable_mono [OF d(6) [OF that] s] wait by blast
  qed
  moreover have "life_ok T ?v"
    unfolding life_ok_def attached_cong [of ?v w, OF server_fields(5)]
    using ok_life [OF w] same_loops_leaving [OF same] by (fastforce simp: dormant_def)
  moreover have "in_thread l ?v" using world_okD(6) [OF w] lp new(1) by (auto simp: in_thread_def)
  ultimately have "world_ok ep opn l T ?v"
    using world_okD(1-3) [OF w] chans_ok_cong [of ?v w ep opn] conns_ok_cong [of ?v w] server_ok_cong [of ?v w]
    by (simp add: world_ok_def)
  with g show ?thesis by (simp add: step_ok_def next_id_cong [of ?v w])
qed

lemma step_queue:
  assumes os: "server_kernel os ep opn" and w: "world_ok ep opn l T w" and f: "functor_ok m w f" "loops w m \<noteq> None"
    and once: "\<And>i. f = ConnectEstablished i \<Longrightarrow> \<not> establishing T w i"
  shows "step_ok ep opn l T w (queueInLoop os m f w)"
    and "queueInLoop os m f w = Inr w' \<Longrightarrow> conns w' = conns w \<and> chans w' = chans w"
proof -
  obtain lp where lp: "loops w m = Some lp" using f(2) by blast
  let ?v = "put_loop m (lp\<lparr>pendingFunctors := pendingFunctors lp @ [f]\<rparr>) w"
  have no: "(k, f) \<notin> T \<and> f \<notin> set (pendingFunctors lp)" if "establishes f" for k
    using that once lp by (cases f) (auto simp: establishing_def)
  have v: "step_ok ep opn l T w (Inr ?v)"
    by (rule step_put_loop [OF w lp]) (use f no loops_okD(5) [OF world_okD(4) [OF w] lp] in auto)
  then have ok: "world_ok ep opn l T ?v" "grows w ?v" "next_id ?v = next_id w" by (simp_all add: step_ok_def)
  have "step_ok ep opn l T ?v (Inr (?v\<lparr>kern := if threadId lp \<noteq> curThread w \<or> callingPendingFunctors lp
      then sys_eventfd_write os (wakeupFd lp) (kern w) else kern w\<rparr>))"
    by (rule step_kern [OF ok(1)]) (simp_all add: server_kernel_quiet [OF os])
  then show "step_ok ep opn l T w (queueInLoop os m f w)"
    unfolding queueInLoop_eq [OF lp] by (rule step_ok_from [OF _ ok(2,3)])
  show "conns w' = conns w \<and> chans w' = chans w" if "queueInLoop os m f w = Inr w'"
    using that unfolding queueInLoop_eq [OF lp] by auto
qed

text \<open>A task for the executing loop is run at once; one for another loop is queued.\<close>

lemma run_here:
  assumes "world_ok ep opn l T w"
  shows "runInLoop os l f body w = body w" "with_loop l w (\<lambda>lp. if isInLoopThread lp w then a else b) = a"
proof -
  obtain lp where "loops w l = Some lp" "threadId lp = curThread w" using ok_loop [OF assms] .
  then show "runInLoop os l f body w = body w" "with_loop l w (\<lambda>lp. if isInLoopThread lp w then a else b) = a"
    by (simp_all add: runInLoop_def isInLoopThread_def)
qed

lemma run_there:
  assumes "world_ok ep opn l T w" "m \<noteq> l" "loops w m \<noteq> None"
  shows "runInLoop os m f body w = queueInLoop os m f w"
proof -
  obtain lp where l: "loops w l = Some lp" "threadId lp = curThread w" using ok_loop [OF assms(1)] .
  obtain lm where m: "loops w m = Some lm" using assms(3) by blast
  with loops_okD(2) [OF world_okD(4) [OF assms(1)] m l(1)] l assms(2) show ?thesis
    by (auto simp: runInLoop_def isInLoopThread_def)
qed

end
