(* ===== verification/SafetyConn.thy ===== *)
theory SafetyConn
  imports SafetyStep
begin

unbundle bit_operations_syntax

text \<open>
  The operations and callbacks of a connection keep the global invariant. What each needs is in its
  hypotheses: \<open>send\<close>, \<open>shutdown\<close>, \<open>handleWrite\<close> and \<open>handleError\<close> only that the connection is alive, \<open>handleRead\<close>
  and \<open>handleClose\<close> also that someone holds it.
\<close>

lemma ok_alive: "world_ok ep opn l T w \<Longrightarrow> conns w i = Some co \<Longrightarrow> \<not> closing co \<Longrightarrow> held (cLoop co) w i"
  using ok_attached [of ep opn l T w i co] by (simp add: held_def)

lemma connected_alive [simp]: "cState co = Connected \<Longrightarrow> \<not> closing co"
  by (simp add: closing_def)

lemma grows_conn:
  assumes "grows w w'" "conns w i = Some co"
  obtains co' where "conns w' i = Some co'" "cChan co' = cChan co" "cLoop co' = cLoop co"
  using growsD(8) [OF assms] by blast

lemma mineD:
  assumes "mine l w i"
  obtains co where "conns w i = Some co" "cLoop co = l" "cState co \<noteq> Connecting"
  using assms by (auto simp: mine_def)

text \<open>A functor of the executing loop that establishes nothing.\<close>

lemma step_queue_if:
  assumes "server_kernel os ep opn" "world_ok ep opn l T w" "functor_ok l w f" "\<not> establishes f"
  shows "step_ok ep opn l T w (if b then queueInLoop os l f w else Inr w)"
proof -
  have "loops w l \<noteq> None" using ok_loop [OF assms(2)] by (metis option.distinct(1))
  then have "step_ok ep opn l T w (queueInLoop os l f w)"
    by (rule step_queue(1) [OF assms(1-3)]) (use assms(4) in auto)
  with step_ok_Inr [OF assms(2)] show ?thesis by simp
qed

lemma queue_if_conns:
  assumes "world_ok ep opn l T w" "(if b then queueInLoop os l f w else Inr w) = Inr v"
  shows "conns v = conns w \<and> chans v = chans w"
proof -
  obtain lp where "loops w l = Some lp" using ok_loop [OF assms(1)] .
  with assms(2) show ?thesis by (auto simp: queueInLoop_eq split: if_splits)
qed

text \<open>The events of a connection that is not over.\<close>

lemma step_conn_events:
  assumes os: "server_kernel os ep opn" and w: "world_ok ep opn l T w" and i: "conns w i = Some co"
    and h: "held (cLoop co) w i \<or> (cLoop co, ConnectDestroyed i) \<in> T" and g: "closing co \<Longrightarrow> g 0 = 0"
    and up: "cState co \<noteq> Connecting"
  shows "step_ok ep opn l T w (change_events os g (cChan co) w)"
    and "change_events os g (cChan co) w = Inr w' \<Longrightarrow>
      (\<exists>ch. chans w (cChan co) = Some ch \<and> chans w' (cChan co) = Some (registered g ch)) \<and> conns w' = conns w"
proof -
  obtain ch where ch: "chans w (cChan co) = Some ch" using ok_conn [OF w i] .
  have own: "j = i" if "conns w j = Some x" "cChan x = cChan co" for j x
    by (rule ok_chan_owner [OF w that(1) i that(2)])
  have dorm: "g (events ch) = 0" if "conns w j = Some x" "cChan x = cChan co" "dormant w j" for j x
    using own [OF that(1,2)] that(3) i ch g by (auto simp: dormant_def)
  have gone: "held (cLoop x) w j \<or> (cLoop x, ConnectDestroyed j) \<in> T" "cState x \<noteq> Connecting"
    if "conns w j = Some x" "cChan x = cChan co" for j x
    using own [OF that] that(1) h up i by auto
  show "step_ok ep opn l T w (change_events os g (cChan co) w)"
    by (rule step_change(1) [OF os w ch]) (use dorm gone in blast)+
  show "(\<exists>ch. chans w (cChan co) = Some ch \<and> chans w' (cChan co) = Some (registered g ch)) \<and> conns w' = conns w"
    if r: "change_events os g (cChan co) w = Inr w'"
  proof -
    have "chans w' (cChan co) = Some (registered g ch) \<and> conns w' = conns w"
      by (rule step_change(2) [OF os w ch _ _ _ r]) (use dorm gone in blast)+
    with ch show ?thesis by blast
  qed
qed

subsection \<open>Sending\<close>

lemma raise_writing_step:
  assumes os: "server_kernel os ep opn" and w: "world_ok ep opn l T w" and i: "conns w i = Some co" "cState co = Connected"
  shows "step_ok ep opn l T w (with_channel (cChan co) w (\<lambda>ch.
    if \<not> isWriting ch then enableWriting os (cChan co) w else Inr w))"
proof -
  obtain ch where "chans w (cChan co) = Some ch" using ok_conn [OF w i(1)] .
  with step_conn_events(1) [OF os w i(1), of "\<lambda>e. e OR kWriteEvent"] ok_alive [OF w i(1)] i(2) step_ok_Inr [OF w]
  show ?thesis by (simp add: channel_ops_change)
qed

lemma send_direct_step:
  assumes os: "server_kernel os ep opn" and w: "world_ok ep opn l T w" and i: "conns w i = Some co" "cState co = Connected"
    and loop: "cLoop co = l"
  shows "defined (send_direct os data i w) (\<lambda>(m, rem, err, v).
    step_ok ep opn l T w (Inr v) \<and> conns v = conns w)"
proof -
  obtain ch where ch: "chans w (cChan co) = Some ch" using ok_conn [OF w i(1)] .
  obtain r k where wr: "sys_write os (chFd ch) data (kern w) = (r, k)" by fastforce
  have kk: "ep k = ep (kern w)" "opn k = opn (kern w)"
    using server_kernel_quiet(5,6) [OF os, of "chFd ch" data "kern w"] wr by simp_all
  note s = step_kern [OF w kk]
  have ok: "world_ok ep opn l T (w\<lparr>kern := k\<rparr>)" by (rule ok_kern [OF w kk])
  have f: "functor_ok l (w\<lparr>kern := k\<rparr>) (WriteComplete i)"
    using ok_alive [OF w i(1)] i loop by (auto simp: functor_ok_def mine_def held_def attached_def leaving_def)
  have q: "defined (if b then queueInLoop os l (WriteComplete i) (w\<lparr>kern := k\<rparr>) else Inr (w\<lparr>kern := k\<rparr>))
      (\<lambda>v. step_ok ep opn l T w (Inr v) \<and> conns v = conns w)" for b
  proof (cases "if b then queueInLoop os l (WriteComplete i) (w\<lparr>kern := k\<rparr>) else Inr (w\<lparr>kern := k\<rparr>)")
    case (Inl e)
    with step_queue_if [OF os ok f, of b] show ?thesis by simp
  next
    case (Inr v)
    have "step_ok ep opn l T (w\<lparr>kern := k\<rparr>) (Inr v)" using step_queue_if [OF os ok f, of b] Inr by simp
    then have "step_ok ep opn l T w (Inr v)"
      by (rule step_ok_from) (use s in \<open>simp_all add: step_ok_def\<close>)
    with queue_if_conns [OF ok Inr] Inr show ?thesis by simp
  qed
  show ?thesis
  proof (cases r)
    case (Inl e)
    then show ?thesis using i ch wr s w step_ok_Inr [OF w] by (simp add: send_direct_def Let_def)
  next
    case (Inr n)
    have "send_direct os data i w = (if \<not> isWriting ch \<and> readableBytes (outputBuffer co) = 0 then
        andThen (if of_nat (length data) - n = 0 \<and> onWriteComplete co \<noteq> None
          then queueInLoop os l (WriteComplete i) (w\<lparr>kern := k\<rparr>) else Inr (w\<lparr>kern := k\<rparr>))
          (\<lambda>w. Inr (n, of_nat (length data) - n, False, w))
        else Inr (0, of_nat (length data), False, w))"
      using i ch wr Inr by (simp add: send_direct_def Let_def loop cong: if_cong split del: if_split)
    moreover have "defined (andThen (if of_nat (length data) - n = 0 \<and> onWriteComplete co \<noteq> None
          then queueInLoop os l (WriteComplete i) (w\<lparr>kern := k\<rparr>) else Inr (w\<lparr>kern := k\<rparr>))
          (\<lambda>w. Inr (n, of_nat (length data) - n, False, w)))
        (\<lambda>(m, rem, err, v). step_ok ep opn l T w (Inr v) \<and> conns v = conns w)"
      by (rule defined_andThen [OF q]) simp
    ultimately show ?thesis
      using step_ok_Inr [OF w] by (cases "\<not> isWriting ch \<and> readableBytes (outputBuffer co) = 0") (simp_all only: if_True if_False defined_simps prod.case simp_thms)
  qed
qed

lemma sendInLoop_step:
  assumes os: "server_kernel os ep opn" and w: "world_ok ep opn l T w" and i: "conns w i = Some co" "cState co = Connected"
    and loop: "cLoop co = l" and len: "length data \<le> max_size"
  shows "step_ok ep opn l T w (sendInLoop os data i w)"
proof -
  have rest: "step_ok ep opn l T v (send_rest os data i (m, rem, err, v))"
    if v: "world_ok ep opn l T v" "conns v i = Some co" for m rem err v
  proof (cases "\<not> err \<and> rem > 0")
    case True
    let ?d = "take (unat rem) (drop (unat m) data)"
    obtain ch where b: "chans v (cChan co) = Some ch" "buffer_inv (inputBuffer co)" "buffer_inv (outputBuffer co)"
      using ok_conn [OF v] .
    have "length ?d \<le> max_size" using len by simp
    from buffer_append_cases [OF b(3) this] show ?thesis
    proof
      assume "buffer_append ?d (outputBuffer co) = Inl LengthError \<and> max_size < unat (writerIndex (outputBuffer co)) + length ?d"
      then show ?thesis using True v(2) by (simp add: send_rest_def Let_def)
    next
      assume "returns (buffer_append ?d (outputBuffer co)) (appended (outputBuffer co) ?d)"
      then obtain bf where bf: "buffer_append ?d (outputBuffer co) = Inr bf" "buffer_inv bf"
        unfolding returns_iff appended_def by blast
      let ?co = "co\<lparr>outputBuffer := bf\<rparr>" and ?old = "readableBytes (outputBuffer co)"
      let ?u = "put_conn i ?co v"
      have live: "cState ?co = Connected" using i(2) by simp
      have u: "step_ok ep opn l T v (Inr ?u)"
        by (rule step_conn [OF v]) (use b(2) bf(2) i(2) in \<open>simp_all add: conn_twin_def\<close>)
      then have uw: "world_ok ep opn l T ?u" by (simp add: step_ok_def)
      have ui: "conns ?u i = Some ?co" and same: "cChan ?co = cChan co" by simp_all
      have f: "functor_ok l ?u (HighWaterMark i (?old + rem))"
        using ok_alive [OF uw ui connected_alive [OF live]] i(2) loop by (simp add: functor_ok_def mine_def)
      have "step_ok ep opn l T v (andThen (Inr ?u) (\<lambda>u. andThen
          (if ?old < highWaterMark co \<and> ?old + rem \<ge> highWaterMark co \<and> onHighWaterMark co \<noteq> None
           then queueInLoop os l (HighWaterMark i (?old + rem)) u else Inr u)
          (\<lambda>x. with_channel (cChan co) x (\<lambda>ch. if \<not> isWriting ch then enableWriting os (cChan co) x else Inr x))))"
      proof (rule step_ok_andThen [OF u], drule sym, simp only: sum.inject, hypsubst_thin?,
          rule step_ok_andThen [OF step_queue_if [OF os uw f]])
        fix x
        assume q: "(if ?old < highWaterMark co \<and> ?old + rem \<ge> highWaterMark co \<and> onHighWaterMark co \<noteq> None
           then queueInLoop os l (HighWaterMark i (?old + rem)) ?u else Inr ?u) = Inr x" and x: "world_ok ep opn l T x"
        have "conns x i = Some ?co" using queue_if_conns [OF uw q] by simp
        from raise_writing_step [OF os x this live, unfolded same]
        show "step_ok ep opn l T x (with_channel (cChan co) x (\<lambda>ch. if \<not> isWriting ch then enableWriting os (cChan co) x else Inr x))"
          .
      qed simp
      then show ?thesis using True v(2) bf(1) loop by (simp add: send_rest_def Let_def cong: if_cong split del: if_split)
    qed
  qed (use step_ok_Inr [OF v(1)] in \<open>auto simp: send_rest_def\<close>)
  show ?thesis
    unfolding sendInLoop_def step_ok_noexcept
  proof (cases "send_direct os data i w")
    case (Inl e)
    with send_direct_step [OF os w i loop, of data] show "step_ok ep opn l T w (andThen (send_direct os data i w) (send_rest os data i))"
      by simp
  next
    case (Inr x)
    obtain m rem err v where x: "x = (m, rem, err, v)" by (cases x)
    with send_direct_step [OF os w i loop, of data] Inr have v: "step_ok ep opn l T w (Inr v)" "conns v = conns w" by simp_all
    from v have "step_ok ep opn l T v (send_rest os data i (m, rem, err, v))"
      by (intro rest) (simp_all add: step_ok_def i)
    from step_ok_from [OF this] v(1) Inr x
    show "step_ok ep opn l T w (andThen (send_direct os data i w) (send_rest os data i))"
      by (simp add: step_ok_def)
  qed
qed

lemma send_step:
  assumes os: "server_kernel os ep opn" and w: "world_ok ep opn l T w" and i: "mine l w i"
    and len: "length data \<le> max_size"
  shows "step_ok ep opn l T w (send os data i w)"
proof -
  obtain co where co: "conns w i = Some co" "cLoop co = l" using mineD [OF i] .
  show ?thesis
  proof (cases "cState co = Connected")
    case True
    have "step_ok ep opn l T w (sendInLoop os data i w)"
      by (rule sendInLoop_step [OF os w co(1) True co(2) len])
    with True co show ?thesis by (simp add: send_def run_here(2) [OF w])
  qed (use co step_ok_Inr [OF w] in \<open>simp add: send_def\<close>)
qed

subsection \<open>Shutting down\<close>

lemma shutdownInLoop_step:
  assumes os: "server_kernel os ep opn" and w: "world_ok ep opn l T w" and i: "conns w i = Some co"
  shows "step_ok ep opn l T w (shutdownInLoop os i w)"
proof -
  obtain ch where "chans w (cChan co) = Some ch" using ok_conn [OF w i] .
  with i step_ok_Inr [OF w] step_kern [OF w server_kernel_quiet(9,10) [OF os]] show ?thesis
    by (simp add: shutdownInLoop_def shutdownWrite_def)
qed

lemma shutdown_step:
  assumes os: "server_kernel os ep opn" and w: "world_ok ep opn l T w" and i: "mine l w i"
  shows "step_ok ep opn l T w (shutdown os i w)"
proof -
  obtain co where co: "conns w i = Some co" "cLoop co = l" "cState co \<noteq> Connecting" using mineD [OF i] .
  let ?co = "co\<lparr>cState := Disconnecting\<rparr>"
  let ?v = "put_conn i ?co w"
  have v: "step_ok ep opn l T w (Inr ?v)"
    by (rule step_conn [OF w co(1)]) (use ok_bufs [OF w co(1)] co in \<open>simp_all add: conn_twin_def closing_def\<close>)
  then have vw: "world_ok ep opn l T ?v" "grows w ?v" "next_id ?v = next_id w" by (simp_all add: step_ok_def)
  have "step_ok ep opn l T ?v (shutdownInLoop os i ?v)" by (rule shutdownInLoop_step [OF os vw(1)]) simp
  from step_ok_from [OF this vw(2,3)] v show ?thesis
    using co by (simp add: shutdown_def Let_def run_here(1) [OF vw(1)])
qed

subsection \<open>The callbacks of the channel\<close>

lemma handleError_step:
  assumes os: "server_kernel os ep opn" and w: "world_ok ep opn l T w" and i: "conns w i \<noteq> None"
  shows "step_ok ep opn l T w (handleError os i w)"
proof -
  from i obtain co where co: "conns w i = Some co" by blast
  obtain r k where r: "sys_getsockopt_error os (cSock co) (kern w) = (r, k)" by fastforce
  have "ep k = ep (kern w)" "opn k = opn (kern w)"
    using server_kernel_quiet(19,20) [OF os, of "cSock co" "kern w"] r by simp_all
  from step_kern [OF w this] co r show ?thesis
    by (simp add: handleError_def getSocketError_def split: sum.splits)
qed

lemma write_drained_step:
  assumes os: "server_kernel os ep opn" and w: "world_ok ep opn l T w" and i: "conns w i = Some co" and h: "held l w i"
    and m: "mine l w i"
  shows "step_ok ep opn l T w (write_drained os i w)"
proof -
  have l: "cLoop co = l" "cState co \<noteq> Connecting" using m i by (simp_all add: mine_def)
  note e = step_conn_events [OF os w i, of "\<lambda>e. e AND NOT kWriteEvent"]
  have "step_ok ep opn l T w (andThen (disableWriting os (cChan co) w) (\<lambda>w.
      andThen (if onWriteComplete co \<noteq> None then queueInLoop os l (WriteComplete i) w else Inr w) (\<lambda>w.
       if cState co = Disconnecting then shutdownInLoop os i w else Inr w)))"
    unfolding channel_ops_change
  proof (rule step_ok_andThen [OF e(1)])
    fix v
    assume v: "change_events os (\<lambda>e. e AND NOT kWriteEvent) (cChan co) w = Inr v" "world_ok ep opn l T v" "grows w v"
    have vi: "conns v i = Some co" using e(2) [OF _ _ _ v(1)] h i l by simp
    have f: "functor_ok l v (WriteComplete i)" using growsD(1) [OF v(3) h] growsD(3) [OF v(3) m] by (simp add: functor_ok_def)
    show "step_ok ep opn l T v (andThen (if onWriteComplete co \<noteq> None then queueInLoop os l (WriteComplete i) v else Inr v)
        (\<lambda>w. if cState co = Disconnecting then shutdownInLoop os i w else Inr w))"
    proof (rule step_ok_andThen [OF step_queue_if [OF os v(2) f]])
      fix u
      assume u: "(if onWriteComplete co \<noteq> None then queueInLoop os l (WriteComplete i) v else Inr v) = Inr u"
        "world_ok ep opn l T u"
      have "conns u i = Some co" using queue_if_conns [OF v(2) u(1)] vi by simp
      from shutdownInLoop_step [OF os u(2) this] step_ok_Inr [OF u(2)]
      show "step_ok ep opn l T u (if cState co = Disconnecting then shutdownInLoop os i u else Inr u)" by simp
    qed simp
  qed (use h l in simp_all)
  then show ?thesis using i l(1) by (simp add: write_drained_def cong: if_cong split del: if_split)
qed

lemma handleWrite_step:
  assumes os: "server_kernel os ep opn" and w: "world_ok ep opn l T w" and i: "mine l w i"
  shows "step_ok ep opn l T w (handleWrite os i w)"
proof -
  obtain co where co: "conns w i = Some co" and l: "cLoop co = l" using mineD [OF i] .
  obtain ch where ch: "chans w (cChan co) = Some ch" and b: "buffer_inv (inputBuffer co)" "buffer_inv (outputBuffer co)"
    using ok_conn [OF w co] .
  show ?thesis
  proof (cases "isWriting ch")
    case False
    then show ?thesis using co ch step_ok_Inr [OF w] by (simp add: handleWrite_def)
  next
    case True
    then have "events ch \<noteq> 0" by (auto simp: isWriting_def)
    then have "attached w i" using ok_attached [OF w co] ch by blast
    then have h: "held l w i" using co l by (simp add: held_def)
    let ?wr = "\<lambda>d. fst (sys_write os (chFd ch) d (kern w))"
    let ?out = "contents (outputBuffer co)"
    let ?k = "snd (sys_write os (chFd ch) ?out (kern w))"
    have kk: "ep ?k = ep (kern w)" "opn ?k = opn (kern w)" by (rule server_kernel_quiet [OF os])+
    note kw = ok_kern [OF w kk] and ks = step_kern [OF w kk]
    have put: "step_ok ep opn l T w (Inr (put_conn i (co\<lparr>outputBuffer := bf\<rparr>) (w\<lparr>kern := ?k\<rparr>)))" if "buffer_inv bf" for bf
    proof (rule step_ok_from [where v = "w\<lparr>kern := ?k\<rparr>"])
      show "step_ok ep opn l T (w\<lparr>kern := ?k\<rparr>) (Inr (put_conn i (co\<lparr>outputBuffer := bf\<rparr>) (w\<lparr>kern := ?k\<rparr>)))"
        by (rule step_conn [OF kw, where co = co]) (use co b that in \<open>simp_all add: conn_twin_def closing_def\<close>)
    qed (use ks in \<open>simp_all add: step_ok_def\<close>)
    obtain r bf where wf: "writeFd ?wr (outputBuffer co) = (r, bf)" by fastforce
    have bf: "buffer_inv bf"
      using writeFd_ok [OF b(2) server_kernelD(7) [OF os], of "chFd ch" "kern w"] wf b(2) by (auto split: sum.splits)
    have fin: "step_ok ep opn l T w (if b then write_drained os i (put_conn i (co\<lparr>outputBuffer := bf\<rparr>) (w\<lparr>kern := ?k\<rparr>))
        else Inr (put_conn i (co\<lparr>outputBuffer := bf\<rparr>) (w\<lparr>kern := ?k\<rparr>)))" if "buffer_inv bf" for b bf
    proof -
      let ?v = "put_conn i (co\<lparr>outputBuffer := bf\<rparr>) (w\<lparr>kern := ?k\<rparr>)"
      have v: "world_ok ep opn l T ?v" "grows w ?v" "next_id ?v = next_id w"
        using put [OF that] by (simp_all add: step_ok_def)
      have "step_ok ep opn l T ?v (write_drained os i ?v)"
        by (rule write_drained_step [OF os v(1)]) (use growsD(1) [OF v(2) h] growsD(3) [OF v(2) i] in simp_all)
      from step_ok_from [OF this v(2,3)] put [OF that] show ?thesis by simp
    qed
    show ?thesis
    proof (cases r)
      case (Inl e)
      then show ?thesis using co ch True wf put [OF bf] by (simp add: handleWrite_def Let_def peek_all [OF b(2)])
    next
      case (Inr n)
      let ?v = "\<lambda>bf. put_conn i (co\<lparr>outputBuffer := bf\<rparr>) (w\<lparr>kern := ?k\<rparr>)"
      have "handleWrite os i w = noexcept (if n \<noteq> 0 then (if readableBytes (retrieve n bf) = 0
          then write_drained os i (?v (retrieve n bf)) else Inr (?v (retrieve n bf))) else Inr (?v bf))"
        using co ch True wf Inr by (simp add: handleWrite_def Let_def peek_all [OF b(2)] cong: if_cong split del: if_split)
      with put [OF bf] fin [of "retrieve n bf"] bf show ?thesis
        by (cases "n \<noteq> 0") (simp_all only: if_True if_False step_ok_noexcept retrieve_inv simp_thms)
    qed
  qed
qed

end
