(* ===== verification/SafetyEvents.thy ===== *)
theory SafetyEvents
  imports SafetyConn
begin

unbundle bit_operations_syntax

text \<open>
  The operations of a connection that call the application, and the life cycle of a connection, keep the global
  invariant for every application whose handlers do.
\<close>

text \<open>What is asked of the application: its handlers keep the invariant on an established connection of the executing loop.\<close>

definition app_keeps :: "'k interest \<Rightarrow> ('k \<Rightarrow> fd set) \<Rightarrow> lid \<Rightarrow> ('k, 'z) server_world_scheme app \<Rightarrow> bool" where
  "app_keeps ep opn l app \<longleftrightarrow> (\<forall>T w i h. world_ok ep opn l T w \<longrightarrow> mine l w i \<longrightarrow>
     step_ok ep opn l T w (app_connection app h i w) \<and>
     (\<forall>t. step_ok ep opn l T w (app_message app h i t w)) \<and>
     step_ok ep opn l T w (app_writeComplete app h i w) \<and>
     (\<forall>n. step_ok ep opn l T w (app_highWater app h i n w)))"

text \<open>The close callback is the server's; it is called on connections that are over and still held.\<close>

definition close_keeps :: "'k interest \<Rightarrow> ('k \<Rightarrow> fd set) \<Rightarrow> lid \<Rightarrow> ('k, 'z) server_world_scheme app \<Rightarrow> bool" where
  "close_keeps ep opn l app \<longleftrightarrow> (\<forall>T w i h. world_ok ep opn l T w \<longrightarrow> held l w i \<longrightarrow> dormant w i \<longrightarrow>
     step_ok ep opn l T w (app_close app h i w))"

lemma app_keepsD:
  assumes "app_keeps ep opn l app" "world_ok ep opn l T w" "mine l w i"
  shows "step_ok ep opn l T w (app_connection app h i w)" "step_ok ep opn l T w (app_message app h i t w)"
    "step_ok ep opn l T w (app_writeComplete app h i w)" "step_ok ep opn l T w (app_highWater app h i n w)"
    "step_ok ep opn l T w (call (\<lambda>h. app_connection app h i) cb w)"
    "step_ok ep opn l T w (call (\<lambda>h. app_message app h i t) cb w)"
  using assms step_ok_Inr [OF assms(2)] by (simp_all add: app_keeps_def call_def split: option.splits)

lemma close_keepsD:
  assumes "close_keeps ep opn l app" "world_ok ep opn l T w" "held l w i" "dormant w i"
  shows "step_ok ep opn l T w (call (\<lambda>h. app_close app h i) cb w)"
  using assms step_ok_Inr [OF assms(2)] by (simp add: close_keeps_def call_def split: option.splits)

lemma held_conn: "held l w i \<Longrightarrow> \<exists>co. conns w i = Some co"
  by (auto simp: held_def)

text \<open>The first half of \<open>handleClose\<close> and \<open>connectDestroyed\<close>: the connection is over.\<close>

lemma switch_off:
  assumes os: "server_kernel os ep opn" and w: "world_ok ep opn l T w" and i: "conns w i = Some co" and h: "held l w i" and m: "mine l w i"
  defines "v \<equiv> put_conn i (co\<lparr>cState := Disconnected\<rparr>) w"
  shows "step_ok ep opn l T w (Inr v)" "step_ok ep opn l T v (disableAll os (cChan co) v)"
    and "disableAll os (cChan co) v = Inr u \<Longrightarrow> dormant u i"
proof -
  let ?co = "co\<lparr>cState := Disconnected\<rparr>"
  have same: "cChan ?co = cChan co" by simp
  have l: "cLoop co = l" "cState co \<noteq> Connecting" using m i by (simp_all add: mine_def)
  show v: "step_ok ep opn l T w (Inr v)"
    unfolding v_def
    by (rule step_conn [OF w i]) (use ok_bufs [OF w i] l in \<open>simp_all add: conn_twin_def closing_def\<close>)
  then have vw: "world_ok ep opn l T v" "held l v i"
    using h growsD(1) [of w v l i] by (simp_all add: step_ok_def)
  have vi: "conns v i = Some ?co" by (simp add: v_def)
  have e: "step_ok ep opn l T v (change_events os (\<lambda>e. kNoneEvent) (cChan ?co) v)"
    by (rule step_conn_events(1) [OF os vw(1) vi]) (use vw(2) l in \<open>simp_all add: kNoneEvent_def\<close>)
  then show "step_ok ep opn l T v (disableAll os (cChan co) v)"
    unfolding channel_ops_change same .
  show "dormant u i" if u: "disableAll os (cChan co) v = Inr u"
  proof -
    have "(\<exists>ch. chans v (cChan ?co) = Some ch \<and> chans u (cChan ?co) = Some (registered (\<lambda>e. kNoneEvent) ch)) \<and> conns u = conns v"
      by (rule step_conn_events(2) [OF os vw(1) vi])
        (use vw(2) u l in \<open>simp_all add: kNoneEvent_def channel_ops_change\<close>)
    with vi show ?thesis by (auto simp: dormant_def closing_def kNoneEvent_def)
  qed
qed

lemma handleClose_step:
  fixes w :: "('k, 'z) server_world_scheme"
  assumes os: "server_kernel os ep opn" and app: "app_keeps ep opn l app" "close_keeps ep opn l app"
    and w: "world_ok ep opn l T w" and h: "held l w i" and m: "mine l w i"
  shows "step_ok ep opn l T w (handleClose os app i w)"
proof -
  obtain co where i: "conns w i = Some co" using held_conn [OF h] by blast
  let ?v = "put_conn i (co\<lparr>cState := Disconnected\<rparr>) w"
  note off = switch_off [OF os w i h m]
  have "step_ok ep opn l T w (andThen (Inr ?v) (\<lambda>w. andThen (disableAll os (cChan co) w) (\<lambda>w.
      andThen (call (\<lambda>h. app_connection app h i) (onConnection co) w) (\<lambda>w.
        with_conn i w (\<lambda>co. call (\<lambda>h. app_close app h i) (onClose co) w)))))"
  proof (rule step_ok_andThen [OF off(1)])
    fix x assume x: "Inr ?v = (Inr x :: ('k, 'z) server_world_scheme result)" and gx: "grows w x"
    then have x': "x = ?v" by simp
    show "step_ok ep opn l T x (andThen (disableAll os (cChan co) x) (\<lambda>w.
      andThen (call (\<lambda>h. app_connection app h i) (onConnection co) w) (\<lambda>w.
        with_conn i w (\<lambda>co. call (\<lambda>h. app_close app h i) (onClose co) w))))"
      unfolding x'
    proof (rule step_ok_andThen [OF off(2)])
      fix u assume u: "disableAll os (cChan co) ?v = Inr u" "world_ok ep opn l T u" "grows ?v u"
      have d: "dormant u i" "held l u i" "mine l u i"
        using off(3) [OF u(1)] growsD(1,3) [OF u(3)] growsD(1) [OF gx h] growsD(3) [OF gx m] x' by auto
      show "step_ok ep opn l T u (andThen (call (\<lambda>h. app_connection app h i) (onConnection co) u) (\<lambda>w.
          with_conn i w (\<lambda>co. call (\<lambda>h. app_close app h i) (onClose co) w)))"
      proof (rule step_ok_andThen [OF app_keepsD(5) [OF app(1) u(2)]])
        fix x assume x: "world_ok ep opn l T x" "grows u x"
        have dx: "held l x i" "dormant x i" using growsD(1,2) [OF x(2)] d by blast+
        obtain cx where "conns x i = Some cx" using held_conn [OF dx(1)] by blast
        with close_keepsD [OF app(2) x(1) dx, of "onClose cx"]
        show "step_ok ep opn l T x (with_conn i x (\<lambda>co. call (\<lambda>h. app_close app h i) (onClose co) x))" by simp
      qed (rule d(3))
    qed
  qed
  then show ?thesis using i by (simp add: handleClose_def Let_def)
qed

lemma handleRead_step:
  assumes os: "server_kernel os ep opn" and app: "app_keeps ep opn l app" "close_keeps ep opn l app"
    and w: "world_ok ep opn l T w" and h: "held l w i" and m: "mine l w i"
  shows "step_ok ep opn l T w (handleRead os app t i w)"
proof -
  obtain co where co: "conns w i = Some co" using held_conn [OF h] by blast
  obtain ch where ch: "chans w (cChan co) = Some ch" and b: "buffer_inv (inputBuffer co)" "buffer_inv (outputBuffer co)"
    using ok_conn [OF w co] .
  let ?rd = "\<lambda>v. fst (sys_readv os (chFd ch) v (kern w))"
  let ?k = "snd (sys_readv os (chFd ch) (read_iov (inputBuffer co)) (kern w))"
  let ?v = "\<lambda>bf. put_conn i (co\<lparr>inputBuffer := bf\<rparr>) (w\<lparr>kern := ?k\<rparr>)"
  have kk: "ep ?k = ep (kern w)" "opn ?k = opn (kern w)" by (rule server_kernel_quiet [OF os])+
  note kw = ok_kern [OF w kk] and ks = step_kern [OF w kk]
  have v: "world_ok ep opn l T (?v bf)" "grows w (?v bf)" "next_id (?v bf) = next_id w" if "buffer_inv bf" for bf
  proof -
    have "step_ok ep opn l T w (Inr (?v bf))"
    proof (rule step_ok_from [where v = "w\<lparr>kern := ?k\<rparr>"])
      show "step_ok ep opn l T (w\<lparr>kern := ?k\<rparr>) (Inr (?v bf))"
        by (rule step_conn [OF kw, where co = co]) (use co b that in \<open>simp_all add: conn_twin_def closing_def\<close>)
    qed (use ks in \<open>simp_all add: step_ok_def\<close>)
    then show "world_ok ep opn l T (?v bf)" "grows w (?v bf)" "next_id (?v bf) = next_id w" by (simp_all add: step_ok_def)
  qed
  have run: "step_ok ep opn l T w (case n of
      Inr n \<Rightarrow> if n \<noteq> 0 then call (\<lambda>h. app_message app h i t) (onMessage co) (?v bf) else handleClose os app i (?v bf)
    | Inl e \<Rightarrow> handleError os i (?v bf))" if bf: "buffer_inv bf" for n :: "errno + size_t" and bf
  proof (rule step_ok_from [OF _ v(2,3) [OF bf]])
    note mv = growsD(3) [OF v(2) [OF bf] m]
    have "conns (?v bf) i \<noteq> None" by simp
    then show "step_ok ep opn l T (?v bf) (case n of
      Inr n \<Rightarrow> if n \<noteq> 0 then call (\<lambda>h. app_message app h i t) (onMessage co) (?v bf) else handleClose os app i (?v bf)
    | Inl e \<Rightarrow> handleError os i (?v bf))"
      using handleError_step [OF os v(1) [OF bf]] app_keepsD(6) [OF app(1) v(1) [OF bf] mv]
        handleClose_step [OF os app v(1) [OF bf] growsD(1) [OF v(2) [OF bf] h] mv]
      by (auto split: sum.splits)
  qed
  have cases: "(\<exists>e. readFd ?rd (inputBuffer co) = Inl e \<and> e \<noteq> Undefined) \<or>
      (\<exists>n bf. readFd ?rd (inputBuffer co) = Inr (n, bf) \<and> buffer_inv bf)"
    using readFd_cases [OF b(1) server_kernelD(6) [OF os], of "chFd ch" "kern w"] b(1)
    by (auto simp: returns_iff read_done_def split: sum.splits)
  have eq: "handleRead os app t i w = noexcept (andThen (readFd ?rd (inputBuffer co)) (\<lambda>(n, bf). case n of
      Inr n \<Rightarrow> if n \<noteq> 0 then call (\<lambda>h. app_message app h i t) (onMessage co) (?v bf) else handleClose os app i (?v bf)
    | Inl e \<Rightarrow> handleError os i (?v bf)))"
    using co ch by (simp add: handleRead_def Let_def)
  from cases run show ?thesis unfolding eq step_ok_noexcept by auto
qed

subsection \<open>The life cycle\<close>

lemma connectEstablished_step:
  fixes w :: "('k, 'z) server_world_scheme"
  assumes os: "server_kernel os ep opn" and app: "app_keeps ep opn l app"
    and w: "world_ok ep opn l T w" and i: "waiting l w i" and once: "\<not> establishing T w i"
  shows "step_ok ep opn l T w (connectEstablished os app i w)"
proof -
  from i obtain co where co: "conns w i = Some co" "cLoop co = l" "cState co = Connecting" by (auto simp: waiting_def)
  let ?co = "co\<lparr>cState := Connected\<rparr>"
  let ?v = "put_conn i ?co w"
  have same: "cChan ?co = cChan co" and live: "\<not> closing ?co" by (simp_all add: closing_def)
  obtain ch where ch: "chans w (cChan co) = Some ch" using ok_conn [OF w co(1)] .
  let ?u = "put_channel (cChan co) (tie i ch) ?v"
  have v: "step_ok ep opn l T w (Inr ?v)"
    by (rule step_conn [OF w co(1)]) (use ok_bufs [OF w co(1)] co(3) once in \<open>simp_all add: conn_twin_def closing_def\<close>)
  then have vw: "world_ok ep opn l T ?v" by (simp add: step_ok_def)
  have u: "step_ok ep opn l T ?v (Inr ?u)"
    by (rule step_channel [OF vw]) (use ch in \<open>simp_all add: tie_def chan_twin_def\<close>)
  have gu: "world_ok ep opn l T ?u" "grows w ?u" "next_id ?u = next_id w"
    using u v by (auto simp: step_ok_def intro: grows_trans)
  have ui: "conns ?u i = Some ?co" by simp
  have e: "step_ok ep opn l T ?u (enableReading os (cChan co) ?u)"
    using step_conn_events(1) [OF os gu(1) ui, of "\<lambda>e. e OR kReadEvent", unfolded same]
      ok_alive [OF gu(1) ui live] live by (simp add: channel_ops_change)
  have mu: "mine l ?u i" using ui co(2) by (simp add: mine_def)
  have "step_ok ep opn l T ?u (andThen (enableReading os (cChan co) ?u)
      (call (\<lambda>h. app_connection app h i) (onConnection co)))"
    by (rule step_ok_andThen [OF e]) (rule app_keepsD(5) [OF app _ growsD(3) [OF _ mu]])
  from step_ok_from [OF this gu(2,3)] show ?thesis
    using co(1) ch by (simp add: connectEstablished_def Let_def)
qed

text \<open>\<open>connectDestroyed\<close> takes the connection out of the poller, so it no longer has to be in the batch.\<close>

lemma connectDestroyed_step:
  fixes w :: "('k, 'z) server_world_scheme"
  assumes os: "server_kernel os ep opn" and app: "app_keeps ep opn l app"
    and w: "world_ok ep opn l T w" and m: "mine l w i" and U: "U \<subseteq> T" "T \<subseteq> insert (l, ConnectDestroyed i) U"
  shows "step_ok ep opn l U w (connectDestroyed os app i w)"
proof -
  obtain co where co: "conns w i = Some co" "cLoop co = l" "cState co \<noteq> Connecting" using mineD [OF m] .
  let ?co = "co\<lparr>cState := Disconnected\<rparr>"
  let ?v = "put_conn i ?co w"
  have v: "step_ok ep opn l T w (Inr ?v)"
    by (rule step_conn [OF w co(1)]) (use ok_bufs [OF w co(1)] co(3) in \<open>simp_all add: conn_twin_def closing_def\<close>)
  then have vw: "world_ok ep opn l T ?v" "grows w ?v" "next_id ?v = next_id w" by (simp_all add: step_ok_def)
  let ?off = "if cState co = Connected
        then andThen (disableAll os (cChan co) ?v) (call (\<lambda>h. app_connection app h i) (onConnection co)) else Inr ?v"
  have off: "step_ok ep opn l T ?v ?off"
  proof (cases "cState co = Connected")
    case True
    then have h: "held l w i" using ok_alive [OF w co(1)] co(2) by simp
    have mv: "mine l ?v i" by (rule growsD(3) [OF vw(2) m])
    have "step_ok ep opn l T ?v (andThen (disableAll os (cChan co) ?v) (call (\<lambda>h. app_connection app h i) (onConnection co)))"
      by (rule step_ok_andThen [OF switch_off(2) [OF os w co(1) h m]]) (rule app_keepsD(5) [OF app _ growsD(3) [OF _ mv]])
    with True show ?thesis by simp
  qed (use step_ok_Inr [OF vw(1)] in simp)
  have "step_ok ep opn l U ?v (andThen ?off (channel_remove os (cChan co)))"
  proof (rule step_ok_andThen [OF off])
    fix x assume x: "world_ok ep opn l T x" "grows ?v x"
    obtain cx where cx: "conns x i = Some cx" "cChan cx = cChan co" "cLoop cx = l"
      using grows_conn [OF x(2), of i ?co] co(2) by auto
    show "step_ok ep opn l U x (channel_remove os (cChan co) x)"
      using step_remove [OF os x(1) cx(1) U(1)] U(2) cx(2,3) by simp
  qed
  from step_ok_from [OF this vw(2,3)] show ?thesis
    using co(1) by (simp add: connectDestroyed_def Let_def cong: if_cong split del: if_split)
qed

end
