(* ===== verification/SafetyServer.thy ===== *)
theory SafetyServer
  imports SafetyEvents
begin

unbundle bit_operations_syntax

text \<open>
  The server's operations against the global invariant: a connection enters the map with a name of its own, and
  leaves it with its \<open>connectDestroyed\<close> queued; a connection nobody holds can be freed.
\<close>

subsection \<open>Leaving the map\<close>

lemma ok_server:
  assumes "world_ok ep opn l T w" "theServer w = Some s"
  obtains a where "theAcceptor w = Some a" "serves w s a"
  using world_okD(3) [OF assms(1)] assms(2) by (auto simp: server_ok_def)

lemma conn_of_name:
  assumes "world_ok ep opn l T w" "theServer w = Some s" "(n, j) \<in> set (connections s)"
  obtains co where "conns w j = Some co" "cName co = n"
proof -
  obtain a where "serves w s a" using ok_server [OF assms(1,2)] .
  from servesD(5) [OF this assms(3)] that show ?thesis by blast
qed

lemma name_owner:
  assumes "world_ok ep opn l T w" "conns w i = Some co" "conns w j = Some co'" "cName co = cName co'"
  shows "i = j"
proof -
  obtain s where "theServer w = Some s" using ok_acceptor [OF assms(1)] .
  then obtain a where "serves w s a" using ok_server [OF assms(1)] by blast
  from servesD(7) [OF this assms(2-4)] show ?thesis .
qed

text \<open>A server that has lost an entry still serves.\<close>

lemma serves_fewer:
  assumes "serves w s a" "set m \<subseteq> set (connections s)"
  shows "serves (put_server (s\<lparr>connections := m\<rparr>) w) (s\<lparr>connections := m\<rparr>) a"
proof -
  note d = servesD [OF assms(1)]
  let ?s = "s\<lparr>connections := m\<rparr>"
  have same: "sLoop ?s = sLoop s" "threadPool ?s = threadPool s" "nextConnId ?s = nextConnId s" "sName ?s = sName s"
    "ipPort ?s = ipPort s" "connections ?s = m" by simp_all
  show ?thesis
  proof (rule servesI, unfold server_fields same)
    show "\<exists>co. conns w i = Some co \<and> cName co = n" if "(n, i) \<in> set m" for n i
      using that assms(2) d(5) [of n i] by auto
  qed (fact d | erule d; assumption?)+
qed

lemma step_unregister:
  assumes w: "world_ok ep opn l T w" and s: "theServer w = Some s" and i: "conns w i = Some co"
    and out: "leaving w i" "dormant w i"
  shows "step_ok ep opn l T w
    (Inr (put_server (s\<lparr>connections := filter (\<lambda>(n, j). n \<noteq> cName co) (connections s)\<rparr>) w))"
proof -
  let ?m = "filter (\<lambda>(n, j). n \<noteq> cName co) (connections s)"
  let ?s = "s\<lparr>connections := ?m\<rparr>"
  let ?v = "put_server ?s w"
  have stay: "attached ?v j" if j: "attached w j" "j \<noteq> i" for j
  proof -
    from j(1) s obtain n where n: "(n, j) \<in> set (connections s)" by (auto simp: attached_def)
    obtain cj where "conns w j = Some cj" "cName cj = n" using conn_of_name [OF w s n] .
    with name_owner [OF w i, of j cj] j(2) have "n \<noteq> cName co" by auto
    with n show ?thesis by (auto simp: attached_def)
  qed
  have leave: "leaving ?v j = leaving w j" for j by (rule leaving_cong) simp
  have dorm: "dormant ?v j = dormant w j" for j by (rule dormant_cong) simp_all
  have mine: "mine m ?v j = mine m w j" "waiting m ?v j = waiting m w j" for m j by (rule mine_cong; simp)+
  have held: "held m ?v j" if "held m w j" for m j
  proof -
    have "attached ?v j \<or> leaving w j"
      using that stay [of j] out(1) unfolding held_def by blast
    with that show ?thesis unfolding held_def leave server_fields by blast
  qed
  have g: "grows w ?v"
  proof (rule growsI)
    show "held m ?v j" if "held m w j" for m j by (rule held [OF that])
  qed (simp_all add: dorm mine same_loops_eq)
  have sup: "supports w ?v"
    by (rule supportsI [OF g]) (use s in \<open>auto simp: base_loop_def\<close>)
  have loops: "loops_ok T ?v"
    by (rule loops_ok_mono [OF world_okD(4) [OF w] sup]) (simp_all add: mine)
  have "life_ok T ?v"
    unfolding life_ok_def leave dorm
  proof (intro allI impI)
    fix j x assume j: "conns ?v j = Some x" "\<not> attached ?v j"
    show "dormant w j \<and> (leaving w j \<or> (cLoop x, ConnectDestroyed j) \<in> T \<or> (\<exists>ch. chans ?v (cChan x) = Some ch \<and> index ch = KNew))"
    proof (cases "j = i")
      case True
      with out show ?thesis by simp
    next
      case False
      with stay j(2) have "\<not> attached w j" by blast
      with ok_life [OF w, of j x] j(1) show ?thesis by simp
    qed
  qed
  moreover have "server_ok ?v"
  proof -
    obtain a where a: "theAcceptor w = Some a" "serves w s a" using ok_server [OF w s] .
    have "serves ?v ?s a" by (rule serves_fewer [OF a(2)]) auto
    with a(1) show ?thesis by (auto simp: server_ok_def)
  qed
  ultimately have "world_ok ep opn l T ?v"
    using world_okD(1,2,6) [OF w] loops chans_ok_cong [of ?v w ep opn] conns_ok_cong [of ?v w] in_thread_cong [of ?v w]
    by (simp add: world_ok_def)
  with g show ?thesis using s by (simp add: step_ok_def next_id_def)
qed

text \<open>The executing loop is the server's; the connection may belong to any loop.\<close>

lemma removeConnectionInLoop_step:
  assumes os: "server_kernel os ep opn" and w: "world_ok ep opn l T w" and i: "dormant w i"
  shows "step_ok ep opn l T w (removeConnectionInLoop os i w)"
proof -
  obtain co ch where co: "conns w i = Some co" "closing co" and ch: "chans w (cChan co) = Some ch"
    using i by (auto simp: dormant_def)
  obtain s where s: "theServer w = Some s" using ok_acceptor [OF w] .
  have "pollers w (cLoop co) \<noteq> None"
    using ok_channel(1) [OF w ch] ok_conn [OF w co(1)] ch by (metis option.inject)
  then have m: "loops w (cLoop co) \<noteq> None" using loops_okD(1) [OF world_okD(4) [OF w], of "cLoop co"] by simp
  then obtain lp where lp: "loops w (cLoop co) = Some lp" by blast
  let ?s = "s\<lparr>connections := filter (\<lambda>(n, j). n \<noteq> cName co) (connections s)\<rparr>"
  let ?f = "ConnectDestroyed i"
  have "functor_ok (cLoop co) w ?f" using co by (auto simp: functor_ok_def mine_def closing_def)
  then have q: "step_ok ep opn l T w (queueInLoop os (cLoop co) ?f w)" by (rule step_queue(1) [OF os w _ m]) simp
  obtain u where u: "queueInLoop os (cLoop co) ?f w = Inr u" using queueInLoop_eq [OF lp] by blast
  have swap: "queueInLoop os (cLoop co) ?f (put_server ?s w) = Inr (put_server ?s u)"
    using u lp by (auto simp: queueInLoop_eq put_loop_def put_server_def)
  have uw: "world_ok ep opn l T u" "grows w u" "next_id u = next_id w" using q u by (simp_all add: step_ok_def)
  have us: "theServer u = Some s" "conns u i = Some co"
    using u s co by (auto simp: queueInLoop_eq [OF lp])
  have "leaving u i" using u by (auto simp: queueInLoop_eq [OF lp] leaving_def)
  from step_unregister [OF uw(1) us this growsD(2) [OF uw(2) i]]
  have "step_ok ep opn l T w (queueInLoop os (cLoop co) ?f (put_server ?s w))"
    unfolding swap by (rule step_ok_from [OF _ uw(2,3)])
  with s co step_ok_Inr [OF w] show ?thesis by (simp add: removeConnectionInLoop_def with_server_def)
qed

text \<open>The server's close callback, in the thread of the connection's loop: its work is the server's loop's.\<close>

lemma removeConnection_step:
  assumes os: "server_kernel os ep opn" and w: "world_ok ep opn l T w" and i: "dormant w i"
  shows "step_ok ep opn l T w (removeConnection os i w)"
proof -
  obtain s where s: "theServer w = Some s" using ok_acceptor [OF w] .
  then obtain a where a: "serves w s a" using ok_server [OF w] by blast
  have m: "loops w (sLoop s) \<noteq> None"
    using servesD(3) [OF a, of "sLoop s"] loops_okD(1) [OF world_okD(4) [OF w], of "sLoop s"] by simp
  have "step_ok ep opn l T w (runInLoop os (sLoop s) (RemoveConnectionInLoop i) (removeConnectionInLoop os i) w)"
  proof (cases "sLoop s = l")
    case True
    with removeConnectionInLoop_step [OF os w i] show ?thesis by (simp add: run_here(1) [OF w])
  next
    case False
    have "functor_ok (sLoop s) w (RemoveConnectionInLoop i)"
      using s i by (simp add: functor_ok_def base_loop_def)
    from step_queue(1) [OF os w this m] show ?thesis by (simp add: run_there [OF w False m])
  qed
  with s show ?thesis by (simp add: removeConnection_def with_server_def)
qed

lemma close_keeps_server:
  fixes app :: "('k, 'z) server_world_scheme app"
  assumes os: "server_kernel os ep opn"
  shows "close_keeps ep opn l (server_app os app)"
  unfolding close_keeps_def server_app_def by (auto intro: removeConnection_step [OF os])

lemma app_keeps_server: "app_keeps ep opn l app \<Longrightarrow> app_keeps ep opn l (server_app os app)"
  by (simp add: app_keeps_def server_app_def)

subsection \<open>Freeing a connection\<close>

text \<open>A channel the poller does not know can come and go.\<close>

lemma unknown_channel_sync:
  assumes sync: "poller_sync ep w" and old: "\<And>x. chans w c = Some x \<Longrightarrow> index x = KNew"
    and new: "\<And>x. y = Some x \<Longrightarrow> index x = KNew"
    and w': "chans w' = (chans w)(c := y)" "pollers w' = pollers w"
      "\<And>l p. pollers w l = Some p \<Longrightarrow> ep (kern w') (epollfd p) = ep (kern w) (epollfd p)"
  shows "poller_sync ep w'"
proof -
  have free: "channels p f \<noteq> Some c" if "pollers w l = Some p" for l p f
    using syncD(1) [OF sync that] old unfolding poller_ok_def by blast
  have "poller_ok ep (kern w') (chans w') l p" if p: "pollers w l = Some p" for l p
  proof -
    have "expected_interest p ((chans w)(c := y)) = expected_interest p (chans w)"
      by (rule ext) (simp add: expected_interest_other free [OF p])
    then show ?thesis using syncD(1) [OF sync p] free [OF p] w'(3) [OF p] w'(1) by (auto simp: poller_ok_def)
  qed
  moreover have "channel_ok (pollers w) d x" if "chans w' d = Some x" for d x
    using that syncD(2) [OF sync] new w'(1) by (cases "d = c") (auto simp: channel_ok_def)
  ultimately show ?thesis using syncD(3) [OF sync] w'(2) by (simp add: poller_sync_def)
qed

text \<open>A descriptor the poller does not monitor can be closed.\<close>

lemma close_view:
  assumes os: "server_kernel os ep opn" and w: "world_ok ep opn l T w" and p: "pollers w l' = Some p"
    and f: "\<And>c ch. chans w c = Some ch \<Longrightarrow> chFd ch = f \<Longrightarrow> index ch = KNew"
  shows "ep (sys_close os f (kern w)) (epollfd p) = ep (kern w) (epollfd p)"
proof -
  have "channels p f = None"
  proof (rule ccontr)
    assume "channels p f \<noteq> None"
    with syncD(1) [OF ok_sync [OF w] p] f show False unfolding poller_ok_def by blast
  qed
  then have "ep (kern w) (epollfd p) f = None"
    using kernel_view [OF ok_sync [OF w] p] by (simp add: expected_interest_def)
  with server_kernelD(5) [OF os] show ?thesis by (simp add: close_contract_def fun_upd_idem)
qed

text \<open>A functor in some queue owns a share of the connection.\<close>

definition queued :: "('k, 'z) server_world_scheme \<Rightarrow> conn \<Rightarrow> bool" where
  "queued w i \<longleftrightarrow> (\<exists>l lp f. loops w l = Some lp \<and> f \<in> set (pendingFunctors lp) \<and> captured f = Some i)"

lemma leaving_queued: "leaving w i \<Longrightarrow> queued w i"
  unfolding leaving_def queued_def by (metis captured.simps(3))

text \<open>No one but the executing step knows the connection: it is in no map, no queue and no batch.\<close>

definition unknown :: "taken \<Rightarrow> ('k, 'z) server_world_scheme \<Rightarrow> conn \<Rightarrow> bool" where
  "unknown T w i \<longleftrightarrow> \<not> attached w i \<and> \<not> queued w i \<and>
     (\<forall>l f. (l, f) \<in> T \<longrightarrow> captured f \<noteq> Some i \<and> bare f \<noteq> Some i)"

lemma unknownD:
  assumes "unknown T w i"
  shows "\<not> attached w i" "loops w l = Some lp \<Longrightarrow> f \<in> set (pendingFunctors lp) \<Longrightarrow> captured f \<noteq> Some i"
    "(l, f) \<in> T \<Longrightarrow> captured f \<noteq> Some i" "(l, f) \<in> T \<Longrightarrow> bare f \<noteq> Some i" "\<not> leaving w i" "\<not> held l w i"
proof -
  show a: "\<not> attached w i" "loops w l = Some lp \<Longrightarrow> f \<in> set (pendingFunctors lp) \<Longrightarrow> captured f \<noteq> Some i"
    "(l, f) \<in> T \<Longrightarrow> captured f \<noteq> Some i" "(l, f) \<in> T \<Longrightarrow> bare f \<noteq> Some i" for l lp f
    using assms unfolding unknown_def queued_def by blast+
  show lv: "\<not> leaving w i" using assms leaving_queued unfolding unknown_def by blast
  show "\<not> held l w i" using a(1) lv by (simp add: held_def)
qed

text \<open>What freeing \<open>i\<close> leaves of the world.\<close>

definition freed :: "conn \<Rightarrow> ('k, 'z) server_world_scheme \<Rightarrow> ('k, 'z) server_world_scheme \<Rightarrow> bool" where
  "freed i w v \<longleftrightarrow> (\<exists>co. conns w i = Some co \<and> conns v = (conns w)(i := None) \<and> chans v = (chans w)(cChan co := None)) \<and>
     pollers v = pollers w \<and> loops v = loops w \<and> curThread v = curThread w \<and> theServer v = theServer w \<and>
     theAcceptor v = theAcceptor w"

lemma freed_same:
  assumes "freed i w v"
  shows "attached v j = attached w j" "leaving v j = leaving w j" "j \<noteq> i \<Longrightarrow> held l v j = held l w j"
    "j \<noteq> i \<Longrightarrow> mine l v j = mine l w j" "j \<noteq> i \<Longrightarrow> waiting l v j = waiting l w j" "base_loop l v = base_loop l w"
    "next_id v = next_id w"
proof -
  from assms have f: "theServer v = theServer w" "loops v = loops w" by (simp_all add: freed_def)
  show al: "attached v j = attached w j" "leaving v j = leaving w j" by (rule attached_cong leaving_cong; fact f)+
  show "base_loop l v = base_loop l w" "next_id v = next_id w" by (rule base_cong next_id_cong; fact f)+
  from assms have "conns v j = conns w j" if "j \<noteq> i" using that by (auto simp: freed_def)
  with al show "j \<noteq> i \<Longrightarrow> held l v j = held l w j"
    "j \<noteq> i \<Longrightarrow> mine l v j = mine l w j" "j \<noteq> i \<Longrightarrow> waiting l v j = waiting l w j"
    by (simp_all add: held_def mine_def waiting_def)
qed

lemma freed_loops_ok:
  assumes f: "freed i w v" and w: "loops_ok T w" and i: "unknown T w i"
    and dorm: "\<And>j. j \<noteq> i \<Longrightarrow> dormant w j \<Longrightarrow> dormant v j"
  shows "loops_ok T v"
proof -
  note d = loops_okD [OF w] and s = freed_same [OF f]
  have eq: "loops v = loops w" "pollers v = pollers w" using f by (simp_all add: freed_def)
  have run: "runnable l v f" if "runnable l w f" "captured f \<noteq> Some i" "bare f \<noteq> Some i" for l f
    using that s dorm by (cases f) auto
  have "functor_ok l v f" if p: "loops w l = Some lp" "f \<in> set (pendingFunctors lp)" for l lp f
  proof -
    from d(3) [OF p] have ok: "runnable l w f" "\<And>j. bare f = Some j \<Longrightarrow> held l w j" by (simp_all add: functor_ok_def)
    with unknownD(6) [OF i] have "bare f \<noteq> Some i" by blast
    with run [OF ok(1) unknownD(2) [OF i p]] ok(2) s(3) show ?thesis by (auto simp: functor_ok_def)
  qed
  moreover have "runnable l v f" if "(l, f) \<in> T" for l f
    by (rule run [OF d(6) [OF that] unknownD(3,4) [OF i that]])
  ultimately show ?thesis unfolding loops_ok_def eq using d(1,2,4,5) by blast
qed

lemma ok_destroy:
  assumes os: "server_kernel os ep opn" and w: "world_ok ep opn l T w" and i: "conns w i = Some co" and un: "unknown T w i"
  shows "defined (destroy_connection os i w) (\<lambda>v. world_ok ep opn l T v \<and> freed i w v)"
proof -
  let ?k = "if cSock co \<ge> 0 then sys_close os (cSock co) (kern w) else kern w"
  let ?v = "w\<lparr>conns := (conns w)(i := None), chans := (chans w)(cChan co := None), kern := ?k\<rparr>"
  obtain ch where ch: "chans w (cChan co) = Some ch" "chFd ch = cSock co" using ok_conn [OF w i] .
  have f: "freed i w ?v" using i by (simp add: freed_def)
  have idx: "index ch = KNew"
    using ok_life(2) [OF w i unknownD(1) [OF un]] unknownD(5) [OF un] unknownD(3) [OF un, of "cLoop co" "ConnectDestroyed i"] ch
    by auto
  have own: "cChan x \<noteq> cChan co" if "conns w j = Some x" "j \<noteq> i" for j x
    using ok_chan_owner [OF w that(1) i] that(2) by blast
  have fd: "index x = KNew" if "chans w c = Some x" "chFd x = cSock co" for c x
    using ok_channel(3) [OF w ch(1) that(1)] that ch idx by simp
  have view: "ep ?k (epollfd p) = ep (kern w) (epollfd p)" if "pollers w l' = Some p" for l' p
    using close_view [OF os w that fd] by simp
  have sync: "poller_sync ep ?v"
    by (rule unknown_channel_sync [OF ok_sync [OF w], where c = "cChan co" and y = None]) (use ch idx view in auto)
  have open_still: "chFd x \<in> opn ?k" if "chans w c = Some x" "c \<noteq> cChan co" for c x
    using ok_channel(2) [OF w that(1)] ok_channel(3) [OF w ch(1) that(1)] that(2) ch(2) server_kernelD(5) [OF os]
    by (auto simp: close_contract_def)
  have dorm: "dormant ?v j" if "j \<noteq> i" "dormant w j" for j
    using that own by (auto simp: dormant_def)
  have "chans_ok ep opn ?v"
    using world_okD(1) [OF w] sync open_still by (auto simp: chans_ok_def)
  moreover have "conns_ok ?v"
  proof -
    have "cb_ok ?v m c cb" if c: "chans w c = Some x" "c \<noteq> cChan co" and cb: "Some cb \<in> callbacks_of x" and m: "m = chLoop x"
      for c x cb m
    proof -
      have "cb_ok w m c cb" using world_okD(2) [OF w] c(1) cb m by (simp add: conns_ok_def)
      with c(2) i show ?thesis by (cases cb) (auto simp: cb_ok_def)
    qed
    with world_okD(2) [OF w] own show ?thesis
      unfolding conns_ok_def by (auto simp: dom_fun_upd)
  qed
  moreover have "server_ok ?v"
  proof -
    obtain s where s: "theServer w = Some s" using ok_acceptor [OF w] .
    then obtain a where a: "theAcceptor w = Some a" "serves w s a" using ok_server [OF w] by blast
    have stay: "j \<noteq> i" if "(n, j) \<in> set (connections s)" for n j
      using that unknownD(1) [OF un] s by (auto simp: attached_def)
    have other: "conns w j = Some x" if "conns ?v j = Some x" for j x using that by (auto split: if_splits)
    have "serves ?v s a"
    proof (rule servesI)
      show "\<exists>co. conns ?v j = Some co \<and> cName co = n" if "(n, j) \<in> set (connections s)" for n j
        using servesD(5) [OF a(2) that] stay [OF that] by simp
      show "\<exists>ch. chans ?v (aChan a) = Some ch \<and> chLoop ch = sLoop s"
        using servesD(1) [OF a(2)] servesD(2) [OF a(2) i] by simp
      show "j = j'" if "conns ?v j = Some x" "conns ?v j' = Some y" "cName x = cName y" for j j' x y
        by (rule servesD(7) [OF a(2) other [OF that(1)] other [OF that(2)] that(3)])
    qed (use servesD(2) [OF a(2) other] servesD(6) [OF a(2) other] servesD(3,4) [OF a(2)] in simp_all)
    with s a(1) show ?thesis by (simp add: server_ok_def)
  qed
  moreover have "loops_ok T ?v" by (rule freed_loops_ok [OF f world_okD(4) [OF w] un dorm])
  moreover have "life_ok T ?v"
    unfolding life_ok_def freed_same(1,2) [OF f]
  proof (intro allI impI)
    fix j x assume j: "conns ?v j = Some x" "\<not> attached w j"
    then have j': "j \<noteq> i" "conns w j = Some x" by (auto split: if_splits)
    with ok_life [OF w this(2) j(2)] own [OF this(2)] dorm
    show "dormant ?v j \<and> (leaving w j \<or> (cLoop x, ConnectDestroyed j) \<in> T \<or> (\<exists>ch. chans ?v (cChan x) = Some ch \<and> index ch = KNew))"
      by simp
  qed
  moreover have "in_thread l ?v" using world_okD(6) [OF w] by (simp add: in_thread_def)
  ultimately have "world_ok ep opn l T ?v" by (simp add: world_ok_def)
  with f show ?thesis using i by (simp add: destroy_connection_def)
qed

end
