(* ===== verification/SafetyAccept.thy ===== *)
theory SafetyAccept
  imports SafetyServer
begin

unbundle bit_operations_syntax

text \<open>
  Accepting against the global invariant: a new connection has a name no live connection has, as long as the
  counter has not wrapped around, and a channel of its own.
\<close>

subsection \<open>A new connection\<close>

text \<open>The server as it was, with one more number used and the pool's next loop chosen.\<close>

definition counted :: "tcp_server \<Rightarrow> tcp_server \<Rightarrow> bool" where
  "counted s s' \<longleftrightarrow> sLoop s' = sLoop s \<and> ploops (threadPool s') = ploops (threadPool s) \<and>
     baseLoop (threadPool s') = baseLoop (threadPool s) \<and> sName s' = sName s \<and> ipPort s' = ipPort s \<and>
     nextConnId s' = nextConnId s + 1 \<and> nextConnId s + 1 \<noteq> 0"

lemma counted_id: "counted s s' \<Longrightarrow> unat (nextConnId s') = Suc (unat (nextConnId s))"
  by (simp add: counted_def unat_increment)

text \<open>\<open>w'\<close> is \<open>w\<close> with the connection \<open>co\<close> at \<open>i\<close>, its channel at \<open>cChan co\<close>, and the server's new entry.\<close>

definition entered :: "conn \<Rightarrow> tcp_connection \<Rightarrow> ('k, 'z) server_world_scheme \<Rightarrow> ('k, 'z) server_world_scheme \<Rightarrow> bool" where
  "entered i co w w' \<longleftrightarrow> conns w' = (conns w)(i \<mapsto> co) \<and>
     chans w' = (chans w)(cChan co \<mapsto> setupChannelCallbacks i (new_channel (cLoop co) (cSock co))) \<and>
     pollers w' = pollers w \<and> loops w' = loops w \<and> curThread w' = curThread w \<and> theAcceptor w' = theAcceptor w \<and>
     (\<exists>s s'. theServer w = Some s \<and> theServer w' = Some s' \<and> counted s s' \<and>
        cName co = connection_name s \<and> connections s' = connections s @ [(cName co, i)])"

lemma setup_fields [simp]:
  "chLoop (setupChannelCallbacks i ch) = chLoop ch" "chFd (setupChannelCallbacks i ch) = chFd ch"
  "index (setupChannelCallbacks i ch) = index ch" "events (setupChannelCallbacks i ch) = events ch"
  "readCallback (setupChannelCallbacks i ch) = Some (ConnHandleRead i)"
  "callbacks_of (setupChannelCallbacks i ch) =
     {Some (ConnHandleRead i), Some (ConnHandleWrite i), Some (ConnHandleClose i), Some (ConnHandleError i)}"
  "writeCallback (setupChannelCallbacks i ch) = Some (ConnHandleWrite i)"
  "closeCallback (setupChannelCallbacks i ch) = Some (ConnHandleClose i)"
  "errorCallback (setupChannelCallbacks i ch) = Some (ConnHandleError i)"
  by (simp_all add: setupChannelCallbacks_def callbacks_of_def setReadCallback_def setWriteCallback_def
      setCloseCallback_def setErrorCallback_def)

lemma new_channel_fields [simp]:
  "chLoop (new_channel l f) = l" "chFd (new_channel l f) = f" "index (new_channel l f) = KNew" "events (new_channel l f) = 0"
  by (simp_all add: new_channel_def KNew_def)

lemma name_unused:
  assumes "serves w s a" "conns w j = Some x"
  shows "cName x \<noteq> connection_name s"
  using servesD(6) [OF assms] by (auto simp: connection_name_def)

text \<open>Nobody is about to establish a connection that does not exist.\<close>

lemma fresh_not_establishing:
  assumes "world_ok ep opn l T w" "conns w i = None" "loops w' = loops w"
  shows "\<not> establishing T w' i"
proof
  assume "establishing T w' i"
  then have "establishing T w i" using assms(3) by (simp add: establishing_def)
  from establishing_waits [OF assms(1) this] assms(2) show False by (simp add: waiting_def)
qed

lemma enteredD:
  assumes "entered i co w w'"
  shows "conns w' = (conns w)(i \<mapsto> co)"
    "chans w' = (chans w)(cChan co \<mapsto> setupChannelCallbacks i (new_channel (cLoop co) (cSock co)))"
    "pollers w' = pollers w" "loops w' = loops w" "curThread w' = curThread w" "theAcceptor w' = theAcceptor w"
    "\<exists>s s'. theServer w = Some s \<and> theServer w' = Some s' \<and> counted s s' \<and>
        cName co = connection_name s \<and> connections s' = connections s @ [(cName co, i)]"
  using assms by (simp_all add: entered_def)

lemma entered_held:
  assumes e: "entered i co w w'" and fresh: "conns w i = None" "chans w (cChan co) = None"
  shows "attached w' j \<longleftrightarrow> attached w j \<or> j = i" "leaving w' j = leaving w j" "dormant w j \<Longrightarrow> dormant w' j"
    "mine l w j \<Longrightarrow> mine l w' j" "waiting l w j \<Longrightarrow> waiting l w' j" "held l w j \<Longrightarrow> held l w' j"
    "held (cLoop co) w' i" "base_loop l w' = base_loop l w"
proof -
  note eq = enteredD [OF e]
  from eq(7) show att: "attached w' j \<longleftrightarrow> attached w j \<or> j = i" for j by (auto simp: attached_def)
  show lv: "leaving w' j = leaving w j" for j by (rule leaving_cong [OF eq(4)])
  show "dormant w j \<Longrightarrow> dormant w' j" using fresh by (auto simp: dormant_def eq(1,2))
  show "mine l w j \<Longrightarrow> mine l w' j" "waiting l w j \<Longrightarrow> waiting l w' j"
    using fresh(1) by (auto simp: mine_def waiting_def eq(1))
  show "held l w j \<Longrightarrow> held l w' j" using fresh(1) by (auto simp: held_def eq(1) att lv)
  show "held (cLoop co) w' i" by (simp add: held_def eq(1) att)
  from eq(7) show "base_loop l w' = base_loop l w" by (auto simp: base_loop_def counted_def)
qed

lemma entered_grows:
  assumes e: "entered i co w w'" and fresh: "conns w i = None" "chans w (cChan co) = None"
  shows "grows w w'"
proof (rule growsI)
  note eq = enteredD [OF e] and h = entered_held [OF e fresh]
  show "\<exists>x'. conns w' j = Some x' \<and> cChan x' = cChan x \<and> cLoop x' = cLoop x" if "conns w j = Some x" for j x
    using that fresh(1) by (auto simp: eq(1))
  show "conns w j \<noteq> None \<or> held (cLoop x) w' j \<and> chans w (cChan x) = None" if "conns w' j = Some x" for j x
    using that fresh(2) h(7) by (cases "j = i") (simp_all add: eq(1))
  show "\<exists>ch'. chans w' c = Some ch' \<and> chLoop ch' = chLoop ch" if "chans w c = Some ch" for c ch
    using that fresh(2) by (auto simp: eq(2))
  show "held m w' j" if "held m w j" for m j by (rule h(6) [OF that])
  show "mine m w' j" if "mine m w j" for m j by (rule h(4) [OF that])
  show "dormant w' j" if "dormant w j" for j by (rule h(3) [OF that])
qed (use enteredD [OF e] in \<open>simp_all add: same_loops_eq\<close>)

lemma entered_conns_ok:
  assumes w: "conns_ok w" and e: "entered i co w w'" and fresh: "conns w i = None" "chans w (cChan co) = None"
    and bufs: "buffer_inv (inputBuffer co)" "buffer_inv (outputBuffer co)"
  shows "conns_ok w'"
proof -
  note eq = enteredD [OF e]
  let ?ch = "setupChannelCallbacks i (new_channel (cLoop co) (cSock co))"
  have own: "cChan x \<noteq> cChan co" if "conns w j = Some x" for j x
    using conns_okD(3) [OF w that] fresh(2) by auto
  have old: "cb_ok w' l c cb" if "cb_ok w l c cb" for l c cb
    using that by (rule cb_ok_mono) (use eq(1,6) fresh in auto)
  have new: "cb_ok w' (cLoop co) (cChan co) cb" if "Some cb \<in> callbacks_of ?ch" for cb
    using that eq(1) by (auto simp: cb_ok_def)
  have f: "finite (dom (conns w'))" "finite (dom (chans w'))"
    using w eq(1,2) by (simp_all add: conns_ok_def)
  have a: "buffer_inv (inputBuffer x) \<and> buffer_inv (outputBuffer x) \<and>
      (\<exists>ch. chans w' (cChan x) = Some ch \<and> chFd ch = cSock x \<and> chLoop ch = cLoop x \<and> readCallback ch = Some (ConnHandleRead j) \<and>
        (cState x = Connecting \<longrightarrow> index ch = KNew))"
    if j: "conns w' j = Some x" for j x
  proof (cases "j = i")
    case True
    with j bufs show ?thesis by (simp add: eq(1,2))
  next
    case False
    with j have "conns w j = Some x" by (simp add: eq(1))
    with conns_okD [OF w this] own [OF this] show ?thesis by (simp add: eq(2))
  qed
  have b: "cb_ok w' (chLoop ch) c cb" if "chans w' c = Some ch" "Some cb \<in> callbacks_of ch" for c ch cb
    using that eq(2) new old w by (cases "c = cChan co") (auto simp: conns_ok_def)
  have c: "Some AcceptorHandleRead \<notin> {writeCallback ch, closeCallback ch, errorCallback ch}" if "chans w' c = Some ch" for c ch
    using that eq(2) w by (cases "c = cChan co") (auto simp: conns_ok_def)
  from a b c f show ?thesis unfolding conns_ok_def by blast
qed

lemma entered_serves:
  assumes w: "server_ok w" and e: "entered i co w w'" and fresh: "conns w i = None" "chans w (cChan co) = None"
  shows "server_ok w'" "next_id w' = Suc (next_id w)"
proof -
  note eq = enteredD [OF e]
  from eq(7) obtain s s' where s: "theServer w = Some s" "theServer w' = Some s'" "counted s s'" "cName co = connection_name s"
    "connections s' = connections s @ [(cName co, i)]" by blast
  note cd = s(3) [unfolded counted_def] and num = counted_id [OF s(3)]
  from w s(1) obtain a where a: "theAcceptor w = Some a" "serves w s a" by (auto simp: server_ok_def)
  note d = servesD [OF a(2)]
  from d(1) obtain ach where ach: "chans w (aChan a) = Some ach" "chLoop ach = sLoop s" by blast
  have "serves w' s' a"
  proof (rule servesI)
    show "\<exists>ch. chans w' (aChan a) = Some ch \<and> chLoop ch = sLoop s'"
      using ach fresh(2) cd by (auto simp: eq(2))
    show "cChan x \<noteq> aChan a" if "conns w' j = Some x" for j x
      using that ach(1) fresh(2) d(2) [of j x] by (cases "j = i") (auto simp: eq(1))
    show "\<exists>x. conns w' j = Some x \<and> cName x = n" if "(n, j) \<in> set (connections s')" for n j
    proof (cases "(n, j) \<in> set (connections s)")
      case True
      with d(5) [OF True] fresh(1) show ?thesis by (auto simp: eq(1))
    next
      case False
      with that s(5) show ?thesis by (simp add: eq(1))
    qed
    show "\<exists>m < unat (nextConnId s'). cName x = sName s' @ ''-'' @ ipPort s' @ ''#'' @ decimal m"
      if "conns w' j = Some x" for j x
    proof (cases "j = i")
      case True
      with that s(4) num cd show ?thesis by (intro exI [of _ "unat (nextConnId s)"]) (simp add: connection_name_def eq(1))
    next
      case False
      with that have "conns w j = Some x" by (simp add: eq(1))
      from d(6) [OF this] show ?thesis unfolding num using cd by (auto intro: less_SucI)
    qed
    show "j = k" if "conns w' j = Some x" "conns w' k = Some y" "cName x = cName y" for j k x y
      using that eq(1) name_unused [OF a(2), of j x] name_unused [OF a(2), of k y] d(7) [of j x k y] s(4)
      by (cases "j = i"; cases "k = i") auto
  qed (use d(3,4) cd eq(3) in simp_all)
  with s(2) a(1) eq(6) show "server_ok w'" by (simp add: server_ok_def)
  show "next_id w' = Suc (next_id w)" using s num by (simp add: next_id_def)
qed

lemma entered_chans_ok:
  assumes w: "chans_ok ep opn w" and e: "entered i co w w'" and fresh: "chans w (cChan co) = None"
    and fd: "\<And>c ch. chans w c = Some ch \<Longrightarrow> chFd ch \<noteq> cSock co" and io: "pollers w (cLoop co) \<noteq> None"
    and k: "\<And>l' p. pollers w l' = Some p \<Longrightarrow> ep (kern w') (epollfd p) = ep (kern w) (epollfd p)"
    and opn: "cSock co \<in> opn (kern w')" "\<And>c ch. chans w c = Some ch \<Longrightarrow> chFd ch \<in> opn (kern w')"
  shows "chans_ok ep opn w'"
proof -
  note eq = enteredD [OF e]
  let ?ch = "setupChannelCallbacks i (new_channel (cLoop co) (cSock co))"
  have sync: "poller_sync ep w'"
    by (rule unknown_channel_sync [where w = w and c = "cChan co" and y = "Some ?ch"])
      (use w fresh eq(2,3) k in \<open>auto simp: chans_ok_def\<close>)
  have uni: "c = d" if "chans w c = Some x" "chans w d = Some y" "chFd x = chFd y" for c d x y
    using w that unfolding chans_ok_def by blast
  have a: "pollers w' (chLoop x) \<noteq> None \<and> chFd x \<in> opn (kern w')" if x: "chans w' c = Some x" for c x
  proof (cases "c = cChan co")
    case True
    with x io opn(1) show ?thesis by (auto simp: eq(2,3))
  next
    case False
    with x have "chans w c = Some x" by (simp add: eq(2))
    with w opn(2) show ?thesis by (auto simp: chans_ok_def eq(3))
  qed
  have b: "c = d" if "chans w' c = Some x" "chans w' d = Some y" "chFd x = chFd y" for c d x y
    using that eq(2) fd [of c x] fd [of d y] uni [of c x d y]
    by (cases "c = cChan co"; cases "d = cChan co") auto
  show ?thesis unfolding chans_ok_def using sync a b by blast
qed

lemma ok_enter:
  assumes w: "world_ok ep opn l T w" and e: "entered i co w w'"
    and fresh: "conns w i = None" "chans w (cChan co) = None"
    and co: "pollers w (cLoop co) \<noteq> None" "buffer_inv (inputBuffer co)" "buffer_inv (outputBuffer co)"
    and fd: "\<And>c ch. chans w c = Some ch \<Longrightarrow> chFd ch \<noteq> cSock co"
    and k: "\<And>l' p. pollers w l' = Some p \<Longrightarrow> ep (kern w') (epollfd p) = ep (kern w) (epollfd p)"
    and opn: "cSock co \<in> opn (kern w')" "\<And>c ch. chans w c = Some ch \<Longrightarrow> chFd ch \<in> opn (kern w')"
  shows "world_ok ep opn l T w'" "grows w w'" "next_id w' = Suc (next_id w)"
proof -
  note eq = enteredD [OF e] and h = entered_held [OF e fresh]
  have loops: "loops_ok T w'"
  proof (rule loops_ok_mono [OF world_okD(4) [OF w]])
    show "supports w w'" by (rule supportsI [OF entered_grows [OF e fresh]]) (simp add: h(8))
  qed (use h(5) in \<open>simp_all add: eq(3,4)\<close>)
  have "life_ok T w'"
    unfolding life_ok_def h(2)
  proof (intro allI impI)
    fix j x assume j: "conns w' j = Some x" "\<not> attached w' j"
    then have j': "j \<noteq> i" "\<not> attached w j" by (simp_all add: h(1))
    with j(1) have x: "conns w j = Some x" by (simp add: eq(1))
    then have "cChan x \<noteq> cChan co" using ok_conn [OF w x] fresh(2) by (metis option.distinct(1))
    with ok_life [OF w x j'(2)] h(3) [of j]
    show "dormant w' j \<and> (leaving w j \<or> (cLoop x, ConnectDestroyed j) \<in> T \<or> (\<exists>ch. chans w' (cChan x) = Some ch \<and> index ch = KNew))"
      by (simp add: eq(2))
  qed
  with loops show "world_ok ep opn l T w'"
    using entered_chans_ok [OF world_okD(1) [OF w] e fresh(2) fd co(1) k opn] entered_conns_ok [OF world_okD(2) [OF w] e fresh co(2,3)]
      entered_serves(1) [OF world_okD(3) [OF w] e fresh] world_okD(6) [OF w] in_thread_cong [OF eq(4,5)]
    by (simp add: world_ok_def)
  show "grows w w'" by (rule entered_grows [OF e fresh])
  show "next_id w' = Suc (next_id w)" by (rule entered_serves(2) [OF world_okD(3) [OF w] e fresh])
qed

subsection \<open>\<open>newConnection\<close> and the acceptor\<close>

text \<open>A step that may also use up numbers of connections.\<close>

definition step_upto :: "'k interest \<Rightarrow> ('k \<Rightarrow> fd set) \<Rightarrow> lid \<Rightarrow> taken \<Rightarrow> nat \<Rightarrow> ('k, 'z) server_world_scheme \<Rightarrow>
    ('k, 'z) server_world_scheme result \<Rightarrow> bool" where
  "step_upto ep opn l T n w r \<longleftrightarrow>
     defined r (\<lambda>w'. world_ok ep opn l T w' \<and> grows w w' \<and> next_id w' \<le> next_id w + n)"

lemma step_upto_Inl [simp]: "step_upto ep opn l T n w (Inl e) \<longleftrightarrow> e \<noteq> Undefined"
  by (simp add: step_upto_def)

lemma step_upto_step: "step_ok ep opn l T w r \<Longrightarrow> step_upto ep opn l T n w r"
  unfolding step_ok_def step_upto_def by (erule defined_mono) simp

lemma step_upto_andThen:
  assumes "step_upto ep opn l T m w r"
    and "\<And>v. r = Inr v \<Longrightarrow> world_ok ep opn l T v \<Longrightarrow> grows w v \<Longrightarrow> next_id v \<le> next_id w + m \<Longrightarrow> step_upto ep opn l T n v (f v)"
  shows "step_upto ep opn l T (m + n) w (andThen r f)"
proof (cases r)
  case (Inr v)
  with assms(1) have v: "world_ok ep opn l T v" "grows w v" "next_id v \<le> next_id w + m" by (simp_all add: step_upto_def)
  from assms(2) [OF Inr v] show ?thesis
    unfolding Inr andThen_simps step_upto_def by (rule defined_mono) (use v grows_trans in auto)
qed (use assms(1) in simp)

lemma step_upto_from:
  assumes "step_upto ep opn l T n v r" "grows w v" "next_id v + n \<le> next_id w + m"
  shows "step_upto ep opn l T m w r"
  using assms(1) unfolding step_upto_def by (rule defined_mono) (use assms(2,3) grows_trans in auto)

lemma getNextLoop_pool:
  assumes "getNextLoop p = (io, p')"
  shows "io \<in> insert (baseLoop p) (set (ploops p))" "ploops p' = ploops p" "baseLoop p' = baseLoop p"
  using assms by (auto simp: getNextLoop_def split: if_splits)

lemma serves_counted:
  assumes a: "serves w s a" and s': "counted s s'" "connections s' = connections s"
  shows "serves (put_server s' w) s' a"
proof -
  note d = servesD [OF a] and cd = s'(1) [unfolded counted_def]
  show ?thesis
  proof (rule servesI, unfold server_fields s'(2))
    show "\<exists>m < unat (nextConnId s'). cName co = sName s' @ ''-'' @ ipPort s' @ ''#'' @ decimal m"
      if "conns w i = Some co" for i co
      using d(6) [OF that] counted_id [OF s'(1)] cd by (auto intro: less_SucI)
    show "i = j" if "conns w i = Some co" "conns w j = Some co'" "cName co = cName co'" for i j co co'
      by (rule d(7) [OF that])
  qed (use d(1-5) cd in simp_all)
qed

lemma ok_count:
  assumes w: "world_ok ep opn l T w" and s: "theServer w = Some s" and s': "counted s s'" "connections s' = connections s"
  defines "v \<equiv> put_server s' w"
  shows "world_ok ep opn l T v" "grows w v" "next_id v = Suc (next_id w)"
proof -
  obtain a where a: "theAcceptor w = Some a" "serves w s a" using ok_server [OF w s] .
  have v: "conns v = conns w" "chans v = chans w" "loops v = loops w" "pollers v = pollers w" "curThread v = curThread w"
    "theAcceptor v = theAcceptor w" "theServer v = Some s'" "kern v = kern w"
    by (simp_all add: v_def)
  have att: "attached v j = attached w j" for j using s s'(2) by (simp add: v(7) attached_def)
  have h: "held m v j = held m w j" for m j unfolding held_def v(1) att leaving_cong [OF v(3)] by (rule refl)
  have base: "base_loop m v = base_loop m w" for m using s s'(1) by (simp add: v(7) base_loop_def counted_def)
  note same = mine_cong [OF v(1)] dormant_cong [OF v(1,2)] leaving_cong [OF v(3)]
  show g: "grows w v" by (rule growsI) (simp_all add: h same v same_loops_eq)
  have "loops_ok T v"
    by (rule loops_ok_mono [OF world_okD(4) [OF w] supportsI [OF g] v(3)]) (simp_all add: base v same)
  moreover have "life_ok T v" using world_okD(5) [OF w] unfolding life_ok_def att same v(1,2) .
  moreover have "server_ok v" using serves_counted [OF a(2) s'] a(1) by (auto simp: server_ok_def v(6,7)) (simp add: v_def)
  ultimately show "world_ok ep opn l T v"
    using world_okD(1,2,6) [OF w] chans_ok_cong [OF v(4,2), of ep opn] conns_ok_cong [OF v(1,2,6)] in_thread_cong [OF v(3,5)] v(8)
    by (simp add: world_ok_def)
  show "next_id v = Suc (next_id w)" using s counted_id [OF s'(1)] by (simp add: next_id_def v(7))
qed

lemma new_connection_eq:
  obtains co where "new_connection os i c l name f here peer w = Inr (put_channel c (setupChannelCallbacks i (new_channel l f))
      (configureSocketOptions os f (put_conn i co (put_channel c (new_channel l f) w))))"
    and "cLoop co = l" "cName co = name" "cState co = Connecting" "cSock co = f" "cChan co = c"
      "buffer_inv (inputBuffer co)" "buffer_inv (outputBuffer co)"
proof -
  have "returns (new_buffer kInitialSize) buffer_inv"
    by (rule returns_mono [OF new_buffer_ok]) (simp_all add: max_size_def)
  then obtain b where b: "new_buffer kInitialSize = Inr b" "buffer_inv b" by (auto simp: returns_iff)
  show ?thesis
    by (rule that [of "\<lparr>cLoop = l, cName = name, cState = Connecting, cSock = f, cChan = c,
             localAddr = here, peerAddr = peer, inputBuffer = b, outputBuffer = b,
             onConnection = None, onMessage = None, onWriteComplete = None, onClose = None,
             onHighWaterMark = None, highWaterMark = kDefaultHighWaterMark\<rparr>"])
      (use b in \<open>simp_all add: new_connection_def Let_def configureSocketOptions_def setOption_def\<close>)
qed

lemma options_fields [simp]:
  "conns (configureSocketOptions os f w) = conns w" "chans (configureSocketOptions os f w) = chans w"
  "pollers (configureSocketOptions os f w) = pollers w" "loops (configureSocketOptions os f w) = loops w"
  "curThread (configureSocketOptions os f w) = curThread w" "theServer (configureSocketOptions os f w) = theServer w"
  "theAcceptor (configureSocketOptions os f w) = theAcceptor w"
  by (simp_all add: configureSocketOptions_def setOption_def)

lemma options_quiet:
  assumes "server_kernel os ep opn"
  shows "ep (kern (configureSocketOptions os f w)) = ep (kern w)" "opn (kern (configureSocketOptions os f w)) = opn (kern w)"
  by (simp_all add: configureSocketOptions_def setOption_def server_kernel_quiet [OF assms])

text \<open>Closing a descriptor that no channel uses.\<close>

lemma ok_close:
  assumes os: "server_kernel os ep opn" and w: "world_ok ep opn l T w" and f: "\<And>c ch. chans w c = Some ch \<Longrightarrow> chFd ch \<noteq> f"
  shows "world_ok ep opn l T (w\<lparr>kern := sys_close os f (kern w)\<rparr>)"
proof (rule ok_kern_wide [OF w])
  show "ep (sys_close os f (kern w)) (epollfd p) = ep (kern w) (epollfd p)" if "pollers w l' = Some p" for l' p
    using close_view [OF os w that, of f] f by auto
  show "chFd ch \<in> opn (sys_close os f (kern w))" if "chans w c = Some ch" for c ch
    using ok_channel(2) [OF w that] f [OF that] server_kernelD(5) [OF os] by (simp add: close_contract_def)
qed

text \<open>The new connection is established at once, or by the loop it was given to.\<close>

lemma establish_step:
  fixes w :: "('k, 'z) server_world_scheme"
  assumes os: "server_kernel os ep opn" and app: "app_keeps ep opn l app" and w: "world_ok ep opn l T w"
    and i: "waiting io w i" and once: "\<not> establishing T w i" and io: "loops w io \<noteq> None"
  shows "step_ok ep opn l T w (runInLoop os io (ConnectEstablished i) (connectEstablished os app i) w)"
proof (cases "io = l")
  case True
  with connectEstablished_step [OF os app w _ once] i show ?thesis by (simp add: run_here(1) [OF w])
next
  case False
  have "functor_ok io w (ConnectEstablished i)" using i by (simp add: functor_ok_def)
  from step_queue(1) [OF os w this io] once show ?thesis by (simp add: run_there [OF w False io])
qed

lemma newConnection_upto:
  fixes w :: "('k, 'z) server_world_scheme"
  assumes os: "server_kernel os ep opn" and app: "app_keeps ep opn l app"
    and w: "world_ok ep opn l T w" and fresh: "conns w i = None" "chans w c = None"
    and fd: "f \<in> opn (kern w)" "\<And>c ch. chans w c = Some ch \<Longrightarrow> chFd ch \<noteq> f"
    and n: "next_id w + 1 < 2 ^ 32"
  shows "step_upto ep opn l T 1 w (newConnection os app i c f peer w)"
proof -
  obtain s where s: "theServer w = Some s" using ok_acceptor [OF w] .
  then obtain a where a: "serves w s a" using ok_server [OF w] by blast
  have wrap: "nextConnId s + 1 \<noteq> 0"
  proof
    assume "nextConnId s + 1 = 0"
    then have "unat (nextConnId s + 1) = 0" by simp
    with n s show False by (simp add: next_id_def unat_word_ariths)
  qed
  obtain io p where loop: "getNextLoop (threadPool s) = (io, p)" by fastforce
  note pool = getNextLoop_pool [OF loop]
  have io: "pollers w io \<noteq> None" using servesD(3) [OF a, of io] servesD(4) [OF a] pool(1) by auto
  then have iol: "loops w io \<noteq> None" using loops_okD(1) [OF world_okD(4) [OF w], of io] by simp
  let ?s = "s\<lparr>threadPool := p, nextConnId := nextConnId s + 1\<rparr>"
  let ?u = "put_server ?s w"
  have cnt: "counted s ?s" using wrap pool(2,3) by (simp add: counted_def)
  note u = ok_count [OF w s cnt, simplified]
  obtain r k where r: "sys_getsockname os f (kern w) = (r, k)" by fastforce
  have k: "ep k = ep (kern w)" "opn k = opn (kern w)"
    using server_kernel_quiet(21,22) [OF os, of f "kern w"] r by simp_all
  show ?thesis
  proof (cases r)
    case (Inl e)
    have ku: "world_ok ep opn l T (?u\<lparr>kern := k\<rparr>)" by (rule ok_kern [OF u(1)]) (use k in simp_all)
    have "world_ok ep opn l T (?u\<lparr>kern := sys_close os f k\<rparr>)"
      using ok_close [OF os ku, of f] fd(2) by simp
    moreover have "grows w (?u\<lparr>kern := sys_close os f k\<rparr>)"
      by (rule grows_trans [OF u(2)], rule grows_simple) (simp_all add: same_loops_eq)
    moreover have "newConnection os app i c f peer w = Inr (?u\<lparr>kern := sys_close os f k\<rparr>)"
      using s r Inl by (simp add: newConnection_def with_server_def loop Let_def)
    ultimately show ?thesis using u(3) by (simp add: step_upto_def next_id_def)
  next
    case (Inr here)
    obtain co where nc: "new_connection os i c io (connection_name s) f here peer (?u\<lparr>kern := k\<rparr>) = Inr (put_channel c
        (setupChannelCallbacks i (new_channel io f)) (configureSocketOptions os f (put_conn i co (put_channel c (new_channel io f) (?u\<lparr>kern := k\<rparr>)))))"
      (is "_ = Inr ?x")
      and co: "cLoop co = io" "cName co = connection_name s" "cState co = Connecting" "cSock co = f" "cChan co = c"
        "buffer_inv (inputBuffer co)" "buffer_inv (outputBuffer co)"
      using new_connection_eq .
    let ?co = "conn_setCloseCallback (Some kRemoveConnection)
                   (conn_setWriteCompleteCallback (writeCompleteCallback s)
                   (conn_setMessageCallback (messageCallback s)
                   (conn_setConnectionCallback (connectionCallback s) co)))"
    have same: "cLoop ?co = io" "cName ?co = connection_name s" "cState ?co = Connecting" "cSock ?co = f" "cChan ?co = c"
        "buffer_inv (inputBuffer ?co)" "buffer_inv (outputBuffer ?co)"
      using co by (simp_all add: conn_setCloseCallback_def conn_setWriteCompleteCallback_def conn_setMessageCallback_def
          conn_setConnectionCallback_def)
    have free: "map_of (connections s) (connection_name s) = None"
    proof (rule ccontr)
      assume "map_of (connections s) (connection_name s) \<noteq> None"
      then obtain j where "(connection_name s, j) \<in> set (connections s)" by (auto dest: map_of_SomeD)
      from servesD(5) [OF a this] name_unused [OF a] show False by blast
    qed
    let ?t = "?s\<lparr>connections := connections s @ [(connection_name s, i)]\<rparr>"
    let ?y = "put_conn i ?co (put_server ?t ?x)"
    have "counted s ?t" using cnt by (simp add: counted_def)
    with s same have ent: "entered i ?co w ?y" by (simp add: entered_def)
    have ep: "ep (kern ?y) = ep (kern w)" "opn (kern ?y) = opn (kern w)"
      using k by (simp_all add: options_quiet [OF os])
    have y: "world_ok ep opn l T ?y" "grows w ?y" "next_id ?y = Suc (next_id w)"
      by (rule ok_enter [OF w ent]; use fresh same fd ep io ok_channel(2) [OF w] in simp)+
    have "step_ok ep opn l T ?y (runInLoop os io (ConnectEstablished i) (connectEstablished os app i) ?y)"
    proof (rule establish_step [OF os app y(1)])
      show "waiting io ?y i" using same by (simp add: waiting_def)
      show "\<not> establishing T ?y i" by (rule fresh_not_establishing [OF w fresh(1)]) simp
    qed (use iol in simp)
    moreover have "newConnection os app i c f peer w = runInLoop os io (ConnectEstablished i) (connectEstablished os app i) ?y"
      using s r Inr nc free by (simp add: newConnection_def with_server_def loop Let_def emplace_def)
    ultimately have "step_upto ep opn l T 0 ?y (newConnection os app i c f peer w)"
      by (simp only: step_upto_step)
    then show ?thesis by (rule step_upto_from [OF _ y(2)]) (simp add: y(3))
  qed
qed

end
