(* ===== verification/SafetyTurn.thy ===== *)
theory SafetyTurn
  imports SafetyAccept
begin

unbundle bit_operations_syntax

text \<open>
  The parts of a turn of a loop against the global invariant: polling, and dispatching the active channels.
\<close>

definition allocates :: "(('k, 'z) server_world_scheme \<Rightarrow> conn \<times> cid) \<Rightarrow> bool" where
  "allocates fresh \<longleftrightarrow> (\<forall>w. finite (dom (conns w)) \<longrightarrow> finite (dom (chans w)) \<longrightarrow>
     conns w (fst (fresh w)) = None \<and> chans w (snd (fresh w)) = None)"

lemma acceptor_handleRead_upto:
  fixes w :: "('k, 'z) server_world_scheme"
  assumes os: "server_kernel os ep opn" and app: "app_keeps ep opn l app"
    and w: "world_ok ep opn l T w" and n: "next_id w + 1 < 2 ^ 32" and fresh: "allocates fresh"
  shows "step_upto ep opn l T 1 w (acceptor_handleRead os
    (\<lambda>f peer w. newConnection os app (fst (fresh w)) (snd (fresh w)) f peer w) w)"
proof -
  obtain a where a: "theAcceptor w = Some a" using ok_acceptor [OF w] .
  obtain r k where r: "sys_accept os (aSock a) (kern w) = (r, k)" by fastforce
  show ?thesis
  proof (cases r)
    case (Inl e)
    with a r show ?thesis by (simp add: acceptor_handleRead_def with_acceptor_def socket_accept_def handleAcceptError_def)
  next
    case (Inr gp)
    obtain g peer where gp: "gp = (g, peer)" by (cases gp)
    have k: "ep k = ep (kern w)" "g \<notin> opn (kern w)" "opn k = insert g (opn (kern w))"
      using server_kernelD(4) [OF os] r Inr gp unfolding accept_contract_def by fastforce+
    let ?v = "w\<lparr>kern := k\<rparr>"
    have fd: "chFd ch \<noteq> g" if "chans ?v c = Some ch" for c ch
      using that ok_channel(2) [OF w, of c ch] k(2) by auto
    have v: "world_ok ep opn l T ?v"
      by (rule ok_kern_wide [OF w]) (use k ok_channel(2) [OF w] in auto)
    have gr: "grows w ?v" by (rule grows_simple) (simp_all add: same_loops_eq)
    have id: "next_id ?v = next_id w" by (simp add: next_id_def)
    show ?thesis
    proof (cases "newConnectionSet a")
      case True
      have "conns ?v (fst (fresh ?v)) = None" "chans ?v (snd (fresh ?v)) = None"
        using world_okD(2) [OF v] fresh unfolding conns_ok_def allocates_def by blast+
      then have "step_upto ep opn l T 1 ?v (newConnection os app (fst (fresh ?v)) (snd (fresh ?v)) g peer ?v)"
        by (intro newConnection_upto [OF os app v] fd) (use k n id in simp_all)
      from step_upto_from [OF this gr] a r Inr gp True id show ?thesis
        by (simp add: acceptor_handleRead_def with_acceptor_def socket_accept_def)
    next
      case False
      have "world_ok ep opn l T (?v\<lparr>kern := sys_close os g k\<rparr>)" using ok_close [OF os v fd] by simp
      moreover have "grows w (?v\<lparr>kern := sys_close os g k\<rparr>)" by (rule grows_simple) (simp_all add: same_loops_eq)
      ultimately show ?thesis
        using a r Inr gp False
        by (simp add: acceptor_handleRead_def with_acceptor_def socket_accept_def step_upto_def next_id_def)
    qed
  qed
qed

lemma ok_acceptor_update:
  assumes w: "world_ok ep opn l T w" and a: "theAcceptor w = Some a" "aChan a' = aChan a"
  shows "step_ok ep opn l T w (Inr (w\<lparr>theAcceptor := Some a'\<rparr>))"
proof -
  let ?v = "w\<lparr>theAcceptor := Some a'\<rparr>"
  have "conns_ok ?v"
  proof -
    have "cb_ok ?v m c cb = cb_ok w m c cb" for m c cb using a by (cases cb) (simp_all add: cb_ok_def)
    with world_okD(2) [OF w] show ?thesis by (simp add: conns_ok_def)
  qed
  moreover have "server_ok ?v"
  proof -
    obtain s where s: "theServer w = Some s" using ok_acceptor [OF w] .
    then have "serves w s a" using ok_server [OF w] a(1) by force
    moreover have "serves ?v s a' = serves w s a" by (simp add: serves_def a(2))
    ultimately show ?thesis using s by (simp add: server_ok_def)
  qed
  ultimately have "world_ok ep opn l T ?v"
    using world_okD(1,4,5,6) [OF w] chans_ok_cong [of ?v w ep opn] loops_ok_cong [of ?v w] life_ok_cong [of ?v w]
      in_thread_cong [of ?v w]
    by (simp add: world_ok_def)
  moreover have "grows w ?v"
    using a by (auto simp: grows_def held_def attached_def leaving_def dormant_def mine_def acceptor_chan_def same_loops_eq)
  ultimately show ?thesis by (simp add: step_ok_def next_id_def)
qed

lemma acceptor_listen_step:
  assumes os: "server_kernel os ep opn" and w: "world_ok ep opn l T w"
  shows "step_ok ep opn l T w (acceptor_listen os w)"
proof -
  obtain s where "theServer w = Some s" using ok_acceptor [OF w] .
  then obtain a where a1: "theAcceptor w = Some a" "serves w s a" using ok_server [OF w] by blast
  with servesD(1) obtain ch where a: "theAcceptor w = Some a" "chans w (aChan a) = Some ch" by blast
  note own = servesD(2) [OF a1(2)]
  let ?v = "w\<lparr>theAcceptor := Some (a\<lparr>listenning := True\<rparr>)\<rparr>"
  have v: "step_ok ep opn l T w (Inr ?v)" by (rule ok_acceptor_update [OF w a(1)]) simp
  then have vw: "world_ok ep opn l T ?v" "grows w ?v" "next_id ?v = next_id w" by (simp_all add: step_ok_def)
  obtain r k where r: "sys_listen os (aSock a) kBacklog (kern w) = (r, k)" by fastforce
  have k: "ep k = ep (kern ?v)" "opn k = opn (kern ?v)"
    using server_kernel_quiet(17,18) [OF os, of "aSock a" kBacklog "kern w"] r by simp_all
  note kk = step_kern [OF vw(1) k] and kw = ok_kern [OF vw(1) k]
  show ?thesis
  proof (cases r)
    case (Some e)
    with a(1) r show ?thesis by (simp add: acceptor_listen_def with_acceptor_def socket_listen_def Let_def)
  next
    case None
    have "step_ok ep opn l T (?v\<lparr>kern := k\<rparr>) (change_events os (\<lambda>e. e OR kReadEvent) (aChan a) (?v\<lparr>kern := k\<rparr>))"
      by (rule step_change(1) [OF os kw]) (use a own in auto)
    moreover have "grows w (?v\<lparr>kern := k\<rparr>)" "next_id (?v\<lparr>kern := k\<rparr>) = next_id w"
      using kk vw by (auto simp: step_ok_def intro: grows_trans)
    ultimately have "step_ok ep opn l T w (enableReading os (aChan a) (?v\<lparr>kern := k\<rparr>))"
      unfolding channel_ops_change by (rule step_ok_from)
    then show ?thesis
      using a(1) r None by (simp add: acceptor_listen_def with_acceptor_def socket_listen_def Let_def)
  qed
qed

lemma loop_handleRead_step:
  assumes os: "server_kernel os ep opn" and w: "world_ok ep opn l T w"
  shows "step_ok ep opn l T w (loop_handleRead os l w)"
proof -
  obtain lp where "loops w l = Some lp" using ok_loop [OF w] .
  with step_kern [OF w server_kernel_quiet(13,14) [OF os]] show ?thesis by (simp add: loop_handleRead_def)
qed

subsection \<open>Dispatch\<close>

text \<open>A channel of the loop \<open>l\<close> whose connection, if it has one, is established and not about to be freed.\<close>

definition engaged :: "lid \<Rightarrow> ('k, 'z) server_world_scheme \<Rightarrow> cid \<Rightarrow> bool" where
  "engaged l w c \<longleftrightarrow> (\<exists>ch. chans w c = Some ch \<and> chLoop ch = l) \<and>
     (\<forall>i co. conns w i = Some co \<longrightarrow> cChan co = c \<longrightarrow> held l w i \<and> mine l w i)"

lemma engagedD:
  assumes "engaged l w c"
  shows "\<exists>ch. chans w c = Some ch \<and> chLoop ch = l" "conns w i = Some co \<Longrightarrow> cChan co = c \<Longrightarrow> held l w i"
    "conns w i = Some co \<Longrightarrow> cChan co = c \<Longrightarrow> mine l w i" "chans w c \<noteq> None"
  using assms by (auto simp: engaged_def)

lemma engaged_grows:
  assumes e: "engaged l w c" and g: "grows w w'"
  shows "engaged l w' c"
  unfolding engaged_def
proof (intro conjI allI impI)
  from engagedD(1) [OF e] obtain ch where ch: "chans w c = Some ch" "chLoop ch = l" by blast
  with growsD(4) [OF g ch(1)] show "\<exists>ch. chans w' c = Some ch \<and> chLoop ch = l" by auto
  fix i co' assume i: "conns w' i = Some co'" "cChan co' = c"
  with growsD(5) [OF g i(1)] ch(1) obtain co where co: "conns w i = Some co" by auto
  with growsD(8) [OF g co] i have "cChan co = c" by auto
  with growsD(1,3) [OF g] engagedD(2,3) [OF e co] show "held l w' i" "mine l w' i" by blast+
qed

text \<open>How many connections the events of a channel can bring.\<close>

definition arrivals :: "('k, 'z) server_world_scheme \<Rightarrow> cid \<Rightarrow> nat" where
  "arrivals w c = (if acceptor_chan w = Some c then 1 else 0)"

lemma arrivals_grows: "grows w w' \<Longrightarrow> arrivals w' c = arrivals w c"
  by (simp add: arrivals_def growsD(6))

lemma run_callback_upto:
  fixes w :: "('k, 'z) server_world_scheme"
  assumes os: "server_kernel os ep opn" and app: "app_keeps ep opn l app" and fresh: "allocates fresh"
    and w: "world_ok ep opn l T w" and h: "engaged l w c" and cb: "cb_ok w l c cb"
    and n: "cb = AcceptorHandleRead \<Longrightarrow> next_id w + arrivals w c < 2 ^ 32"
  shows "step_upto ep opn l T (if cb = AcceptorHandleRead then arrivals w c else 0) w (run_callback os app fresh cb t w)"
proof -
  note sapp = app_keeps_server [OF app, of os] and scl = close_keeps_server [OF os, of l app]
  have alive: "held l w i" "mine l w i" "conns w i \<noteq> None" if "\<exists>co. conns w i = Some co \<and> cChan co = c" for i
    using that engagedD(2,3) [OF h] by auto
  show ?thesis
  proof (cases cb)
    case AcceptorHandleRead
    with cb have one: "arrivals w c = 1" by (auto simp: cb_ok_def arrivals_def acceptor_chan_def)
    have "step_upto ep opn l T 1 w (acceptor_handleRead os
        (\<lambda>f peer w. newConnection os (server_app os app) (fst (fresh w)) (snd (fresh w)) f peer w) w)"
      by (rule acceptor_handleRead_upto [OF os sapp w _ fresh]) (use n [OF AcceptorHandleRead] one in simp)
    with AcceptorHandleRead one show ?thesis by (simp add: run_callback_def run_conn_callback_def)
  next
    case (LoopHandleRead l')
    with cb have "l' = l" by (simp add: cb_ok_def)
    with LoopHandleRead step_upto_step [OF loop_handleRead_step [OF os w]] show ?thesis
      by (simp add: run_callback_def run_conn_callback_def)
  next
    case (ConnHandleRead i)
    with cb have "\<exists>co. conns w i = Some co \<and> cChan co = c" by (simp add: cb_ok_def)
    from step_upto_step [OF handleRead_step [OF os sapp scl w alive(1,2) [OF this]]] ConnHandleRead show ?thesis
      by (simp add: run_callback_def run_conn_callback_def)
  next
    case (ConnHandleWrite i)
    with cb have "\<exists>co. conns w i = Some co \<and> cChan co = c" by (simp add: cb_ok_def)
    from step_upto_step [OF handleWrite_step [OF os w alive(2) [OF this]]] ConnHandleWrite show ?thesis
      by (simp add: run_callback_def run_conn_callback_def)
  next
    case (ConnHandleClose i)
    with cb have "\<exists>co. conns w i = Some co \<and> cChan co = c" by (simp add: cb_ok_def)
    from step_upto_step [OF handleClose_step [OF os sapp scl w alive(1,2) [OF this]]] ConnHandleClose show ?thesis
      by (simp add: run_callback_def run_conn_callback_def)
  next
    case (ConnHandleError i)
    with cb have "\<exists>co. conns w i = Some co \<and> cChan co = c" by (simp add: cb_ok_def)
    from step_upto_step [OF handleError_step [OF os w alive(3) [OF this]]] ConnHandleError show ?thesis
      by (simp add: run_callback_def run_conn_callback_def)
  qed
qed

lemma fire_upto:
  fixes w :: "('k, 'z) server_world_scheme"
  assumes os: "server_kernel os ep opn" and app: "app_keeps ep opn l app" and fresh: "allocates fresh"
    and w: "world_ok ep opn l T w" and h: "engaged l w c"
    and get: "\<And>ch. get ch \<in> callbacks_of ch"
    and n: "\<And>ch. chans w c = Some ch \<Longrightarrow> get ch = Some AcceptorHandleRead \<Longrightarrow> next_id w + arrivals w c < 2 ^ 32"
    and m: "\<And>ch. chans w c = Some ch \<Longrightarrow> get ch = Some AcceptorHandleRead \<Longrightarrow> m = arrivals w c"
  shows "step_upto ep opn l T m w (fire (run_callback os app fresh) cond get t c w)"
proof -
  from engagedD(1) [OF h] obtain ch where ch: "chans w c = Some ch" "chLoop ch = l" by blast
  have stay: "step_upto ep opn l T m w (Inr w)" using w by (simp add: step_upto_def)
  show ?thesis
  proof (cases "get ch")
    case None
    then show ?thesis using ch(1) stay by (simp add: fire_def)
  next
    case (Some cb)
    then have "Some cb \<in> callbacks_of ch" using get [of ch] by simp
    then have "cb_ok w l c cb" using world_okD(2) [OF w] ch unfolding conns_ok_def by blast
    from run_callback_upto [OF os app fresh w h this, of t] n [OF ch(1)] Some
    have "step_upto ep opn l T (if cb = AcceptorHandleRead then arrivals w c else 0) w (run_callback os app fresh cb t w)" by simp
    then have "step_upto ep opn l T m w (run_callback os app fresh cb t w)"
      unfolding step_upto_def by (rule defined_mono) (use m [OF ch(1)] Some in \<open>auto split: if_splits\<close>)
    with ch Some stay show ?thesis by (simp add: fire_def)
  qed
qed

lemma handleEvent_upto:
  fixes w :: "('k, 'z) server_world_scheme"
  assumes os: "server_kernel os ep opn" and app: "app_keeps ep opn l app" and fresh: "allocates fresh"
    and w: "world_ok ep opn l T w" and h: "engaged l w c"
    and n: "next_id w + arrivals w c < 2 ^ 32"
  shows "step_upto ep opn l T (arrivals w c) w (handleEvent (\<lambda>i w. conns w i \<noteq> None) (run_callback os app fresh) t c w)"
proof -
  let ?run = "run_callback os app fresh"
  let ?guard = "handleEventWithGuard ?run t c w"
  have other: "step_upto ep opn l T 0 v (fire ?run cond get t c v)"
    if v: "world_ok ep opn l T v" "grows w v" and get: "\<And>ch. get ch \<in> {writeCallback ch, closeCallback ch, errorCallback ch}"
    for v :: "('k, 'z) server_world_scheme" and cond get
  proof (rule fire_upto [OF os app fresh v(1) engaged_grows [OF h v(2)]])
    show "get ch \<in> callbacks_of ch" for ch using get [of ch] by (auto simp: callbacks_of_def)
    have no: "False" if "chans v c = Some ch" "get ch = Some AcceptorHandleRead" for ch
      using get [of ch] that world_okD(2) [OF v(1)] unfolding conns_ok_def by (metis insertE insert_iff)
    show "0 = arrivals v c" "next_id v + arrivals v c < 2 ^ 32" if "chans v c = Some ch" "get ch = Some AcceptorHandleRead" for ch
      using no [OF that] by simp_all
  qed
  have read: "step_upto ep opn l T (arrivals w c) v (fire ?run cond readCallback t c v)"
    if v: "world_ok ep opn l T v" "grows w v" "next_id v \<le> next_id w" for v :: "('k, 'z) server_world_scheme" and cond
  proof (rule fire_upto [OF os app fresh v(1) engaged_grows [OF h v(2)]])
  qed (use v n arrivals_grows [OF v(2)] in \<open>auto simp: callbacks_of_def\<close>)
  have "step_upto ep opn l T (0 + (0 + (arrivals w c + 0))) w ?guard"
    unfolding handleEventWithGuard_def
  proof (rule step_upto_andThen [OF other [OF w grows_refl]])
    fix v1 assume v1: "world_ok ep opn l T v1" "grows w v1" "next_id v1 \<le> next_id w + 0"
    show "step_upto ep opn l T (0 + (arrivals w c + 0)) v1 (andThen (fire ?run (\<lambda>r. r AND EPOLLERR \<noteq> 0) errorCallback t c v1) (\<lambda>w.
      andThen (fire ?run (\<lambda>r. r AND (EPOLLIN OR EPOLLPRI) \<noteq> 0) readCallback t c w) (\<lambda>w.
       fire ?run (\<lambda>r. r AND EPOLLOUT \<noteq> 0) writeCallback t c w)))"
    proof (rule step_upto_andThen [OF other [OF v1(1,2)]])
      fix v2 assume v2: "world_ok ep opn l T v2" "grows v1 v2" "next_id v2 \<le> next_id v1 + 0"
      note g2 = grows_trans [OF v1(2) v2(2)]
      show "step_upto ep opn l T (arrivals w c + 0) v2 (andThen (fire ?run (\<lambda>r. r AND (EPOLLIN OR EPOLLPRI) \<noteq> 0) readCallback t c v2) (\<lambda>w.
         fire ?run (\<lambda>r. r AND EPOLLOUT \<noteq> 0) writeCallback t c w))"
      proof (rule step_upto_andThen [OF read [OF v2(1) g2]])
        fix v3 assume v3: "world_ok ep opn l T v3" "grows v2 v3"
        show "step_upto ep opn l T 0 v3 (fire ?run (\<lambda>r. r AND EPOLLOUT \<noteq> 0) writeCallback t c v3)"
          by (rule other [OF v3(1) grows_trans [OF g2 v3(2)]]) simp
      qed (use v1 v2 in simp)
    qed simp
  qed simp
  then have guard: "step_upto ep opn l T (arrivals w c) w ?guard" by simp
  have stay: "step_upto ep opn l T (arrivals w c) w (Inr w)" using w by (simp add: step_upto_def)
  from engagedD(4) [OF h] guard stay show ?thesis by (auto simp: handleEvent_def split: option.splits)
qed

lemma handleEvents_upto:
  fixes w :: "('k, 'z) server_world_scheme"
  assumes os: "server_kernel os ep opn" and app: "app_keeps ep opn l app" and fresh: "allocates fresh"
  shows "world_ok ep opn l T w \<Longrightarrow> \<forall>c \<in> set cs. engaged l w c \<Longrightarrow>
    next_id w + sum_list (map (arrivals w) cs) < 2 ^ 32 \<Longrightarrow>
    step_upto ep opn l T (sum_list (map (arrivals w) cs)) w
      (each (handleEvent (\<lambda>i w. conns w i \<noteq> None) (run_callback os app fresh) t) cs w)"
proof (induction cs arbitrary: w)
  case Nil
  then show ?case by (simp add: step_upto_def)
next
  case (Cons c cs)
  have "step_upto ep opn l T (arrivals w c + sum_list (map (arrivals w) cs)) w
      (andThen (handleEvent (\<lambda>i w. conns w i \<noteq> None) (run_callback os app fresh) t c w)
        (each (handleEvent (\<lambda>i w. conns w i \<noteq> None) (run_callback os app fresh) t) cs))"
  proof (rule step_upto_andThen [OF handleEvent_upto [OF os app fresh Cons.prems(1)]])
    fix v assume v: "world_ok ep opn l T v" "grows w v" "next_id v \<le> next_id w + arrivals w c"
    have eq: "arrivals v = arrivals w" using arrivals_grows [OF v(2)] by (rule ext)
    have "step_upto ep opn l T (sum_list (map (arrivals v) cs)) v
        (each (handleEvent (\<lambda>i w. conns w i \<noteq> None) (run_callback os app fresh) t) cs v)"
      by (rule Cons.IH [OF v(1)]) (use Cons.prems(2,3) v eq engaged_grows [OF _ v(2)] in auto)
    then show "step_upto ep opn l T (sum_list (map (arrivals w) cs)) v
        (each (handleEvent (\<lambda>i w. conns w i \<noteq> None) (run_callback os app fresh) t) cs v)"
      unfolding eq .
  qed (use Cons.prems(2,3) in simp_all)
  then show ?case by simp
qed

lemma arrivals_once: "distinct cs \<Longrightarrow> sum_list (map (arrivals w) cs) \<le> 1"
proof (induction cs)
  case (Cons c cs)
  have "sum_list (map (arrivals w) cs) = 0" if "arrivals w c \<noteq> 0"
    using that Cons.prems by (auto simp: arrivals_def split: if_splits)
  with Cons show ?case by (cases "arrivals w c = 0") (auto simp: arrivals_def)
qed simp

subsection \<open>Polling\<close>

lemma fillActive_step:
  fixes w :: "('k, 'z) server_world_scheme"
  shows "world_ok ep opn l T w \<Longrightarrow> \<forall>(ev, c) \<in> set evs. chans w c \<noteq> None \<Longrightarrow>
    \<exists>w'. fillActiveChannels evs active w = Inr (active @ map snd evs, w') \<and> step_ok ep opn l T w (Inr w') \<and>
      pollers w' = pollers w"
proof (induction evs arbitrary: active w)
  case Nil
  then show ?case by (auto simp: step_ok_Inr)
next
  case (Cons e evs)
  obtain ev c where e: "e = (ev, c)" by (cases e)
  with Cons.prems(2) obtain ch where ch: "chans w c = Some ch" by auto
  let ?v = "put_channel c (set_revents ev ch) w"
  have v: "step_ok ep opn l T w (Inr ?v)"
    by (rule step_channel [OF Cons.prems(1) ch]) (simp_all add: set_revents_def chan_twin_def)
  then have vw: "world_ok ep opn l T ?v" "grows w ?v" "next_id ?v = next_id w" by (simp_all add: step_ok_def)
  have "\<forall>(ev, c) \<in> set evs. chans ?v c \<noteq> None" using Cons.prems(2) by auto
  from Cons.IH [OF vw(1) this, of "active @ [c]"] obtain w' where
    w': "fillActiveChannels evs (active @ [c]) ?v = Inr ((active @ [c]) @ map snd evs, w')"
      "step_ok ep opn l T ?v (Inr w')" "pollers w' = pollers ?v" by blast
  from step_ok_from [OF w'(2) vw(2,3)] w' e ch show ?case by simp
qed

lemma wait_channels:
  assumes os: "server_kernel os ep opn" and w: "world_ok ep opn l T w" and p: "pollers w l' = Some p"
    and r: "sys_epoll_wait os (epollfd p) n t (kern w) = (Inr evs, k)"
  shows "distinct (map snd evs)" "\<forall>(ev, c) \<in> set evs. \<exists>ch. chans w c = Some ch \<and> chLoop ch = l' \<and> index ch \<noteq> KNew"
proof -
  from server_kernelD(3) [OF os] r obtain fs where
    fs: "distinct fs" "list_all2 (\<lambda>f (ev, c). \<exists>m. ep (kern w) (epollfd p) f = Some (m, c)) fs evs"
    unfolding wait_contract_def by blast
  have one: "\<exists>ch. chans w c = Some ch \<and> chFd ch = f \<and> chLoop ch = l' \<and> index ch \<noteq> KNew" if "ep (kern w) (epollfd p) f = Some (m, c)" for f m c
  proof -
    have "expected_interest p (chans w) f = Some (m, c)" using that kernel_view [OF ok_sync [OF w] p] by simp
    then have "channels p f = Some c" by (auto simp: expected_interest_def split: option.splits if_splits)
    with syncD(1) [OF ok_sync [OF w] p] show ?thesis unfolding poller_ok_def by blast
  qed
  have "list_all2 (\<lambda>f c. \<exists>ch. chans w c = Some ch \<and> chFd ch = f \<and> chLoop ch = l' \<and> index ch \<noteq> KNew) fs (map snd evs)"
    unfolding list.rel_map by (rule list_all2_mono [OF fs(2)]) (use one in auto)
  then have nth: "length fs = length (map snd evs)"
    "\<And>i. i < length fs \<Longrightarrow> \<exists>ch. chans w (map snd evs ! i) = Some ch \<and> chFd ch = fs ! i \<and> chLoop ch = l' \<and> index ch \<noteq> KNew"
    by (simp_all only: list_all2_conv_all_nth)
  show "distinct (map snd evs)"
    unfolding distinct_conv_nth
  proof (intro allI impI)
    fix i j assume ij: "i < length (map snd evs)" "j < length (map snd evs)" "i \<noteq> j"
    with fs(1) nth(1) have "fs ! i \<noteq> fs ! j" by (simp add: nth_eq_iff_index_eq)
    moreover from nth ij obtain ch ch' where
      "chans w (map snd evs ! i) = Some ch" "chFd ch = fs ! i" "chans w (map snd evs ! j) = Some ch'" "chFd ch' = fs ! j"
      by metis
    ultimately show "map snd evs ! i \<noteq> map snd evs ! j" by auto
  qed
  have "\<forall>c \<in> set (map snd evs). \<exists>ch. chans w c = Some ch \<and> chLoop ch = l' \<and> index ch \<noteq> KNew"
    unfolding all_set_conv_all_nth using nth by metis
  then show "\<forall>(ev, c) \<in> set evs. \<exists>ch. chans w c = Some ch \<and> chLoop ch = l' \<and> index ch \<noteq> KNew" by auto
qed

text \<open>A loop that runs no batch polls only channels whose connections are established and held.\<close>

lemma monitored_engaged:
  assumes w: "world_ok ep opn l T w" and idle: "\<And>f. (m, f) \<notin> T"
    and c: "chans w c = Some ch" "chLoop ch = m" "index ch \<noteq> KNew"
  shows "engaged m w c"
proof -
  have "held m w i \<and> mine m w i" if i: "conns w i = Some co" "cChan co = c" for i co
  proof -
    have "chLoop ch = cLoop co" "cState co \<noteq> Connecting"
      using conns_okD(3) [OF world_okD(2) [OF w] i(1)] i(2) c by auto
    with ok_life(2) [OF w i(1)] idle c i show ?thesis by (auto simp: mine_def held_def)
  qed
  with c show ?thesis by (simp add: engaged_def)
qed

lemma poll_step:
  fixes w :: "('k, 'z) server_world_scheme"
  assumes os: "server_kernel os ep opn" and w: "world_ok ep opn l T w" and idle: "\<And>f. (l, f) \<notin> T"
  shows "\<exists>now active w'. poll os l t [] w = Inr (now, active, w') \<and> step_ok ep opn l T w (Inr w') \<and>
    distinct active \<and> (\<forall>c \<in> set active. engaged l w' c)"
proof -
  obtain p where p: "pollers w l = Some p" using ok_poller [OF w] .
  obtain r k where r: "sys_epoll_wait os (epollfd p) (evcap p) t (kern w) = (r, k)" by fastforce
  obtain now k' where k': "sys_now os k = (now, k')" by fastforce
  have q: "ep k' = ep (kern w)" "opn k' = opn (kern w)"
    using server_kernel_quiet(1,2) [OF os, of "epollfd p" "evcap p" t "kern w"] server_kernel_quiet(3,4) [OF os, of k] r k'
    by simp_all
  let ?v = "w\<lparr>kern := k'\<rparr>"
  note v = step_kern [OF w q] and vw = ok_kern [OF w q]
  show ?thesis
  proof (cases "r = Inr [] \<or> (\<exists>e. r = Inl e)")
    case True
    then have "poll os l t [] w = Inr (now, [], ?v)" using p r k' by (auto simp: poll_def)
    with v show ?thesis by auto
  next
    case False
    then obtain evs where evs: "r = Inr evs" "evs \<noteq> []" by (cases r) auto
    note ch = wait_channels [OF os w p r [unfolded evs(1)]]
    have "\<forall>(ev, c) \<in> set evs. chans ?v c \<noteq> None" using ch(2) by fastforce
    from fillActive_step [OF vw this, of "[]"] obtain u where
      u: "fillActiveChannels evs [] ?v = Inr (map snd evs, u)" "step_ok ep opn l T ?v (Inr u)" "pollers u = pollers ?v"
      by auto
    have uw: "world_ok ep opn l T u" using u(2) by (simp add: step_ok_def)
    have wu: "step_ok ep opn l T w (Inr u)"
      by (rule step_ok_from [OF u(2)]) (use v in \<open>simp_all add: step_ok_def\<close>)
    have pu: "pollers u l = Some p" using u(3) p by simp
    let ?x = "if length evs = evcap p then put_poller l (p\<lparr>evcap := evcap p * 2\<rparr>) u else u"
    have x: "step_ok ep opn l T u (Inr ?x)"
    proof (rule step_twins [OF _ uw])
      show "twins u ?x" using pu by (auto simp: twins_def option.rel_refl)
      have "poller_sync ep (put_poller l (p\<lparr>evcap := evcap p * 2\<rparr>) u)"
        using ok_sync [OF uw] pu
        by (fastforce simp: poller_sync_def poller_ok_def channel_ok_def expected_interest_def fun_eq_iff split: if_splits)
      then show "poller_sync ep ?x" using ok_sync [OF uw] by simp
      show "buffer_inv (inputBuffer y) \<and> buffer_inv (outputBuffer y)" if "conns ?x j = Some y" for j y
        using that ok_bufs [OF uw, of j] by (simp split: if_splits)
      show "dormant ?x j" if "dormant u j" for j using that by (simp add: dormant_def)
      show "leaving u j \<or> (cLoop co, ConnectDestroyed j) \<in> T \<or> (\<exists>ch. chans ?x (cChan co) = Some ch \<and> index ch = KNew)"
        if "conns u j = Some co" "\<not> attached u j" for j co
        using ok_life(2) [OF uw that] by simp
      show "index y = KNew" if "conns ?x j = Some co" "cState co = Connecting" "chans ?x (cChan co) = Some y" for j co y
        using that ok_new [OF uw, of j co y] by (simp split: if_splits)
    qed (simp_all add: waiting_def)
    have wx: "step_ok ep opn l T w (Inr ?x)"
      by (rule step_ok_from [OF x]) (use wu in \<open>simp_all add: step_ok_def\<close>)
    have "poll os l t [] w = Inr (now, map snd evs, ?x)" using p r k' evs u(1) by (simp add: poll_def)
    moreover have "\<forall>c \<in> set (map snd evs). engaged l ?x c"
    proof
      fix c assume "c \<in> set (map snd evs)"
      then obtain x where "chans w c = Some x" "chLoop x = l" "index x \<noteq> KNew" using ch(2) by fastforce
      then have "engaged l w c" by (rule monitored_engaged [OF w idle])
      with wx show "engaged l ?x c" using engaged_grows unfolding step_ok_def defined_simps by blast
    qed
    ultimately show ?thesis using wx ch(1) by blast
  qed
qed

end
