(* ===== verification/SafetyBatch.thy ===== *)
theory SafetyBatch
  imports SafetyTurn
begin

unbundle bit_operations_syntax

text \<open>
  The batch of functors against the global invariant: the queue is swapped out, each of its functors is run
  once, and the connections that were only captured by it can be freed.
\<close>

definition user_keeps :: "'k interest \<Rightarrow> ('k \<Rightarrow> fd set) \<Rightarrow> lid \<Rightarrow>
    (nat \<Rightarrow> ('k, 'z) server_world_scheme \<Rightarrow> ('k, 'z) server_world_scheme result) \<Rightarrow> bool" where
  "user_keeps ep opn l user \<longleftrightarrow> (\<forall>T w n. world_ok ep opn l T w \<longrightarrow> step_ok ep opn l T w (user n w))"

text \<open>Running a functor takes it out of the set of those that are taken.\<close>

definition drops :: "taken \<Rightarrow> lid \<Rightarrow> functor_cb \<Rightarrow> taken \<Rightarrow> bool" where
  "drops T l f U \<longleftrightarrow> (l, f) \<in> T \<and> U \<subseteq> T \<and> T \<subseteq> insert (l, f) U \<and> (establishes f \<longrightarrow> (l, f) \<notin> U)"

lemma ok_drop:
  assumes w: "world_ok ep opn l T w" and d: "drops T l f U" and f: "\<And>i. f \<noteq> ConnectDestroyed i"
  shows "world_ok ep opn l U w"
  by (rule ok_shrink [OF w]) (use d f in \<open>auto simp: drops_def\<close>)

lemma drop_not_establishing:
  assumes w: "world_ok ep opn l T w" and d: "drops T l (ConnectEstablished i) U"
  shows "\<not> establishing U w i"
proof
  let ?f = "ConnectEstablished i"
  note lo = loops_okD [OF world_okD(4) [OF w]]
  have one: "m = l" if "runnable m w ?f" for m
    using that lo(6) [of l ?f] d by (auto simp: drops_def waiting_def)
  assume "establishing U w i"
  then show False
    unfolding establishing_def
  proof (elim disjE exE conjE)
    fix m assume m: "(m, ?f) \<in> U"
    with d have "(m, ?f) \<in> T" by (auto simp: drops_def)
    with one lo(6) have "m = l" by blast
    with m d show False by (simp add: drops_def)
  next
    fix m lp assume m: "loops w m = Some lp" "?f \<in> set (pendingFunctors lp)"
    with lo(3) have "runnable m w ?f" by (simp only: functor_ok_def)
    with one have "m = l" by blast
    with m lo(4) [of m lp ?f] d show False by (simp add: drops_def)
  qed
qed

lemma run_functor_step:
  fixes w :: "('k, 'z) server_world_scheme"
  assumes os: "server_kernel os ep opn" and app: "app_keeps ep opn l app" and user: "user_keeps ep opn l user"
    and w: "world_ok ep opn l T w" and d: "drops T l f U"
  shows "step_ok ep opn l U w (run_functor os app user f w)"
proof -
  note sapp = app_keeps_server [OF app, of os]
  have r: "runnable l w f" by (rule loops_okD(6) [OF world_okD(4) [OF w]]) (use d in \<open>simp add: drops_def\<close>)
  note u = ok_drop [OF w d]
  show ?thesis
  proof (cases f)
    case (WriteComplete i)
    with r obtain co where co: "conns w i = Some co" by (auto simp: mine_def)
    with app_keepsD(3) [OF sapp u] step_ok_Inr [OF u] WriteComplete r show ?thesis
      by (auto simp: run_functor_def run_conn_functor_def split: option.splits)
  next
    case (HighWaterMark i n)
    with r obtain co where co: "conns w i = Some co" by (auto simp: mine_def)
    with app_keepsD(4) [OF sapp u] step_ok_Inr [OF u] HighWaterMark r show ?thesis
      by (auto simp: run_functor_def run_conn_functor_def split: option.splits)
  next
    case (ConnectDestroyed i)
    have "step_ok ep opn l U w (connectDestroyed os (server_app os app) i w)"
      by (rule connectDestroyed_step [OF os sapp w]) (use r d ConnectDestroyed in \<open>auto simp: drops_def\<close>)
    with ConnectDestroyed show ?thesis by (simp add: run_functor_def run_conn_functor_def)
  next
    case (ConnectEstablished i)
    have "step_ok ep opn l U w (connectEstablished os (server_app os app) i w)"
    proof (rule connectEstablished_step [OF os sapp])
      show "world_ok ep opn l U w" by (rule u) (simp add: ConnectEstablished)
      show "waiting l w i" using r ConnectEstablished by simp
      show "\<not> establishing U w i" by (rule drop_not_establishing [OF w d [unfolded ConnectEstablished]])
    qed
    with ConnectEstablished show ?thesis by (simp add: run_functor_def run_conn_functor_def)
  next
    case (RemoveConnectionInLoop i)
    have "step_ok ep opn l U w (removeConnectionInLoop os i w)"
      by (rule removeConnectionInLoop_step [OF os u]) (use r RemoveConnectionInLoop in simp_all)
    with RemoveConnectionInLoop show ?thesis by (simp add: run_functor_def run_conn_functor_def)
  next
    case AcceptorListen
    have "step_ok ep opn l U w (acceptor_listen os w)"
      by (rule acceptor_listen_step [OF os u]) (simp add: AcceptorListen)
    with AcceptorListen show ?thesis by (simp add: run_functor_def run_conn_functor_def)
  next
    case (UserFunctor n)
    have "world_ok ep opn l U w" by (rule u) (simp add: UserFunctor)
    with user UserFunctor show ?thesis by (simp add: run_functor_def run_conn_functor_def user_keeps_def)
  qed (use r in simp_all)
qed

text \<open>Taking the queue of a loop that has no batch.\<close>

definition swapped :: "lid \<Rightarrow> event_loop \<Rightarrow> ('k, 'z) server_world_scheme \<Rightarrow> ('k, 'z) server_world_scheme" where
  "swapped l lp w = put_loop l (lp\<lparr>callingPendingFunctors := True, pendingFunctors := []\<rparr>) w"

lemma swapped_fields [simp]:
  "conns (swapped l lp w) = conns w" "chans (swapped l lp w) = chans w" "pollers (swapped l lp w) = pollers w"
  "theServer (swapped l lp w) = theServer w" "theAcceptor (swapped l lp w) = theAcceptor w"
  "loops (swapped l lp w) = (loops w)(l \<mapsto> lp\<lparr>callingPendingFunctors := True, pendingFunctors := []\<rparr>)"
  "curThread (swapped l lp w) = curThread w" "kern (swapped l lp w) = kern w"
  by (simp_all add: swapped_def)

lemma leaving_mine:
  assumes "world_ok ep opn l T w" "loops w m = Some lp" "ConnectDestroyed i \<in> set (pendingFunctors lp)"
  shows "mine m w i"
  using loops_okD(3) [OF world_okD(4) [OF assms(1)] assms(2,3)] by (simp add: functor_ok_def)

lemma swapped_leaving:
  assumes w: "world_ok ep opn l T w" and lp: "loops w l = Some lp" and i: "leaving w i"
  shows "leaving (swapped l lp w) i \<or> mine l w i \<and> ConnectDestroyed i \<in> set (pendingFunctors lp)"
proof -
  from i obtain m lm where m: "loops w m = Some lm" "ConnectDestroyed i \<in> set (pendingFunctors lm)"
    by (auto simp: leaving_def)
  from m lp leaving_mine [OF w m] show ?thesis
    by (cases "m = l") (auto simp: leaving_def)
qed

lemma swapped_held:
  assumes w: "world_ok ep opn l T w" and lp: "loops w l = Some lp" and h: "held m w i"
  shows "held m (swapped l lp w) i \<or> m = l \<and> ConnectDestroyed i \<in> set (pendingFunctors lp)"
proof -
  have att: "attached (swapped l lp w) i = attached w i" by (rule attached_cong) simp
  from h obtain co where co: "conns w i = Some co" "cLoop co = m" "attached w i \<or> leaving w i" by (auto simp: held_def)
  with swapped_leaving [OF w lp, of i] show ?thesis by (auto simp: held_def att mine_def)
qed

lemma ok_swap:
  assumes w: "world_ok ep opn l T w" and lp: "loops w l = Some lp" and idle: "\<And>f. (l, f) \<notin> T"
  shows "world_ok ep opn l (T \<union> Pair l ` set (pendingFunctors lp)) (swapped l lp w)" (is "world_ok _ _ _ ?U ?v")
proof -
  note lo = loops_okD [OF world_okD(4) [OF w]]
  have att: "attached ?v i = attached w i" for i by (rule attached_cong) simp
  have dorm: "dormant ?v i = dormant w i" for i by (rule dormant_cong) simp_all
  have run: "runnable m ?v f = runnable m w f" for m f by (rule runnable_cong) simp_all
  have "life_ok ?U ?v"
    unfolding life_ok_def att dorm
  proof (intro allI impI)
    fix i co assume i: "conns ?v i = Some co" "\<not> attached w i"
    from i(1) have co: "conns w i = Some co" by simp
    show "dormant w i \<and> (leaving ?v i \<or> (cLoop co, ConnectDestroyed i) \<in> ?U \<or> (\<exists>ch. chans ?v (cChan co) = Some ch \<and> index ch = KNew))"
      using ok_life [OF w co i(2)] swapped_leaving [OF w lp, of i] co by (auto simp: mine_def)
  qed
  moreover have "loops_ok ?U ?v"
    unfolding loops_ok_def run
  proof (intro conjI allI impI)
    show "pollers ?v m = None \<longleftrightarrow> loops ?v m = None" for m using lo(1) [of m] lp by simp
    have old: "\<exists>x. loops w m = Some x \<and> threadId x = threadId lm" if "loops ?v m = Some lm" for m lm
      using that lp by (auto split: if_splits)
    show "m = m'" if m: "loops ?v m = Some lm" "loops ?v m' = Some lm'" "threadId lm = threadId lm'" for m m' lm lm'
      using old [OF m(1)] old [OF m(2)] m(3) lo(2) by metis
    fix m lm f assume m: "loops ?v m = Some lm" "f \<in> set (pendingFunctors lm)"
    then have p: "m \<noteq> l" "loops w m = Some lm" by (auto split: if_splits)
    from lo(3) [OF p(2) m(2)] have f: "runnable m w f" "\<And>i. bare f = Some i \<Longrightarrow> held m w i" by (simp_all add: functor_ok_def)
    then show "functor_ok m ?v f"
      using swapped_held [OF w lp] p(1) by (auto simp: functor_ok_def run)
    show "(m, f) \<notin> ?U" if "establishes f" using lo(4) [OF p(2) m(2) that] p(1) by auto
  next
    show "distinct (filter establishes (pendingFunctors lm))" if "loops ?v m = Some lm" for m lm
      using that lo(5) [of m lm] by (auto split: if_splits)
    show "runnable m w f" if "(m, f) \<in> ?U" for m f
      using that lo(6) [of m f] lo(3) [OF lp, of f] by (auto simp: functor_ok_def)
  qed
  moreover have "in_thread l ?v" using world_okD(6) [OF w] lp by (simp add: in_thread_def)
  ultimately show ?thesis
    using world_okD(1-3) [OF w] chans_ok_cong [of ?v w ep opn] conns_ok_cong [of ?v w] server_ok_cong [of ?v w]
    by (simp add: world_ok_def)
qed

subsection \<open>Owned connections\<close>

text \<open>A step that takes nothing away leaves every connection owned; \<open>P\<close> are those a batch captures.\<close>

lemma owned_grows:
  assumes g: "grows w w'" and own: "\<And>i. conns w i \<noteq> None \<Longrightarrow> attached w i \<or> queued w i \<or> P i" and i: "conns w' i \<noteq> None"
  shows "attached w' i \<or> queued w' i \<or> P i"
proof -
  have h: "attached w' i \<or> queued w' i" if "held l w' i" for l
    using that leaving_queued by (auto simp: held_def)
  from i obtain co' where co': "conns w' i = Some co'" by blast
  from growsD(5) [OF g co'] consider "held (cLoop co') w' i" | co where "conns w i = Some co" by blast
  then show ?thesis
  proof cases
    case 1
    with h show ?thesis by blast
  next
    case (2 co)
    with own consider "attached w i" | "queued w i" | "P i" by auto
    then show ?thesis
    proof cases
      case 1
      with 2 have "held (cLoop co) w i" by (simp add: held_def)
      from h [OF growsD(1) [OF g this]] show ?thesis by blast
    next
      case 2
      then obtain l lp f where l: "loops w l = Some lp" "f \<in> set (pendingFunctors lp)" "captured f = Some i"
        by (auto simp: queued_def)
      from same_loopsD(2) [OF growsD(7) [OF g] l(1)] l(2,3) show ?thesis unfolding queued_def by blast
    qed simp
  qed
qed

end
