(* ===== verification/MultiLoop.thy ===== *)
theory MultiLoop
  imports SafetyBatch
begin

unbundle bit_operations_syntax

text \<open>
  The whole process: a server with any number of loops, each in a thread of its own, interleaved in any order. A
  step is what one loop does here without a step of another in between: it polls, handles the events of one channel, swaps
  its queue out, runs one functor, or gives up one reference of the batch it has run. A schedule is the list of the
  loops that take the steps. The parts of a turn are those of \<open>live_turn\<close>.
\<close>

subsection \<open>The system\<close>

text \<open>Where a loop is in its turn, with what its thread has on the stack.\<close>

datatype activity =
    Idle                                              \<comment> \<open>before \<open>poll\<close>\<close>
  | Dispatching timestamp "cid list"                  \<comment> \<open>the active channels still to be handled\<close>
  | Running "functor_cb list" "functor_cb list"       \<comment> \<open>the functors to run and those that have run\<close>
  | Releasing "functor_cb list"                       \<comment> \<open>the vector of functors is being destroyed\<close>

type_synonym activities = "lid \<Rightarrow> activity"

fun batch_of :: "activity \<Rightarrow> functor_cb list" where
  "batch_of (Running todo past) = todo @ past"
| "batch_of (Releasing fs) = fs"
| "batch_of a = []"

fun todo_of :: "activity \<Rightarrow> functor_cb list" where
  "todo_of (Running todo past) = todo"
| "todo_of a = []"

text \<open>A share of the connection is held by the map, a queue, or a batch.\<close>

definition shared :: "lid list \<Rightarrow> activities \<Rightarrow> conn \<Rightarrow> ('k, 'z) server_world_scheme \<Rightarrow> bool" where
  "shared ls acts i w \<longleftrightarrow> referenced ls i w \<or> list_ex (\<lambda>l. Some i \<in> captured ` set (batch_of (acts l))) ls"

text \<open>\<open>acts\<close> no longer has the functor.\<close>

definition release :: "'k os \<Rightarrow> lid list \<Rightarrow> activities \<Rightarrow> functor_cb \<Rightarrow> ('k, 'z) server_world_scheme \<Rightarrow>
    ('k, 'z) server_world_scheme result" where
  "release os ls acts f w =
     (case captured f of
        None \<Rightarrow> Inr w
      | Some i \<Rightarrow> if conns w i = None \<or> shared ls acts i w then Inr w else destroy_connection os i w)"

definition sys_step :: "'k os \<Rightarrow> ('k, 'z) server_world_scheme app \<Rightarrow> (('k, 'z) server_world_scheme \<Rightarrow> conn \<times> cid) \<Rightarrow>
    (nat \<Rightarrow> ('k, 'z) server_world_scheme \<Rightarrow> ('k, 'z) server_world_scheme result) \<Rightarrow> lid list \<Rightarrow> lid \<Rightarrow>
    ('k, 'z) server_world_scheme \<times> activities \<Rightarrow> (('k, 'z) server_world_scheme \<times> activities) result" where
  "sys_step os app fresh user ls l = (\<lambda>(w, acts).
     with_loop l w (\<lambda>lp.
       let w = w\<lparr>curThread := threadId lp\<rparr> in
       case acts l of
         Idle \<Rightarrow>
           andThen (poll os l kPollTimeMs [] w) (\<lambda>(now, active, w).
           andThen (modify_loop l (\<lambda>lp. lp\<lparr>activeChannels := active, pollReturnTime := now\<rparr>) w) (\<lambda>w.
             Inr (w, acts(l := Dispatching now active))))
       | Dispatching now (c # cs) \<Rightarrow>
           andThen (handleEvent (\<lambda>i w. conns w i \<noteq> None) (run_callback os app fresh) now c w) (\<lambda>w.
             Inr (w, acts(l := Dispatching now cs)))
       | Dispatching now [] \<Rightarrow>
           Inr (put_loop l (lp\<lparr>callingPendingFunctors := True, pendingFunctors := []\<rparr>) w,
             acts(l := Running (pendingFunctors lp) []))
       | Running (f # fs) past \<Rightarrow>
           andThen (run_functor os app user f w) (\<lambda>w. Inr (w, acts(l := Running fs (past @ [f]))))
       | Running [] past \<Rightarrow>
           andThen (modify_loop l (\<lambda>lp. lp\<lparr>callingPendingFunctors := False\<rparr>) w) (\<lambda>w.
             Inr (w, acts(l := Releasing past)))
       | Releasing (f # fs) \<Rightarrow>
           andThen (release os ls (acts(l := Releasing fs)) f w) (\<lambda>w. Inr (w, acts(l := Releasing fs)))
       | Releasing [] \<Rightarrow> Inr (w, acts(l := Idle))))"

definition sys_run :: "'k os \<Rightarrow> ('k, 'z) server_world_scheme app \<Rightarrow> (('k, 'z) server_world_scheme \<Rightarrow> conn \<times> cid) \<Rightarrow>
    (nat \<Rightarrow> ('k, 'z) server_world_scheme \<Rightarrow> ('k, 'z) server_world_scheme result) \<Rightarrow> lid list \<Rightarrow> lid list \<Rightarrow>
    ('k, 'z) server_world_scheme \<times> activities \<Rightarrow> (('k, 'z) server_world_scheme \<times> activities) result" where
  "sys_run os app fresh user ls = each (sys_step os app fresh user ls)"

subsection \<open>The invariant of the system\<close>

definition todos :: "activities \<Rightarrow> taken" where
  "todos acts = {(l, f). f \<in> set (todo_of (acts l))}"

text \<open>What a loop's activity needs of the world: its channels are engaged, its functors can run.\<close>

definition act_ok :: "('k, 'z) server_world_scheme \<Rightarrow> lid \<Rightarrow> activity \<Rightarrow> bool" where
  "act_ok w l a = (case a of
       Dispatching t cs \<Rightarrow> \<forall>c \<in> set cs. engaged l w c
     | Running todo past \<Rightarrow> distinct (filter establishes todo) \<and>
         (\<forall>f \<in> set todo. \<forall>i. bare f = Some i \<longrightarrow> held l w i \<or> ConnectDestroyed i \<in> set (todo @ past))
     | _ \<Rightarrow> True)"

definition batched :: "activities \<Rightarrow> conn \<Rightarrow> bool" where
  "batched acts i \<longleftrightarrow> (\<exists>l. Some i \<in> captured ` set (batch_of (acts l)))"

text \<open>Every live connection has an owner.\<close>

definition all_owned :: "activities \<Rightarrow> ('k, 'z) server_world_scheme \<Rightarrow> bool" where
  "all_owned acts w \<longleftrightarrow> (\<forall>i. conns w i \<noteq> None \<longrightarrow> attached w i \<or> queued w i \<or> batched acts i)"

text \<open>The loop whose thread accepts: it is the server's.\<close>

definition accepts :: "lid \<Rightarrow> ('k, 'z) server_world_scheme \<Rightarrow> bool" where
  "accepts b w \<longleftrightarrow> (\<exists>c ch. acceptor_chan w = Some c \<and> chans w c = Some ch \<and> chLoop ch = b)"

lemma accepts_base:
  assumes "world_ok ep opn l T w"
  shows "accepts b w \<longleftrightarrow> base_loop b w"
proof -
  from world_okD(3) [OF assms] obtain s a where s: "theServer w = Some s" "theAcceptor w = Some a" "serves w s a"
    by (auto simp: server_ok_def)
  with servesD(1) [OF s(3)] show ?thesis by (auto simp: accepts_def base_loop_def acceptor_chan_def)
qed

lemma accepts_grows: "accepts b w \<Longrightarrow> grows w w' \<Longrightarrow> accepts b w'"
  unfolding accepts_def using growsD(4,6) by fastforce

text \<open>\<open>ls\<close> are the loops of the process, \<open>b\<close> is the server's.\<close>

definition sys_ok :: "'k interest \<Rightarrow> ('k \<Rightarrow> fd set) \<Rightarrow> lid list \<Rightarrow> lid \<Rightarrow> ('k, 'z) server_world_scheme \<times> activities \<Rightarrow> bool" where
  "sys_ok ep opn ls b = (\<lambda>(w, acts). (\<exists>l. world_ok ep opn l (todos acts) w) \<and> (\<forall>l. act_ok w l (acts l)) \<and> all_owned acts w \<and>
     (\<forall>l. loops w l \<noteq> None \<longleftrightarrow> l \<in> set ls) \<and> (\<forall>l. acts l \<noteq> Idle \<longrightarrow> l \<in> set ls) \<and> accepts b w)"

lemma sys_okD:
  assumes "sys_ok ep opn ls b (w, acts)"
  shows "\<exists>l. world_ok ep opn l (todos acts) w" "act_ok w l (acts l)" "all_owned acts w"
    "loops w l \<noteq> None \<longleftrightarrow> l \<in> set ls" "acts l \<noteq> Idle \<Longrightarrow> l \<in> set ls" "accepts b w"
  using assms by (auto simp: sys_ok_def)

lemma sys_okI:
  assumes "world_ok ep opn l (todos acts) w" "\<And>m. act_ok w m (acts m)" "all_owned acts w"
    "\<And>m. loops w m \<noteq> None \<longleftrightarrow> m \<in> set ls" "\<And>m. acts m \<noteq> Idle \<Longrightarrow> m \<in> set ls" "accepts b w"
  shows "sys_ok ep opn ls b (w, acts)"
  using assms by (auto simp: sys_ok_def)

lemma act_ok_simps [simp]:
  "act_ok w l Idle" "act_ok w l (Releasing fs)" "act_ok w l (Dispatching t cs) \<longleftrightarrow> (\<forall>c \<in> set cs. engaged l w c)"
  by (simp_all add: act_ok_def)

lemma act_ok_mono:
  assumes "act_ok w l a" "\<And>c. engaged l w c \<Longrightarrow> engaged l w' c" "\<And>i. held l w i \<Longrightarrow> held l w' i"
  shows "act_ok w' l a"
proof (cases a)
  case (Running todo past)
  with assms(1,3) show ?thesis by (simp add: act_ok_def) blast
qed (use assms(1,2) in \<open>simp_all\<close>)

lemma act_ok_grows: "act_ok w l a \<Longrightarrow> grows w w' \<Longrightarrow> act_ok w' l a"
  by (erule act_ok_mono) (auto intro: engaged_grows growsD(1))

lemma all_owned_grows: "all_owned acts w \<Longrightarrow> grows w w' \<Longrightarrow> all_owned acts w'"
  using owned_grows [of w w' "batched acts"] unfolding all_owned_def by blast

lemma all_owned_more: "all_owned acts w \<Longrightarrow> (\<And>i. batched acts i \<Longrightarrow> batched acts' i) \<Longrightarrow> all_owned acts' w"
  unfolding all_owned_def by blast

lemma todos_upd:
  "todos (acts(l := a)) = {p \<in> todos acts. fst p \<noteq> l} \<union> Pair l ` set (todo_of a)"
  by (auto simp: todos_def split: if_splits)

lemma todos_idle: "todo_of (acts l) = [] \<Longrightarrow> (l, f) \<notin> todos acts"
  by (simp add: todos_def)

lemma todos_same: "todo_of a = todo_of (acts l) \<Longrightarrow> todos (acts(l := a)) = todos acts"
  by (auto simp: todos_def split: if_splits)

lemma batched_upd:
  assumes "batched acts i" "Some i \<in> captured ` set (batch_of (acts l)) \<Longrightarrow> Some i \<in> captured ` set (batch_of a)"
  shows "batched (acts(l := a)) i"
proof -
  from assms(1) obtain m where m: "Some i \<in> captured ` set (batch_of (acts m))" by (auto simp: batched_def)
  with assms(2) have "Some i \<in> captured ` set (batch_of ((acts(l := a)) m))" by (cases "m = l") simp_all
  then show ?thesis unfolding batched_def by blast
qed

text \<open>A step that takes nothing away, and leaves the loop in the activity \<open>a\<close>.\<close>

lemma sys_grow:
  assumes s: "sys_ok ep opn ls b (w, acts)" and l: "l \<in> set ls"
    and v: "world_ok ep opn l (todos (acts(l := a))) v" "grows w v" "act_ok v l a"
    and b: "set (batch_of a) \<supseteq> set (batch_of (acts l))"
  shows "sys_ok ep opn ls b (v, acts(l := a))"
proof (rule sys_okI [OF v(1)])
  show "act_ok v m ((acts(l := a)) m)" for m
    using v(3) act_ok_grows [OF sys_okD(2) [OF s] v(2)] by simp
  show "all_owned (acts(l := a)) v"
    by (rule all_owned_more [OF all_owned_grows [OF sys_okD(3) [OF s] v(2)]]) (use b batched_upd in blast)
  show "loops v m \<noteq> None \<longleftrightarrow> m \<in> set ls" for m
    using same_loopsD(1) [OF growsD(7) [OF v(2)], of m] sys_okD(4) [OF s, of m] by simp
  show "m \<in> set ls" if "(acts(l := a)) m \<noteq> Idle" for m
    using that l sys_okD(5) [OF s, of m] by (simp split: if_splits)
  show "accepts b v" by (rule accepts_grows [OF sys_okD(6) [OF s] v(2)])
qed

text \<open>The thread of another loop goes on.\<close>

lemma sys_switch:
  assumes s: "sys_ok ep opn ls b (w, acts)" and l: "loops w l = Some lp"
  shows "sys_ok ep opn ls b (w\<lparr>curThread := threadId lp\<rparr>, acts)" "world_ok ep opn l (todos acts) (w\<lparr>curThread := threadId lp\<rparr>)"
proof -
  let ?v = "w\<lparr>curThread := threadId lp\<rparr>"
  from sys_okD(1) [OF s] obtain m where "world_ok ep opn m (todos acts) w" by blast
  then show v: "world_ok ep opn l (todos acts) ?v" by (rule ok_switch [OF _ l])
  have g: "grows w ?v" by (rule grows_simple) (simp_all add: same_loops_eq)
  show "sys_ok ep opn ls b (?v, acts)"
    by (rule sys_okI [OF v])
      (use act_ok_grows [OF sys_okD(2) [OF s] g] all_owned_grows [OF sys_okD(3) [OF s] g] sys_okD(4,5) [OF s]
        accepts_grows [OF sys_okD(6) [OF s] g] in simp_all)
qed

subsection \<open>The steps\<close>

text \<open>What a step keeps: the invariant, and it uses at most one number of a connection.\<close>

definition sys_safe :: "'k interest \<Rightarrow> ('k \<Rightarrow> fd set) \<Rightarrow> lid list \<Rightarrow> lid \<Rightarrow> nat \<Rightarrow> ('k, 'z) server_world_scheme \<times> activities \<Rightarrow> bool" where
  "sys_safe ep opn ls b n = (\<lambda>(w, acts). sys_ok ep opn ls b (w, acts) \<and> next_id w \<le> n)"

lemma poll_sys:
  fixes w :: "('k, 'z) server_world_scheme"
  assumes os: "server_kernel os ep opn" and s: "sys_ok ep opn ls b (w, acts)" and w: "world_ok ep opn l (todos acts) w"
    and a: "acts l = Idle" and l: "l \<in> set ls"
  shows "defined (andThen (poll os l kPollTimeMs [] w) (\<lambda>(now, active, w).
      andThen (modify_loop l (\<lambda>lp. lp\<lparr>activeChannels := active, pollReturnTime := now\<rparr>) w) (\<lambda>w.
        Inr (w, acts(l := Dispatching now active))))) (sys_safe ep opn ls b (next_id w))"
proof -
  have "(l, f) \<notin> todos acts" for f by (rule todos_idle) (simp add: a)
  from poll_step [OF os w this] obtain now active u where u: "poll os l kPollTimeMs [] w = Inr (now, active, u)"
    "step_ok ep opn l (todos acts) w (Inr u)" "\<forall>c \<in> set active. engaged l u c" by blast
  have uw: "world_ok ep opn l (todos acts) u" "grows w u" "next_id u = next_id w" using u(2) by (simp_all add: step_ok_def)
  obtain lp where lp: "loops u l = Some lp" using ok_loop [OF uw(1)] .
  let ?v = "put_loop l (lp\<lparr>activeChannels := active, pollReturnTime := now\<rparr>) u"
  have "distinct (filter establishes (pendingFunctors lp))" by (rule loops_okD(5) [OF world_okD(4) [OF uw(1)] lp])
  then have "step_ok ep opn l (todos acts) u (Inr ?v)" by (intro step_put_loop [OF uw(1) lp]) simp_all
  then have v: "world_ok ep opn l (todos acts) ?v" "grows u ?v" "next_id ?v = next_id w"
    using uw by (auto simp: step_ok_def)
  have same: "todos (acts(l := Dispatching now active)) = todos acts" by (rule todos_same) (simp add: a)
  have "sys_ok ep opn ls b (?v, acts(l := Dispatching now active))"
  proof (rule sys_grow [OF s l])
    show "world_ok ep opn l (todos (acts(l := Dispatching now active))) ?v" unfolding same by (rule v(1))
    show "act_ok ?v l (Dispatching now active)" using u(3) engaged_grows [OF _ v(2)] by simp
  qed (use grows_trans [OF uw(2) v(2)] a in simp_all)
  with u(1) lp v(3) show ?thesis by (simp add: sys_safe_def)
qed

lemma handle_sys:
  fixes w :: "('k, 'z) server_world_scheme"
  assumes os: "server_kernel os ep opn" and app: "app_keeps ep opn l app" and fresh: "allocates fresh"
    and s: "sys_ok ep opn ls b (w, acts)" and w: "world_ok ep opn l (todos acts) w"
    and a: "acts l = Dispatching now (c # cs)" and n: "l = b \<Longrightarrow> next_id w + 1 < 2 ^ 32"
  shows "defined (andThen (handleEvent (\<lambda>i w. conns w i \<noteq> None) (run_callback os app fresh) now c w) (\<lambda>w.
      Inr (w, acts(l := Dispatching now cs)))) (sys_safe ep opn ls b (next_id w + of_bool (l = b)))"
proof -
  have e: "\<forall>d \<in> set (c # cs). engaged l w d" using sys_okD(2) [OF s, of l] a by simp
  have l: "l \<in> set ls" by (rule sys_okD(5) [OF s]) (simp add: a)
  have arr: "arrivals w c \<le> of_bool (l = b)"
    using e sys_okD(6) [OF s] by (auto simp: arrivals_def accepts_def engaged_def)
  have "unat (i :: uint32) < 2 ^ 32" for i using unsigned_less [of i] by simp
  then have "next_id w < 2 ^ 32" by (simp add: next_id_def split: option.splits)
  with arr n have "next_id w + arrivals w c < 2 ^ 32" by (cases "l = b") auto
  with e have h: "step_upto ep opn l (todos acts) (arrivals w c) w
      (handleEvent (\<lambda>i w. conns w i \<noteq> None) (run_callback os app fresh) now c w)"
    by (intro handleEvent_upto [OF os app fresh w]) simp_all
  have same: "todos (acts(l := Dispatching now cs)) = todos acts" by (rule todos_same) (simp add: a)
  show ?thesis
  proof (rule defined_andThen [OF h [unfolded step_upto_def]])
    fix v assume v: "world_ok ep opn l (todos acts) v \<and> grows w v \<and> next_id v \<le> next_id w + arrivals w c"
    have "sys_ok ep opn ls b (v, acts(l := Dispatching now cs))"
    proof (rule sys_grow [OF s l])
      show "world_ok ep opn l (todos (acts(l := Dispatching now cs))) v" unfolding same using v by blast
      show "act_ok v l (Dispatching now cs)" using e v by (auto intro: engaged_grows)
    qed (use v a in simp_all)
    with v show "defined (Inr (v, acts(l := Dispatching now cs))) (sys_safe ep opn ls b (next_id w + of_bool (l = b)))"
      using arr by (simp add: sys_safe_def)
  qed
qed

lemma run_sys:
  fixes w :: "('k, 'z) server_world_scheme"
  assumes os: "server_kernel os ep opn" and app: "app_keeps ep opn l app" and user: "user_keeps ep opn l user"
    and s: "sys_ok ep opn ls b (w, acts)" and w: "world_ok ep opn l (todos acts) w" and a: "acts l = Running (f # fs) past"
  shows "defined (andThen (run_functor os app user f w) (\<lambda>w. Inr (w, acts(l := Running fs (past @ [f])))))
    (sys_safe ep opn ls b (next_id w))"
proof -
  let ?acts = "acts(l := Running fs (past @ [f]))"
  have l: "l \<in> set ls" by (rule sys_okD(5) [OF s]) (simp add: a)
  from sys_okD(2) [OF s, of l] have act: "distinct (filter establishes (f # fs))"
    "\<And>g i. g \<in> set (f # fs) \<Longrightarrow> bare g = Some i \<Longrightarrow> held l w i \<or> ConnectDestroyed i \<in> set ((f # fs) @ past)"
    unfolding act_ok_def a by auto
  have d: "drops (todos acts) l f (todos ?acts)"
    using act(1) a by (auto simp: drops_def todos_def split: if_splits)
  show ?thesis
  proof (rule defined_andThen [OF run_functor_step [OF os app user w d, unfolded step_ok_def]])
    fix v assume v: "world_ok ep opn l (todos ?acts) v \<and> grows w v \<and> next_id v = next_id w"
    have "sys_ok ep opn ls b (v, ?acts)"
    proof (rule sys_grow [OF s l])
      have "held l v i \<or> ConnectDestroyed i \<in> set (fs @ past @ [f])" if "g \<in> set fs" "bare g = Some i" for g i
        using act(2) [of g i] that growsD(1) v by auto
      with act(1) show "act_ok v l (Running fs (past @ [f]))"
        by (auto simp: act_ok_def split: if_splits)
    qed (use v a in auto)
    with v show "defined (Inr (v, ?acts)) (sys_safe ep opn ls b (next_id w))" by (simp add: sys_safe_def)
  qed
qed

lemma flag_sys:
  fixes w :: "('k, 'z) server_world_scheme"
  assumes s: "sys_ok ep opn ls b (w, acts)" and w: "world_ok ep opn l (todos acts) w" and a: "acts l = Running [] past"
  shows "defined (andThen (modify_loop l (\<lambda>lp. lp\<lparr>callingPendingFunctors := False\<rparr>) w) (\<lambda>w.
      Inr (w, acts(l := Releasing past)))) (sys_safe ep opn ls b (next_id w))"
proof -
  have l: "l \<in> set ls" by (rule sys_okD(5) [OF s]) (simp add: a)
  obtain lp where lp: "loops w l = Some lp" using ok_loop [OF w] .
  let ?v = "put_loop l (lp\<lparr>callingPendingFunctors := False\<rparr>) w"
  have "distinct (filter establishes (pendingFunctors lp))" by (rule loops_okD(5) [OF world_okD(4) [OF w] lp])
  then have "step_ok ep opn l (todos acts) w (Inr ?v)" by (intro step_put_loop [OF w lp]) simp_all
  then have v: "world_ok ep opn l (todos acts) ?v" "grows w ?v" "next_id ?v = next_id w" by (simp_all add: step_ok_def)
  have same: "todos (acts(l := Releasing past)) = todos acts" by (rule todos_same) (simp add: a)
  have "sys_ok ep opn ls b (?v, acts(l := Releasing past))"
    by (rule sys_grow [OF s l]) (use v a same in simp_all)
  with lp v(3) show ?thesis by (simp add: sys_safe_def)
qed

text \<open>Swapping the queue out.\<close>

lemma swapped_engaged:
  assumes w: "world_ok ep opn l T w" and lp: "loops w l = Some lp" and m: "m \<noteq> l" and e: "engaged m w c"
  shows "engaged m (swapped l lp w) c"
proof -
  have "held m (swapped l lp w) i \<and> mine m (swapped l lp w) i" if i: "conns w i = Some co" "cChan co = c" for i co
    using swapped_held [OF w lp engagedD(2) [OF e i]] engagedD(3) [OF e i] m by (simp add: mine_def)
  with engagedD(1) [OF e] show ?thesis by (simp add: engaged_def)
qed

lemma swapped_queued:
  assumes "loops w l = Some lp" "queued w i"
  shows "queued (swapped l lp w) i \<or> Some i \<in> captured ` set (pendingFunctors lp)"
proof -
  from assms(2) obtain m lm f where m: "loops w m = Some lm" "f \<in> set (pendingFunctors lm)" "captured f = Some i"
    by (auto simp: queued_def)
  show ?thesis
  proof (cases "m = l")
    case True
    with m assms(1) show ?thesis by (metis image_eqI option.inject)
  next
    case False
    with m(1) have "loops (swapped l lp w) m = Some lm" by simp
    with m(2,3) show ?thesis unfolding queued_def by blast
  qed
qed

lemma swap_sys:
  fixes w :: "('k, 'z) server_world_scheme"
  assumes s: "sys_ok ep opn ls b (w, acts)" and w: "world_ok ep opn l (todos acts) w" and a: "acts l = Dispatching now []"
    and lp: "loops w l = Some lp"
  shows "sys_safe ep opn ls b (next_id w) (swapped l lp w, acts(l := Running (pendingFunctors lp) []))"
proof -
  let ?fs = "pendingFunctors lp" and ?v = "swapped l lp w"
  let ?acts = "acts(l := Running ?fs [])"
  have idle: "(l, f) \<notin> todos acts" for f by (rule todos_idle) (simp add: a)
  have td: "todos ?acts = todos acts \<union> Pair l ` set ?fs"
    using idle by (auto simp: todos_upd)
  have att: "attached ?v i = attached w i" for i by (rule attached_cong) simp
  have "sys_ok ep opn ls b (?v, ?acts)"
  proof (rule sys_okI)
    show "world_ok ep opn l (todos ?acts) ?v" unfolding td by (rule ok_swap [OF w lp idle])
    show "act_ok ?v m (?acts m)" for m
    proof (cases "m = l")
      case True
      have "held l ?v i \<or> ConnectDestroyed i \<in> set ?fs" if "f \<in> set ?fs" "bare f = Some i" for f i
        using loops_okD(3) [OF world_okD(4) [OF w] lp that(1)] that(2) swapped_held [OF w lp, of l i]
        by (simp add: functor_ok_def)
      with True loops_okD(5) [OF world_okD(4) [OF w] lp] show ?thesis by (simp add: act_ok_def)
    next
      case False
      have "act_ok ?v m (acts m)"
        by (rule act_ok_mono [OF sys_okD(2) [OF s]])
          (use swapped_engaged [OF w lp False] swapped_held [OF w lp] False in blast)+
      with False show ?thesis by simp
    qed
    show "all_owned ?acts ?v"
      unfolding all_owned_def
    proof (intro allI impI)
      fix i assume i: "conns ?v i \<noteq> None"
      have b: "batched ?acts i" if "batched acts i" by (rule batched_upd [OF that]) (simp add: a)
      have f: "batched ?acts i" if "Some i \<in> captured ` set ?fs"
        unfolding batched_def by (rule exI [of _ l]) (use that in simp)
      from i sys_okD(3) [OF s] have "attached w i \<or> queued w i \<or> batched acts i" by (simp add: all_owned_def)
      with b f swapped_queued [OF lp] show "attached ?v i \<or> queued ?v i \<or> batched ?acts i" unfolding att by blast
    qed
    show "loops ?v m \<noteq> None \<longleftrightarrow> m \<in> set ls" for m using lp sys_okD(4) [OF s, of m] by (cases "m = l") simp_all
    show "accepts b ?v" using sys_okD(6) [OF s] by (simp add: accepts_def acceptor_chan_def)
    show "m \<in> set ls" if "?acts m \<noteq> Idle" for m
      using that a sys_okD(5) [OF s, of m] by (cases "m = l") simp_all
  qed
  moreover have "next_id ?v = next_id w" by (rule next_id_cong) simp
  ultimately show ?thesis by (simp add: sys_safe_def)
qed

text \<open>Giving up a reference.\<close>

lemma shared_iff:
  assumes s: "sys_ok ep opn ls b (w, acts)" and sub: "\<And>m. set (batch_of (acts' m)) \<subseteq> set (batch_of (acts m))"
  shows "shared ls acts' i w \<longleftrightarrow> attached w i \<or> queued w i \<or> batched acts' i"
proof -
  have a: "(case theServer w of None \<Rightarrow> False | Some s \<Rightarrow> i \<in> snd ` set (connections s)) \<longleftrightarrow> attached w i"
    by (cases "theServer w") (force simp: attached_def)+
  have q: "list_ex (\<lambda>l. case loops w l of None \<Rightarrow> False | Some lp \<Rightarrow> Some i \<in> captured ` set (pendingFunctors lp)) ls \<longleftrightarrow> queued w i"
    (is "?L = _")
  proof
    assume ?L
    then obtain m lm f where "loops w m = Some lm" "f \<in> set (pendingFunctors lm)" "captured f = Some i"
      unfolding list_ex_iff by (auto split: option.splits)
    then show "queued w i" unfolding queued_def by blast
  next
    assume "queued w i"
    then obtain m lm f where m: "loops w m = Some lm" "f \<in> set (pendingFunctors lm)" "captured f = Some i"
      by (auto simp: queued_def)
    with sys_okD(4) [OF s, of m] show ?L
      unfolding list_ex_iff by (intro bexI [of _ m]) (force simp: image_iff)+
  qed
  have b: "list_ex (\<lambda>l. Some i \<in> captured ` set (batch_of (acts' l))) ls \<longleftrightarrow> batched acts' i" (is "?B = _")
  proof
    assume ?B
    then show "batched acts' i" unfolding list_ex_iff batched_def by blast
  next
    assume "batched acts' i"
    then obtain m where m: "Some i \<in> captured ` set (batch_of (acts' m))" unfolding batched_def by blast
    then have "set (batch_of (acts m)) \<noteq> {}" using sub [of m] by auto
    then have "acts m \<noteq> Idle" by auto
    with m sys_okD(5) [OF s, of m] show ?B unfolding list_ex_iff by blast
  qed
  show ?thesis unfolding shared_def referenced_def a q b by blast
qed

text \<open>A connection that nobody shares is not known to any loop.\<close>

lemma not_shared_unknown:
  assumes acts: "\<And>m. act_ok w m (acts m)" and i: "\<not> attached w i" "\<not> queued w i" "\<not> batched acts i"
  shows "unknown (todos acts) w i"
proof -
  have "captured f \<noteq> Some i \<and> bare f \<noteq> Some i" if f: "(m, f) \<in> todos acts" for m f
  proof -
    from f obtain todo past where r: "acts m = Running todo past" "f \<in> set todo"
      by (cases "acts m") (auto simp: todos_def)
    have b: "captured g \<noteq> Some i" if "g \<in> set (todo @ past)" for g
      using that i(3) r(1) unfolding batched_def by (metis batch_of.simps(1) imageI)
    moreover have "\<not> held m w i" using i(1,2) leaving_queued by (auto simp: held_def)
    moreover from acts [of m] r have "bare f = Some i \<Longrightarrow> held m w i \<or> ConnectDestroyed i \<in> set (todo @ past)"
      by (auto simp: act_ok_def)
    ultimately show ?thesis using r(2) by fastforce
  qed
  with i(1,2) show ?thesis by (simp add: unknown_def)
qed

lemma freed_engaged:
  assumes f: "freed i w v" and un: "\<not> held m w i" and e: "engaged m w c"
  shows "engaged m v c"
proof -
  from f obtain co where co: "conns w i = Some co" "conns v = (conns w)(i := None)" "chans v = (chans w)(cChan co := None)"
    by (auto simp: freed_def)
  have "cChan co \<noteq> c" using engagedD(2) [OF e co(1)] un by blast
  moreover have "held m v j \<and> mine m v j" if "conns v j = Some x" "cChan x = c" for j x
  proof -
    from that(1) co(2) have "j \<noteq> i" "conns w j = Some x" by (auto split: if_splits)
    with freed_same(3,4) [OF f] engagedD(2,3) [OF e _ that(2)] show ?thesis by blast
  qed
  ultimately show ?thesis using engagedD(1) [OF e] by (simp add: engaged_def co(3))
qed

lemma release_sys:
  fixes w :: "('k, 'z) server_world_scheme"
  assumes os: "server_kernel os ep opn" and s: "sys_ok ep opn ls b (w, acts)" and w: "world_ok ep opn l (todos acts) w"
    and a: "acts l = Releasing (f # fs)"
  shows "defined (andThen (release os ls (acts(l := Releasing fs)) f w) (\<lambda>w. Inr (w, acts(l := Releasing fs))))
    (sys_safe ep opn ls b (next_id w))"
proof -
  let ?acts = "acts(l := Releasing fs)"
  have l: "l \<in> set ls" by (rule sys_okD(5) [OF s]) (simp add: a)
  have same: "todos ?acts = todos acts" by (rule todos_same) (simp add: a)
  have sub: "set (batch_of (?acts m)) \<subseteq> set (batch_of (acts m))" for m using a by auto
  note sh = shared_iff [OF s, of ?acts, OF sub]
  have acts: "act_ok w m (?acts m)" for m using sys_okD(2) [OF s, of m] by simp
  have ls: "m \<in> set ls" if "?acts m \<noteq> Idle" for m using that l sys_okD(5) [OF s, of m] by (simp split: if_splits)
  have other: "batched ?acts j" if "batched acts j" "captured f \<noteq> Some j" for j
    by (rule batched_upd [OF that(1)]) (use that(2) a in auto)
  show ?thesis
  proof (cases "\<exists>i co. captured f = Some i \<and> conns w i = Some co \<and> \<not> shared ls ?acts i w")
    case False
    have "all_owned ?acts w"
      unfolding all_owned_def
    proof (intro allI impI)
      fix j assume j: "conns w j \<noteq> None"
      with sys_okD(3) [OF s] have "attached w j \<or> queued w j \<or> batched acts j" by (simp add: all_owned_def)
      with other [of j] sh [of j] False j show "attached w j \<or> queued w j \<or> batched ?acts j" by blast
    qed
    then have "sys_ok ep opn ls b (w, ?acts)"
      by (intro sys_okI [of ep opn l]) (use w same acts ls sys_okD(4,6) [OF s] in simp_all)
    moreover have "release os ls ?acts f w = Inr w"
      using False by (auto simp: release_def split: option.splits)
    ultimately show ?thesis by (simp add: sys_safe_def)
  next
    case True
    then obtain i co where i: "captured f = Some i" "conns w i = Some co" "\<not> shared ls ?acts i w" by blast
    have un: "unknown (todos ?acts) w i"
      by (rule not_shared_unknown) (use acts i(3) sh in blast)+
    have "release os ls ?acts f w = destroy_connection os i w" using i by (simp add: release_def)
    moreover have "defined (andThen (destroy_connection os i w) (\<lambda>w. Inr (w, ?acts))) (sys_safe ep opn ls b (next_id w))"
    proof (rule defined_andThen [OF ok_destroy [OF os w i(2) un [unfolded same]]])
      fix v assume v: "world_ok ep opn l (todos acts) v \<and> freed i w v"
      then have fr: "freed i w v" ..
      then have eq: "loops v = loops w" "conns v = (conns w)(i := None)" by (auto simp: freed_def)
      note nh = unknownD(6) [OF un]
      have "sys_ok ep opn ls b (v, ?acts)"
      proof (rule sys_okI)
        show "world_ok ep opn l (todos ?acts) v" using v same by simp
        show "act_ok v m (?acts m)" for m
        proof (rule act_ok_mono [OF acts])
          show "engaged m v c" if "engaged m w c" for c by (rule freed_engaged [OF fr nh that])
          show "held m v j" if "held m w j" for j using that nh freed_same(3) [OF fr, of j m] by (cases "j = i") auto
        qed
        show "all_owned ?acts v"
          unfolding all_owned_def
        proof (intro allI impI)
          fix j assume "conns v j \<noteq> None"
          then have j: "j \<noteq> i" "conns w j \<noteq> None" by (auto simp: eq(2) split: if_splits)
          with sys_okD(3) [OF s] have "attached w j \<or> queued w j \<or> batched acts j" by (simp add: all_owned_def)
          with other [of j] i(1) j(1) freed_same(1) [OF fr, of j] eq(1) show "attached v j \<or> queued v j \<or> batched ?acts j"
            by (auto simp: queued_def)
        qed
        show "loops v m \<noteq> None \<longleftrightarrow> m \<in> set ls" for m using sys_okD(4) [OF s, of m] by (simp add: eq(1))
        show "accepts b v"
          using sys_okD(6) [OF s] accepts_base [OF w] accepts_base [of ep opn l "todos acts" v] v freed_same(6) [OF fr, of b] by blast
      qed (rule ls)
      then show "defined (Inr (v, ?acts)) (sys_safe ep opn ls b (next_id w))"
        using freed_same(7) [OF fr] by (simp add: sys_safe_def)
    qed
    ultimately show ?thesis by simp
  qed
qed

lemma idle_sys:
  assumes s: "sys_ok ep opn ls b (w, acts)" and w: "world_ok ep opn l (todos acts) w" and a: "acts l = Releasing []"
  shows "sys_safe ep opn ls b (next_id w) (w, acts(l := Idle))"
proof -
  have "l \<in> set ls" by (rule sys_okD(5) [OF s]) (simp add: a)
  moreover have "todos (acts(l := Idle)) = todos acts" by (rule todos_same) (simp add: a)
  ultimately have "sys_ok ep opn ls b (w, acts(l := Idle))" by (intro sys_grow [OF s]) (use w a in simp_all)
  then show ?thesis by (simp add: sys_safe_def)
qed

lemma sys_step_safe:
  fixes w :: "('k, 'z) server_world_scheme"
  assumes os: "server_kernel os ep opn" and app: "\<And>l. app_keeps ep opn l app" and user: "\<And>l. user_keeps ep opn l user"
    and fresh: "allocates fresh" and s: "sys_ok ep opn ls b (w, acts)" and n: "l = b \<Longrightarrow> next_id w + 1 < 2 ^ 32" and l: "l \<in> set ls"
  shows "defined (sys_step os app fresh user ls l (w, acts)) (sys_safe ep opn ls b (next_id w + of_bool (l = b)))"
proof -
  from l sys_okD(4) [OF s, of l] obtain lp where lp: "loops w l = Some lp" by blast
  let ?v = "w\<lparr>curThread := threadId lp\<rparr>"
  note v = sys_switch [OF s lp]
  have id: "next_id ?v = next_id w" by (simp add: next_id_def)
  have more: "defined r (sys_safe ep opn ls b (next_id w + of_bool (l = b)))" if "defined r (sys_safe ep opn ls b (next_id ?v))"
    for r :: "(('k, 'z) server_world_scheme \<times> activities) result"
    using that by (rule defined_mono) (auto simp: sys_safe_def id)
  show ?thesis
  proof (cases "acts l")
    case Idle
    with more [OF poll_sys [OF os v Idle l]] lp show ?thesis by (simp add: sys_step_def Let_def)
  next
    case (Dispatching now cs)
    show ?thesis
    proof (cases cs)
      case Nil
      with swap_sys [OF v] Dispatching lp
      have "sys_safe ep opn ls b (next_id ?v) (swapped l lp ?v, acts(l := Running (pendingFunctors lp) []))" by simp
      then have "defined (Inr (swapped l lp ?v, acts(l := Running (pendingFunctors lp) []))) (sys_safe ep opn ls b (next_id ?v))" by simp
      from more [OF this] Nil Dispatching lp show ?thesis by (simp add: sys_step_def Let_def swapped_def)
    next
      case (Cons c cs')
      with handle_sys [OF os app fresh v, of now c cs'] Dispatching n id lp show ?thesis by (simp add: sys_step_def Let_def)
    qed
  next
    case (Running fs past)
    show ?thesis
    proof (cases fs)
      case Nil
      with more [OF flag_sys [OF v, of past]] Running lp show ?thesis by (simp add: sys_step_def Let_def)
    next
      case (Cons f fs')
      with more [OF run_sys [OF os app user v, of f fs' past]] Running lp show ?thesis by (simp add: sys_step_def Let_def)
    qed
  next
    case (Releasing fs)
    show ?thesis
    proof (cases fs)
      case Nil
      with idle_sys [OF v] Releasing have "sys_safe ep opn ls b (next_id ?v) (?v, acts(l := Idle))" by simp
      then have "defined (Inr (?v, acts(l := Idle))) (sys_safe ep opn ls b (next_id ?v))" by simp
      from more [OF this] Nil Releasing lp show ?thesis by (simp add: sys_step_def Let_def)
    next
      case (Cons f fs')
      with more [OF release_sys [OF os v, of f fs']] Releasing lp show ?thesis by (simp add: sys_step_def Let_def)
    qed
  qed
qed

text \<open>A schedule; only the server's loop uses up numbers of connections.\<close>

lemma sys_run_safe:
  fixes w :: "('k, 'z) server_world_scheme"
  assumes os: "server_kernel os ep opn" and app: "\<And>l. app_keeps ep opn l app" and user: "\<And>l. user_keeps ep opn l user"
    and fresh: "allocates fresh"
  shows "sys_ok ep opn ls b (w, acts) \<Longrightarrow> set sched \<subseteq> set ls \<Longrightarrow> next_id w + count_list sched b < 2 ^ 32 \<Longrightarrow>
    defined (sys_run os app fresh user ls sched (w, acts)) (sys_safe ep opn ls b (next_id w + count_list sched b))"
proof (induction sched arbitrary: w acts)
  case Nil
  then show ?case by (simp add: sys_run_def sys_safe_def)
next
  case (Cons l sched)
  have "defined (sys_step os app fresh user ls l (w, acts)) (sys_safe ep opn ls b (next_id w + of_bool (l = b)))"
    by (rule sys_step_safe [OF os app user fresh Cons.prems(1)]) (use Cons.prems(2,3) in auto)
  then have "defined (andThen (sys_step os app fresh user ls l (w, acts)) (sys_run os app fresh user ls sched))
    (sys_safe ep opn ls b (next_id w + count_list (l # sched) b))"
  proof (rule defined_andThen)
    fix x :: "('k, 'z) server_world_scheme \<times> activities"
    assume x: "sys_safe ep opn ls b (next_id w + of_bool (l = b)) x"
    obtain v a where v: "x = (v, a)" by (cases x)
    with x have ok: "sys_ok ep opn ls b (v, a)" "next_id v \<le> next_id w + of_bool (l = b)" by (simp_all add: sys_safe_def)
    have "defined (sys_run os app fresh user ls sched (v, a)) (sys_safe ep opn ls b (next_id v + count_list sched b))"
      by (rule Cons.IH [OF ok(1)]) (use Cons.prems(2,3) ok(2) in \<open>auto split: if_splits\<close>)
    then show "defined (sys_run os app fresh user ls sched x) (sys_safe ep opn ls b (next_id w + count_list (l # sched) b))"
      unfolding v by (rule defined_mono) (use ok(2) in \<open>auto simp: sys_safe_def split: if_splits\<close>)
  qed
  then show ?case by (simp add: sys_run_def)
qed

end
