(* ===== verification/MemorySafety.thy ===== *)
theory MemorySafety
  imports SafetyBatch
begin

unbundle bit_operations_syntax

text \<open>
  Memory safety of a server with one loop: no turn of the loop follows a null or dangling pointer, for every
  behaviour of the kernel and of the peers. The queue is run as a batch, and the connections it removed are
  freed at its end.
\<close>

subsection \<open>The batch\<close>

lemma run_functors_step:
  fixes w :: "('k, 'z) server_world_scheme"
  assumes os: "server_kernel os ep opn" and app: "app_keeps ep opn l app" and user: "user_keeps ep opn l user"
  shows "world_ok ep opn l (Pair l ` set fs) w \<Longrightarrow> distinct (filter establishes fs) \<Longrightarrow>
    step_ok ep opn l {} w (each (run_functor os app user) fs w)"
proof (induction fs arbitrary: w)
  case Nil
  then show ?case by (simp add: step_ok_Inr)
next
  case (Cons f fs)
  have d: "drops (Pair l ` set (f # fs)) l f (Pair l ` set fs)"
    using Cons.prems(2) by (auto simp: drops_def split: if_splits)
  have "step_ok ep opn l {} w (andThen (run_functor os app user f w) (each (run_functor os app user) fs))"
  proof (rule step_ok_andThen [OF run_functor_step [OF os app user Cons.prems(1) d]])
    fix v :: "('k, 'z) server_world_scheme" assume v: "world_ok ep opn l (Pair l ` set fs) v"
    show "step_ok ep opn l {} v (each (run_functor os app user) fs v)"
      by (rule Cons.IH [OF v]) (use Cons.prems(2) in \<open>simp split: if_splits\<close>)
  qed
  then show ?case by simp
qed

subsection \<open>Freeing what the batch removed\<close>

text \<open>The connections of a server with the one loop \<open>l\<close> are owned; \<open>fs\<close> is what is left of the batch.\<close>

definition solo :: "lid \<Rightarrow> ('k, 'z) server_world_scheme \<Rightarrow> bool" where
  "solo l w \<longleftrightarrow> (\<forall>m. loops w m \<noteq> None \<longrightarrow> m = l)"

definition owned_or :: "functor_cb list \<Rightarrow> ('k, 'z) server_world_scheme \<Rightarrow> bool" where
  "owned_or fs w \<longleftrightarrow> (\<forall>i. conns w i \<noteq> None \<longrightarrow> attached w i \<or> queued w i \<or> Some i \<in> captured ` set fs)"

lemma solo_grows: "solo l w \<Longrightarrow> grows w w' \<Longrightarrow> solo l w'"
  by (simp add: solo_def same_loopsD(1) [OF growsD(7)])

lemma owned_or_grows: "owned_or fs w \<Longrightarrow> grows w w' \<Longrightarrow> owned_or fs w'"
  using owned_grows [of w w' "\<lambda>i. Some i \<in> captured ` set fs"] unfolding owned_or_def by blast

lemma referenced_iff:
  assumes "solo l w" "loops w l \<noteq> None"
  shows "referenced [l] i w \<longleftrightarrow> attached w i \<or> queued w i"
proof -
  obtain lp where lp: "loops w l = Some lp" using assms(2) by blast
  have "queued w i \<longleftrightarrow> Some i \<in> captured ` set (pendingFunctors lp)"
  proof
    assume "queued w i"
    then obtain m lm f where m: "loops w m = Some lm" "f \<in> set (pendingFunctors lm)" "captured f = Some i"
      by (auto simp: queued_def)
    with assms(1) lp have "lm = lp" by (auto simp: solo_def)
    with m show "Some i \<in> captured ` set (pendingFunctors lp)" by (metis imageI)
  next
    assume "Some i \<in> captured ` set (pendingFunctors lp)"
    then obtain f where "f \<in> set (pendingFunctors lp)" "captured f = Some i" by (metis imageE)
    with lp show "queued w i" unfolding queued_def by blast
  qed
  moreover have "attached w i \<longleftrightarrow> (case theServer w of None \<Rightarrow> False | Some s \<Rightarrow> i \<in> snd ` set (connections s))"
    by (cases "theServer w") (force simp: attached_def)+
  ultimately show ?thesis using lp by (simp add: referenced_def)
qed

lemma drop_refs_ok:
  fixes w :: "('k, 'z) server_world_scheme"
  assumes os: "server_kernel os ep opn"
  shows "world_ok ep opn l {} w \<Longrightarrow> solo l w \<Longrightarrow> owned_or fs w \<Longrightarrow>
    defined (each (drop_ref os [l]) fs w) (\<lambda>w'. world_ok ep opn l {} w' \<and> solo l w' \<and> owned_or [] w' \<and> next_id w' = next_id w)"
proof (induction fs arbitrary: w)
  case Nil
  then show ?case by simp
next
  case (Cons f fs)
  obtain lp where "loops w l = Some lp" using ok_loop [OF Cons.prems(1)] .
  then have ref: "referenced [l] i w \<longleftrightarrow> attached w i \<or> queued w i" for i
    using referenced_iff [OF Cons.prems(2)] by simp
  show ?case
  proof (cases "\<exists>i co. captured f = Some i \<and> conns w i = Some co \<and> \<not> referenced [l] i w")
    case False
    have "owned_or fs w"
      unfolding owned_or_def
    proof (intro allI impI)
      fix i assume i: "conns w i \<noteq> None"
      with Cons.prems(3) have "attached w i \<or> queued w i \<or> captured f = Some i \<or> Some i \<in> captured ` set fs"
        unfolding owned_or_def by (auto dest: sym)
      with False i ref [of i] show "attached w i \<or> queued w i \<or> Some i \<in> captured ` set fs" by blast
    qed
    from Cons.IH [OF Cons.prems(1,2) this] False show ?thesis by (auto simp: drop_ref_def split: option.splits)
  next
    case True
    then obtain i co where i: "captured f = Some i" "conns w i = Some co" "\<not> referenced [l] i w" by blast
    have un: "unknown {} w i" using i(3) ref by (simp add: unknown_def)
    have "defined (andThen (destroy_connection os i w) (each (drop_ref os [l]) fs))
        (\<lambda>w'. world_ok ep opn l {} w' \<and> solo l w' \<and> owned_or [] w' \<and> next_id w' = next_id w)"
    proof (rule defined_andThen [OF ok_destroy [OF os Cons.prems(1) i(2) un]])
      fix v :: "('k, 'z) server_world_scheme"
      assume v: "world_ok ep opn l {} v \<and> freed i w v"
      then have f: "freed i w v" ..
      then have eq: "loops v = loops w" "conns v = (conns w)(i := None)" by (auto simp: freed_def)
      have "owned_or fs v"
        unfolding owned_or_def
      proof (intro allI impI)
        fix j assume "conns v j \<noteq> None"
        then have j: "j \<noteq> i" "conns w j \<noteq> None" by (auto simp: eq(2) split: if_splits)
        with Cons.prems(3) i(1) have "attached w j \<or> queued w j \<or> Some j \<in> captured ` set fs" unfolding owned_or_def by auto
        then show "attached v j \<or> queued v j \<or> Some j \<in> captured ` set fs"
          using freed_same(1) [OF f] eq(1) by (simp add: queued_def)
      qed
      moreover have "solo l v" using Cons.prems(2) by (simp add: solo_def eq(1))
      ultimately show "defined (each (drop_ref os [l]) fs v)
        (\<lambda>w'. world_ok ep opn l {} w' \<and> solo l w' \<and> owned_or [] w' \<and> next_id w' = next_id w)"
        using Cons.IH [of v] v freed_same(7) [OF f] by simp
    qed
    moreover have "drop_ref os [l] f w = destroy_connection os i w" using i by (simp add: drop_ref_def)
    ultimately show ?thesis by simp
  qed
qed

subsection \<open>The turn\<close>

text \<open>
  The state between two turns: the invariant, with every connection in the server's map or captured by a
  functor in the queue.
\<close>

definition safe_state :: "'k interest \<Rightarrow> ('k \<Rightarrow> fd set) \<Rightarrow> lid \<Rightarrow> ('k, 'z) server_world_scheme \<Rightarrow> bool" where
  "safe_state ep opn l w \<longleftrightarrow> world_ok ep opn l {} w \<and> solo l w \<and> owned_or [] w"

lemma safe_stateD:
  assumes "safe_state ep opn l w"
  shows "world_ok ep opn l {} w" "solo l w" "owned_or [] w"
  using assms by (simp_all add: safe_state_def)

lemma doPending_swapped:
  assumes "loops w l = Some lp"
  shows "doPendingFunctors run l w = andThen (each run (pendingFunctors lp) (swapped l lp w))
    (modify_loop l (\<lambda>lp. lp\<lparr>callingPendingFunctors := False\<rparr>))"
  using assms by (simp add: doPendingFunctors_def Let_def swapped_def put_loop_def)

lemma run_batch_ok:
  fixes w :: "('k, 'z) server_world_scheme"
  assumes os: "server_kernel os ep opn" and app: "app_keeps ep opn l app" and user: "user_keeps ep opn l user"
    and w: "safe_state ep opn l w"
  shows "defined (run_batch os [l] (run_functor os app user) l w) (\<lambda>w'. safe_state ep opn l w' \<and> next_id w' = next_id w)"
proof -
  note sw = safe_stateD [OF w]
  obtain lp where lp: "loops w l = Some lp" using ok_loop [OF sw(1)] by blast
  let ?fs = "pendingFunctors lp" and ?v = "swapped l lp w"
  have v: "world_ok ep opn l (Pair l ` set ?fs) ?v" using ok_swap [OF sw(1) lp] by simp
  have run: "step_ok ep opn l {} ?v (each (run_functor os app user) ?fs ?v)"
    by (rule run_functors_step [OF os app user v loops_okD(5) [OF world_okD(4) [OF sw(1)] lp]])
  have own: "owned_or ?fs ?v"
    unfolding owned_or_def
  proof (intro allI impI)
    fix i assume i: "conns ?v i \<noteq> None"
    have q: "queued ?v i \<or> Some i \<in> captured ` set ?fs" if "queued w i"
    proof -
      from that obtain m lm f where m: "loops w m = Some lm" "f \<in> set (pendingFunctors lm)" "captured f = Some i"
        by (auto simp: queued_def)
      with sw(2) lp have "lm = lp" by (auto simp: solo_def)
      with m show ?thesis by (metis imageI)
    qed
    have "attached ?v i = attached w i" by (rule attached_cong) simp
    with i sw(3) q show "attached ?v i \<or> queued ?v i \<or> Some i \<in> captured ` set ?fs" by (auto simp: owned_or_def)
  qed
  have solo: "solo l ?v" using sw(2) by (simp add: solo_def)
  have id: "next_id ?v = next_id w" by (rule next_id_cong) simp
  let ?P = "\<lambda>x. world_ok ep opn l {} x \<and> solo l x \<and> owned_or ?fs x \<and> next_id x = next_id w"
  have "defined (doPendingFunctors (run_functor os app user) l w) ?P"
    unfolding doPending_swapped [OF lp]
  proof (rule defined_andThen [OF run [unfolded step_ok_def]])
    fix x assume x: "world_ok ep opn l {} x \<and> grows ?v x \<and> next_id x = next_id ?v"
    obtain lx where lx: "loops x l = Some lx" using ok_loop x by blast
    let ?y = "put_loop l (lx\<lparr>callingPendingFunctors := False\<rparr>) x"
    have "distinct (filter establishes (pendingFunctors lx))" using loops_okD(5) [OF world_okD(4) lx] x by blast
    then have "step_ok ep opn l {} x (Inr ?y)" by (intro step_put_loop [OF _ lx]) (use x in simp_all)
    then have y: "world_ok ep opn l {} ?y" "grows ?v ?y" "next_id ?y = next_id w"
      using x id grows_trans by (auto simp: step_ok_def)
    with solo_grows [OF solo] owned_or_grows [OF own] lx
    show "defined (modify_loop l (\<lambda>lp. lp\<lparr>callingPendingFunctors := False\<rparr>) x) ?P" by simp
  qed
  then have "defined (andThen (doPendingFunctors (run_functor os app user) l w) (each (drop_ref os [l]) ?fs))
    (\<lambda>w'. safe_state ep opn l w' \<and> next_id w' = next_id w)"
  proof (rule defined_andThen)
    fix x assume x: "?P x"
    with drop_refs_ok [OF os, of l x ?fs]
    show "defined (each (drop_ref os [l]) ?fs x) (\<lambda>w'. safe_state ep opn l w' \<and> next_id w' = next_id w)"
      unfolding safe_state_def by (auto elim: defined_mono)
  qed
  with lp show ?thesis by (simp add: run_batch_def)
qed

primrec live_turns :: "'k os \<Rightarrow> lid list \<Rightarrow> ('k, 'z) server_world_scheme app \<Rightarrow>
    (('k, 'z) server_world_scheme \<Rightarrow> conn \<times> cid) \<Rightarrow>
    (nat \<Rightarrow> ('k, 'z) server_world_scheme \<Rightarrow> ('k, 'z) server_world_scheme result) \<Rightarrow> lid \<Rightarrow> nat \<Rightarrow>
    ('k, 'z) server_world_scheme \<Rightarrow> ('k, 'z) server_world_scheme result" where
  "live_turns os ls app fresh user l 0 w = Inr w"
| "live_turns os ls app fresh user l (Suc n) w =
     andThen (live_turn os ls app fresh user l w) (live_turns os ls app fresh user l n)"

lemma live_turn_safe:
  fixes w :: "('k, 'z) server_world_scheme"
  assumes os: "server_kernel os ep opn" and app: "app_keeps ep opn l app" and user: "user_keeps ep opn l user"
    and fresh: "allocates fresh" and w: "safe_state ep opn l w" and n: "next_id w + 1 < 2 ^ 32"
  shows "defined (live_turn os [l] app fresh user l w) (\<lambda>w'. safe_state ep opn l w' \<and> next_id w' \<le> next_id w + 1)"
proof -
  note sw = safe_stateD [OF w]
  have "(l, f) \<notin> {}" for f by simp
  then obtain now active u where u: "poll os l kPollTimeMs [] w = Inr (now, active, u)" "step_ok ep opn l {} w (Inr u)"
    "distinct active" "\<forall>c \<in> set active. engaged l u c"
    using poll_step [OF os sw(1)] by blast
  have uw: "world_ok ep opn l {} u" "grows w u" "next_id u = next_id w" using u(2) by (simp_all add: step_ok_def)
  obtain lp where lp: "loops u l = Some lp" using ok_loop [OF uw(1)] .
  let ?v = "put_loop l (lp\<lparr>activeChannels := active, pollReturnTime := now\<rparr>) u"
  have "distinct (filter establishes (pendingFunctors lp))" by (rule loops_okD(5) [OF world_okD(4) [OF uw(1)] lp])
  then have "step_ok ep opn l {} u (Inr ?v)" by (intro step_put_loop [OF uw(1) lp]) simp_all
  then have v: "world_ok ep opn l {} ?v" "grows u ?v" "next_id ?v = next_id w"
    using uw by (auto simp: step_ok_def)
  note gv = grows_trans [OF uw(2) v(2)]
  have one: "sum_list (map (arrivals ?v) active) \<le> 1" by (rule arrivals_once [OF u(3)])
  have "step_upto ep opn l {} (sum_list (map (arrivals ?v) active)) ?v
      (each (handleEvent (\<lambda>i w. conns w i \<noteq> None) (run_callback os app fresh) now) active ?v)"
    by (rule handleEvents_upto [OF os app fresh v(1)]) (use u(4) engaged_grows [OF _ v(2)] one n v(3) in auto)
  then have "defined (andThen (each (handleEvent (\<lambda>i w. conns w i \<noteq> None) (run_callback os app fresh) now) active ?v)
      (run_batch os [l] (run_functor os app user) l)) (\<lambda>w'. safe_state ep opn l w' \<and> next_id w' \<le> next_id w + 1)"
    unfolding step_upto_def
  proof (rule defined_andThen)
    fix x assume x: "world_ok ep opn l {} x \<and> grows ?v x \<and> next_id x \<le> next_id ?v + sum_list (map (arrivals ?v) active)"
    then have g: "grows w x" using gv grows_trans by blast
    have "safe_state ep opn l x"
      using x solo_grows [OF sw(2) g] owned_or_grows [OF sw(3) g] by (simp add: safe_state_def)
    from run_batch_ok [OF os app user this]
    show "defined (run_batch os [l] (run_functor os app user) l x) (\<lambda>w'. safe_state ep opn l w' \<and> next_id w' \<le> next_id w + 1)"
      by (rule defined_mono) (use x one v(3) in auto)
  qed
  with u(1) lp show ?thesis by (simp add: live_turn_def)
qed

lemma live_turns_safe:
  fixes w :: "('k, 'z) server_world_scheme"
  assumes os: "server_kernel os ep opn" and app: "app_keeps ep opn l app" and user: "user_keeps ep opn l user"
    and fresh: "allocates fresh"
  shows "safe_state ep opn l w \<Longrightarrow> next_id w + n < 2 ^ 32 \<Longrightarrow>
    defined (live_turns os [l] app fresh user l n w) (safe_state ep opn l)"
proof (induction n arbitrary: w)
  case (Suc n)
  have "defined (andThen (live_turn os [l] app fresh user l w) (live_turns os [l] app fresh user l n)) (safe_state ep opn l)"
    by (rule defined_andThen [OF live_turn_safe [OF os app user fresh Suc.prems(1)]]) (use Suc in auto)
  then show ?case by simp
qed simp

end
