(* ===== verification/SystemTurn.thy ===== *)
theory SystemTurn
  imports MultiLoop MemorySafety
begin

unbundle bit_operations_syntax

text \<open>
  The steps of the system are those of the code's loop: when one loop takes them without another in between, they
  are one turn of \<open>EventLoop::loop\<close>.
\<close>

lemma sys_run_simps [simp]:
  "sys_run os app fresh user ls [] s = Inr s"
  "sys_run os app fresh user ls (l # ms) s = andThen (sys_step os app fresh user ls l s) (sys_run os app fresh user ls ms)"
  by (simp_all add: sys_run_def)

lemma sys_run_append:
  "sys_run os app fresh user ls (ms @ ns) s = andThen (sys_run os app fresh user ls ms s) (sys_run os app fresh user ls ns)"
  by (simp add: sys_run_def each_append)

text \<open>In the loop's own thread, the step does not change the thread.\<close>

lemma same_thread:
  assumes "world_ok ep opn l T w" "loops w l = Some lp"
  shows "w\<lparr>curThread := threadId lp\<rparr> = w"
proof -
  have "threadId lp = curThread w" using world_okD(6) [OF assms(1)] assms(2) by (auto simp: in_thread_def)
  then show ?thesis by simp
qed

lemma own_step:
  assumes w: "world_ok ep opn l T w" and lp: "loops w l = Some lp"
  shows "acts l = Idle \<Longrightarrow> sys_step os app fresh user ls l (w, acts) =
       andThen (poll os l kPollTimeMs [] w) (\<lambda>(now, active, w).
       andThen (modify_loop l (\<lambda>lp. lp\<lparr>activeChannels := active, pollReturnTime := now\<rparr>) w) (\<lambda>w.
         Inr (w, acts(l := Dispatching now active))))"
    "acts l = Dispatching now (c # cs) \<Longrightarrow> sys_step os app fresh user ls l (w, acts) =
       andThen (handleEvent (\<lambda>i w. conns w i \<noteq> None) (run_callback os app fresh) now c w) (\<lambda>w. Inr (w, acts(l := Dispatching now cs)))"
    "acts l = Dispatching now [] \<Longrightarrow> sys_step os app fresh user ls l (w, acts) =
       Inr (swapped l lp w, acts(l := Running (pendingFunctors lp) []))"
    "acts l = Running (f # fs) past \<Longrightarrow> sys_step os app fresh user ls l (w, acts) =
       andThen (run_functor os app user f w) (\<lambda>w. Inr (w, acts(l := Running fs (past @ [f]))))"
    "acts l = Running [] past \<Longrightarrow> sys_step os app fresh user ls l (w, acts) =
       andThen (modify_loop l (\<lambda>lp. lp\<lparr>callingPendingFunctors := False\<rparr>) w) (\<lambda>w. Inr (w, acts(l := Releasing past)))"
  using lp same_thread [OF w lp] by (simp_all add: sys_step_def Let_def swapped_def)

text \<open>Dispatching, to the end of the active channels.\<close>

lemma dispatch_run:
  fixes w :: "('k, 'z) server_world_scheme"
  assumes os: "server_kernel os ep opn" and app: "app_keeps ep opn l app" and fresh: "allocates fresh"
  shows "world_ok ep opn l T w \<Longrightarrow> \<forall>c \<in> set cs. engaged l w c \<Longrightarrow> next_id w + sum_list (map (arrivals w) cs) < 2 ^ 32 \<Longrightarrow>
    acts l = Dispatching now cs \<Longrightarrow>
    sys_run os app fresh user ls (replicate (length cs) l) (w, acts) =
      andThen (each (handleEvent (\<lambda>i w. conns w i \<noteq> None) (run_callback os app fresh) now) cs w) (\<lambda>w.
        Inr (w, acts(l := Dispatching now [])))"
proof (induction cs arbitrary: w acts)
  case Nil
  then have "acts(l := Dispatching now []) = acts" by (simp add: fun_upd_idem)
  then show ?case by simp
next
  case (Cons c cs)
  obtain lp where lp: "loops w l = Some lp" using ok_loop [OF Cons.prems(1)] .
  let ?he = "handleEvent (\<lambda>i w. conns w i \<noteq> None) (run_callback os app fresh) now"
  have st: "sys_step os app fresh user ls l (w, acts) = andThen (?he c w) (\<lambda>w. Inr (w, acts(l := Dispatching now cs)))"
    by (rule own_step(2); fact)
  have "next_id w + arrivals w c < 2 ^ 32" using Cons.prems(3) by simp
  then have he: "step_upto ep opn l T (arrivals w c) w (?he c w)"
    using handleEvent_upto [OF os app fresh Cons.prems(1)] Cons.prems(2) by simp
  show ?case
  proof (cases "?he c w")
    case (Inl e)
    with st show ?thesis by simp
  next
    case (Inr v)
    with he have v: "world_ok ep opn l T v" "grows w v" "next_id v \<le> next_id w + arrivals w c"
      by (simp_all add: step_upto_def)
    have arr: "arrivals v = arrivals w" using arrivals_grows [OF v(2)] by (rule ext)
    have "sys_run os app fresh user ls (replicate (length cs) l) (v, acts(l := Dispatching now cs)) =
      andThen (each ?he cs v) (\<lambda>w. Inr (w, (acts(l := Dispatching now cs))(l := Dispatching now [])))"
      by (rule Cons.IH [OF v(1)]) (use Cons.prems(2,3) v engaged_grows [OF _ v(2)] in \<open>auto simp: arr\<close>)
    with st Inr show ?thesis by (simp del: fun_upd_apply)
  qed
qed

text \<open>Running the batch.\<close>

lemma batch_run:
  fixes w :: "('k, 'z) server_world_scheme"
  assumes os: "server_kernel os ep opn" and app: "app_keeps ep opn l app" and user: "user_keeps ep opn l user"
  shows "world_ok ep opn l (todos acts) w \<Longrightarrow> acts l = Running fs past \<Longrightarrow> distinct (filter establishes fs) \<Longrightarrow>
    sys_run os app fresh user ls (replicate (Suc (length fs)) l) (w, acts) =
      andThen (andThen (each (run_functor os app user) fs w) (modify_loop l (\<lambda>lp. lp\<lparr>callingPendingFunctors := False\<rparr>)))
        (\<lambda>w. Inr (w, acts(l := Releasing (past @ fs))))"
proof (induction fs arbitrary: w acts past)
  case Nil
  obtain lp where lp: "loops w l = Some lp" using ok_loop [OF Nil.prems(1)] .
  have "sys_step os app fresh user ls l (w, acts) =
       andThen (modify_loop l (\<lambda>lp. lp\<lparr>callingPendingFunctors := False\<rparr>) w) (\<lambda>w. Inr (w, acts(l := Releasing past)))"
    by (rule own_step(5); fact)
  then show ?case by (simp add: andThen_assoc del: fun_upd_apply)
next
  case (Cons f fs)
  obtain lp where lp: "loops w l = Some lp" using ok_loop [OF Cons.prems(1)] .
  let ?acts = "acts(l := Running fs (past @ [f]))"
  have st: "sys_step os app fresh user ls l (w, acts) = andThen (run_functor os app user f w) (\<lambda>w. Inr (w, ?acts))"
    by (rule own_step(4); fact)
  have d: "drops (todos acts) l f (todos ?acts)"
    using Cons.prems(2,3) by (auto simp: drops_def todos_def split: if_splits)
  note run = run_functor_step [OF os app user Cons.prems(1) d]
  show ?case
  proof (cases "run_functor os app user f w")
    case (Inl e)
    with st show ?thesis by simp
  next
    case (Inr v)
    with run have v: "world_ok ep opn l (todos ?acts) v" by (simp add: step_ok_def)
    have "sys_run os app fresh user ls (replicate (Suc (length fs)) l) (v, ?acts) =
      andThen (andThen (each (run_functor os app user) fs v) (modify_loop l (\<lambda>lp. lp\<lparr>callingPendingFunctors := False\<rparr>)))
        (\<lambda>w. Inr (w, ?acts(l := Releasing ((past @ [f]) @ fs))))"
      by (rule Cons.IH [OF v]) (use Cons.prems(3) in \<open>simp_all split: if_splits\<close>)
    with st Inr show ?thesis by (simp del: fun_upd_apply)
  qed
qed

lemma turn_steps:
  fixes w :: "('k, 'z) server_world_scheme"
  assumes os: "server_kernel os ep opn" and app: "app_keeps ep opn l app" and user: "user_keeps ep opn l user"
    and fresh: "allocates fresh" and w: "world_ok ep opn l (todos acts) w" and idle: "acts l = Idle" and n: "next_id w + 1 < 2 ^ 32"
  shows "\<exists>n fs. sys_run os app fresh user ls (replicate n l) (w, acts) =
    andThen (server_turn os app fresh user l w) (\<lambda>w. Inr (w, acts(l := Releasing fs)))"
proof -
  let ?he = "handleEvent (\<lambda>i w. conns w i \<noteq> None) (run_callback os app fresh)"
  have "(l, f) \<notin> todos acts" for f by (rule todos_idle) (simp add: idle)
  from poll_step [OF os w this] obtain now active u where u: "poll os l kPollTimeMs [] w = Inr (now, active, u)"
    "step_ok ep opn l (todos acts) w (Inr u)" "distinct active" "\<forall>c \<in> set active. engaged l u c" by blast
  have uw: "world_ok ep opn l (todos acts) u" "grows w u" "next_id u = next_id w" using u(2) by (simp_all add: step_ok_def)
  obtain lp where lp: "loops u l = Some lp" using ok_loop [OF uw(1)] .
  obtain lp0 where w0: "loops w l = Some lp0" using ok_loop [OF w] .
  let ?v = "put_loop l (lp\<lparr>activeChannels := active, pollReturnTime := now\<rparr>) u"
  have "distinct (filter establishes (pendingFunctors lp))" by (rule loops_okD(5) [OF world_okD(4) [OF uw(1)] lp])
  then have "step_ok ep opn l (todos acts) u (Inr ?v)" by (intro step_put_loop [OF uw(1) lp]) simp_all
  then have v: "world_ok ep opn l (todos acts) ?v" "grows u ?v" "next_id ?v = next_id w"
    using uw by (auto simp: step_ok_def)
  let ?a = "acts(l := Dispatching now active)" and ?e = "acts(l := Dispatching now [])"
  have td: "todos ?a = todos acts" "todos ?e = todos acts" by (rule todos_same; simp add: idle)+
  have poll: "sys_step os app fresh user ls l (w, acts) = Inr (?v, ?a)"
    using own_step(1) [where acts = acts, OF w w0 idle] u(1) lp by simp
  have one: "sum_list (map (arrivals ?v) active) \<le> 1" by (rule arrivals_once [OF u(3)])
  have dis: "sys_run os app fresh user ls (replicate (length active) l) (?v, ?a) =
      andThen (each (?he now) active ?v) (\<lambda>w. Inr (w, ?e))"
    using dispatch_run [OF os app fresh v(1), of active ?a now user ls] u(4) engaged_grows [OF _ v(2)] one n v(3) by simp
  have turn: "server_turn os app fresh user l w = andThen (each (?he now) active ?v) (doPendingFunctors (run_functor os app user) l)"
    using u(1) lp by (simp add: server_turn_def loop_iteration_def)
  have "step_upto ep opn l (todos acts) (sum_list (map (arrivals ?v) active)) ?v (each (?he now) active ?v)"
    by (rule handleEvents_upto [OF os app fresh v(1)]) (use u(4) engaged_grows [OF _ v(2)] one n v(3) in auto)
  show ?thesis
  proof (cases "each (?he now) active ?v")
    case (Inl e)
    with poll dis have "sys_run os app fresh user ls (replicate (Suc (length active)) l) (w, acts) = Inl e" by simp
    with turn Inl show ?thesis by (metis andThen_simps(1))
  next
    case (Inr x)
    with \<open>step_upto _ _ _ _ _ _ _\<close> have x: "world_ok ep opn l (todos acts) x" by (simp add: step_upto_def)
    obtain lx where lx: "loops x l = Some lx" using ok_loop [OF x] .
    let ?fs = "pendingFunctors lx"
    let ?r = "acts(l := Running ?fs [])"
    have swap: "sys_step os app fresh user ls l (x, ?e) = Inr (swapped l lx x, ?r)"
      using own_step(3) [OF x lx, of ?e now os app fresh user ls] by simp
    have no: "(l, f) \<notin> todos acts" for f by (rule todos_idle) (simp add: idle)
    have "todos ?r = todos acts \<union> Pair l ` set ?fs" using no by (auto simp: todos_upd)
    with ok_swap [OF x lx no] have sw: "world_ok ep opn l (todos ?r) (swapped l lx x)" by simp
    have "sys_run os app fresh user ls (replicate (Suc (length ?fs)) l) (swapped l lx x, ?r) =
      andThen (doPendingFunctors (run_functor os app user) l x) (\<lambda>w. Inr (w, acts(l := Releasing ?fs)))"
      using batch_run [OF os app user sw, of ?fs "[]" fresh ls] loops_okD(5) [OF world_okD(4) [OF x] lx] doPending_swapped [OF lx]
      by simp
    with poll dis Inr swap turn
    have "sys_run os app fresh user ls (replicate (Suc (length active) + (Suc (Suc (length ?fs)))) l) (w, acts) =
      andThen (server_turn os app fresh user l w) (\<lambda>w. Inr (w, acts(l := Releasing ?fs)))"
      unfolding replicate_add sys_run_append by simp
    then show ?thesis by blast
  qed
qed

end
