(* ===== verification/SafetyBoot.thy ===== *)
theory SafetyBoot
  imports MultiLoop LoopInv
begin

unbundle bit_operations_syntax

text \<open>
  The start of a server establishes the invariant: loops are built, each in its thread, the server is built on the
  first of them, and the pool adds its workers.
\<close>

text \<open>A call that yields a descriptor yields one that was not open.\<close>

definition opens_fresh :: "('k \<Rightarrow> (errno + fd) \<times> 'k) \<Rightarrow> ('k \<Rightarrow> fd set) \<Rightarrow> bool" where
  "opens_fresh g opn \<longleftrightarrow> (\<forall>k f k'. g k = (Inr f, k') \<longrightarrow> f \<notin> opn k \<and> opn k' = insert f (opn k))"

definition boot_kernel :: "'k os \<Rightarrow> 'k interest \<Rightarrow> ('k \<Rightarrow> fd set) \<Rightarrow> bool" where
  "boot_kernel os ep opn \<longleftrightarrow>
     opens_fresh (sys_epoll_create os) opn \<and> opens_fresh (sys_eventfd os) opn \<and> opens_fresh (sys_socket os) opn \<and>
     (\<forall>k e k'. sys_epoll_create os k = (Inr e, k') \<longrightarrow> ep k' = (ep k)(e := (\<lambda>_. None))) \<and>
     (\<forall>k. ep (snd (sys_eventfd os k)) = ep k) \<and> (\<forall>k. ep (snd (sys_socket os k)) = ep k) \<and>
     (\<forall>f a. quiet_call (\<lambda>k. snd (sys_bind os f a k)) ep opn)"

text \<open>The part of the invariant that needs no server, while there are no connections; epoll descriptors are open.\<close>

definition infra_ok :: "'k interest \<Rightarrow> ('k \<Rightarrow> fd set) \<Rightarrow> ('k, 'z) server_world_scheme \<Rightarrow> bool" where
  "infra_ok ep opn w \<longleftrightarrow> chans_ok ep opn w \<and> conns_ok w \<and> loops_ok {} w \<and> conns w = (\<lambda>_. None) \<and>
     (\<forall>l p. pollers w l = Some p \<longrightarrow> epollfd p \<in> opn (kern w))"

lemma infra_okD:
  assumes "infra_ok ep opn w"
  shows "chans_ok ep opn w" "conns_ok w" "loops_ok {} w" "conns w = (\<lambda>_. None)"
    "pollers w l = Some p \<Longrightarrow> epollfd p \<in> opn (kern w)" "poller_sync ep w"
  using assms by (simp_all add: infra_ok_def chans_ok_def)

text \<open>Without connections, functors depend on the server only.\<close>

lemma no_conn_facts:
  assumes "conns w = (\<lambda>_. None)"
  shows "\<not> held l w i" "\<not> mine l w i" "\<not> waiting l w i" "\<not> dormant w i"
  using assms by (simp_all add: held_def mine_def waiting_def dormant_def)

lemma no_conn_functor:
  assumes "conns w = (\<lambda>_. None)" "conns w' = (\<lambda>_. None)" "theServer w' = theServer w"
  shows "functor_ok l w' f = functor_ok l w f"
proof -
  have "base_loop l w' = base_loop l w" by (rule base_cong [OF assms(3)])
  then show ?thesis
    using no_conn_facts [OF assms(1)] no_conn_facts [OF assms(2)] by (cases f) (simp_all add: functor_ok_def)
qed

text \<open>A loop, its poller and its wakeup channel come into being.\<close>

definition adds_loop :: "lid \<Rightarrow> cid \<Rightarrow> poller \<Rightarrow> event_loop \<Rightarrow> channel \<Rightarrow> ('k, 'z) server_world_scheme \<Rightarrow>
    ('k, 'z) server_world_scheme \<Rightarrow> bool" where
  "adds_loop l c p lp ch w v \<longleftrightarrow> chans v = (chans w)(c \<mapsto> ch) \<and> pollers v = (pollers w)(l \<mapsto> p) \<and>
     loops v = (loops w)(l \<mapsto> lp) \<and> conns v = conns w \<and> theServer v = theServer w \<and> theAcceptor v = theAcceptor w \<and>
     curThread v = curThread w \<and> loopInThisThread v = loopInThisThread w \<and> numCreated v = numCreated w"

lemma adds_loop_infra:
  assumes w: "infra_ok ep opn w" and v: "adds_loop l c p lp ch w v"
    and new: "chans w c = None" "loops w l = None" "\<And>m lm. loops w m = Some lm \<Longrightarrow> threadId lm \<noteq> threadId lp"
    and ch: "chLoop ch = l" "readCallback ch = Some (LoopHandleRead l)" "writeCallback ch = None" "closeCallback ch = None"
      "errorCallback ch = None"
    and lp: "pendingFunctors lp = []" and sync: "poller_sync ep v"
    and fd: "chFd ch \<notin> opn (kern w)" "opn (kern v) = insert (chFd ch) (insert (epollfd p) (opn (kern w)))"
  shows "infra_ok ep opn v"
proof -
  note eq = v [unfolded adds_loop_def] and i = infra_okD [OF w]
  note lo = loops_okD [OF i(3)]
  have "chans_ok ep opn v"
  proof -
    have a: "pollers v (chLoop x) \<noteq> None \<and> chFd x \<in> opn (kern v)" if "chans v d = Some x" for d x
    proof (cases "d = c")
      case True
      with that eq ch(1) fd(2) show ?thesis by auto
    next
      case False
      with that eq have "chans w d = Some x" by simp
      with i(1) eq fd(2) show ?thesis by (auto simp: chans_ok_def)
    qed
    have b: "d = d'" if "chans v d = Some x" "chans v d' = Some y" "chFd x = chFd y" for d d' x y
    proof -
      have old: "chFd z \<in> opn (kern w)" if "chans w e = Some z" for e z using i(1) that by (simp add: chans_ok_def)
      have uni: "d = d'" if "chans w d = Some x" "chans w d' = Some y" using i(1) that \<open>chFd x = chFd y\<close> unfolding chans_ok_def by blast
      show ?thesis using that eq fd(1) old [of d x] old [of d' y] uni by (cases "d = c"; cases "d' = c") auto
    qed
    show ?thesis unfolding chans_ok_def using sync a b by blast
  qed
  moreover have "conns_ok v"
  proof -
    have cb: "cb_ok v m d x = cb_ok w m d x" for m d x using eq by (cases x) (simp_all add: cb_ok_def)
    have new: "cb_ok w l c x" if "Some x \<in> callbacks_of ch" for x using that ch by (simp add: callbacks_of_def cb_ok_def)
    show ?thesis
      using i(2,4) eq new ch by (auto simp: conns_ok_def cb split: if_splits)
  qed
  moreover have "loops_ok {} v"
    unfolding loops_ok_def
  proof (intro conjI allI impI)
    show "pollers v m = None \<longleftrightarrow> loops v m = None" for m using lo(1) [of m] eq by simp
    show "m = m'" if "loops v m = Some x" "loops v m' = Some y" "threadId x = threadId y" for m m' x y
      using that lo(2) [of m x m' y] new(3) [of m x] new(3) [of m' y] eq by (auto split: if_splits)
    fix m x f assume x: "loops v m = Some x" "f \<in> set (pendingFunctors x)"
    with lp eq have "loops w m = Some x" by (auto split: if_splits)
    from lo(3) [OF this x(2)] no_conn_functor [of w v m f] i(4) eq show "functor_ok m v f" by simp
  next
    show "distinct (filter establishes (pendingFunctors x))" if "loops v m = Some x" for m x
      using that lp lo(5) [of m x] eq by (auto split: if_splits)
  qed simp_all
  moreover have "epollfd q \<in> opn (kern v)" if "pollers v m = Some q" for m q
    using that i(5) [of m q] eq fd(2) by (auto split: if_splits)
  ultimately show ?thesis using i(4) eq by (simp add: infra_ok_def)
qed

text \<open>Registering a channel, while there are no connections.\<close>

lemma enter_infra:
  assumes os: "server_kernel os ep opn" and w: "infra_ok ep opn w" and c: "chans w c = Some ch" "index ch = KNew"
  shows "defined (change_events os g c w) (\<lambda>v. infra_ok ep opn v \<and> (\<exists>p k. v = put_entry c (registered g ch) p k w \<and>
      pollers w (chLoop ch) = Some p \<and> opn k = opn (kern w)))" and "change_events os g c w \<noteq> Inl LengthError"
    and "change_events os g c w \<noteq> Inl BadFunctionCall"
proof -
  note i = infra_okD [OF w]
  have "pollers w (chLoop ch) \<noteq> None" using i(1) c(1) by (simp add: chans_ok_def)
  then obtain p where p: "pollers w (chLoop ch) = Some p" by blast
  have ready: "channel_ready c w"
  proof -
    have "channels p (chFd ch) = None"
    proof (rule ccontr)
      assume "channels p (chFd ch) \<noteq> None"
      then obtain d x where "channels p (chFd ch) = Some d" "chans w d = Some x" "chFd x = chFd ch" "index x \<noteq> KNew"
        using syncD(1) [OF i(6) p] unfolding poller_ok_def by blast
      moreover from this have "d = c" using i(1) c(1) unfolding chans_ok_def by blast
      ultimately show False using c by simp
    qed
    with p c show ?thesis by (simp add: channel_ready_def)
  qed
  note cases = change_events_cases [OF i(6) server_kernelD(1) [OF os] ready c(1) p, of g]
  have ok: "infra_ok ep opn (put_entry c (registered g ch) p k w) \<and> opn k = opn (kern w)"
    if k: "change_events os g c w = Inr (put_entry c (registered g ch) p k w)"
      "poller_sync ep (put_entry c (registered g ch) p k w)" for k
  proof -
    let ?v = "put_entry c (registered g ch) p k w"
    obtain r k' where r: "sys_epoll_ctl os (epollfd p) (update_ctl g ch) (chFd ch) (g (events ch)) c (kern w) = (r, k')"
      by fastforce
    with k(1) have "put_entry c (registered g ch) p k w = put_entry c (registered g ch) p k' w"
      unfolding change_events_unfold [OF i(6) c(1) p] by (auto split: option.splits if_splits)
    then have "k = k'" by (metis put_entry_fields(1))
    then have opn: "opn k = opn (kern w)" using r server_kernelD(2) [OF os] by (metis snd_conv)
    have t: "twins w ?v"
      using c p by (auto simp: twins_def rel_option_iff registered_def chan_twin_def split: option.splits)
    have e: "conns ?v = (\<lambda>_. None)" using i(4) by simp
    have "chans_ok ep opn ?v" by (rule twins_chans_ok [OF t i(1) k(2)]) (simp add: opn)
    moreover have "conns_ok ?v" by (rule twins_conns_ok [OF t i(2)]) (simp_all add: e i(4))
    moreover have "loops_ok {} ?v"
      by (rule loops_ok_mono [OF i(3) _ twinsD(3) [OF t] twinsD(5) [OF t]])
        (simp_all add: supports_def no_conn_facts [OF i(4)] base_loop_def)
    ultimately show ?thesis
      using i(4) i(5) opn p by (auto simp: infra_ok_def registered_def split: if_splits)
  qed
  show "defined (change_events os g c w) (\<lambda>v. infra_ok ep opn v \<and> (\<exists>p k. v = put_entry c (registered g ch) p k w \<and>
      pollers w (chLoop ch) = Some p \<and> opn k = opn (kern w)))"
    using cases
  proof (elim disjE exE conjE)
    fix k assume k: "change_events os g c w = Inr (put_entry c (registered g ch) p k w)"
      "poller_sync ep (put_entry c (registered g ch) p k w)"
    from ok [OF k] p have "infra_ok ep opn (put_entry c (registered g ch) p k w) \<and> (\<exists>q k'.
        put_entry c (registered g ch) p k w = put_entry c (registered g ch) q k' w \<and>
        pollers w (chLoop ch) = Some q \<and> opn k' = opn (kern w))" by blast
    then show ?thesis unfolding k(1) by simp
  qed simp
  show "change_events os g c w \<noteq> Inl LengthError" "change_events os g c w \<noteq> Inl BadFunctionCall"
    using cases by auto
qed

text \<open>The outcome of a step of the start: an exception would make \<open>startLoop\<close> wait for ever.\<close>

definition starts :: "'a result \<Rightarrow> ('a \<Rightarrow> bool) \<Rightarrow> bool" where
  "starts r P \<longleftrightarrow> defined r P \<and> r \<noteq> Inl LengthError \<and> r \<noteq> Inl BadFunctionCall"

lemma starts_simps [simp]:
  "starts (Inr a) P \<longleftrightarrow> P a" "starts (Inl ExitFailure) P"
  by (simp_all add: starts_def)

lemma starts_mono: "starts r P \<Longrightarrow> (\<And>a. P a \<Longrightarrow> Q a) \<Longrightarrow> starts r Q"
  unfolding starts_def by (blast intro: defined_mono)

lemma starts_andThen: "starts r P \<Longrightarrow> (\<And>a. P a \<Longrightarrow> starts (f a) Q) \<Longrightarrow> starts (andThen r f) Q"
  by (cases r) (auto simp: starts_def)

lemma starts_defined: "starts r P \<Longrightarrow> defined r P"
  by (simp add: starts_def)

text \<open>Which loops, channels and threads there are after one has been built.\<close>

definition one_more :: "lid \<Rightarrow> cid \<Rightarrow> ('k, 'z) server_world_scheme \<Rightarrow> ('k, 'z) server_world_scheme \<Rightarrow> bool" where
  "one_more l c w v \<longleftrightarrow> (\<exists>lp. loops v = (loops w)(l \<mapsto> lp) \<and> threadId lp = curThread w) \<and>
     (\<exists>ch. chans v = (chans w)(c \<mapsto> ch)) \<and> theServer v = theServer w \<and> theAcceptor v = theAcceptor w \<and>
     curThread v = curThread w \<and> loopInThisThread v = loopInThisThread w \<and> (\<forall>m. pollers w m \<noteq> None \<longrightarrow> pollers v m \<noteq> None)"

lemma new_event_loop_starts:
  assumes os: "server_kernel os ep opn" "boot_kernel os ep opn" and w: "infra_ok ep opn w"
    and new: "chans w c = None" "loops w l = None" "\<And>m lm. loops w m = Some lm \<Longrightarrow> threadId lm \<noteq> curThread w"
      "loopInThisThread w (curThread w) = None"
  shows "starts (new_event_loop os l c w) (\<lambda>v. infra_ok ep opn v \<and> one_more l c w v)"
proof -
  obtain r1 k1 where e: "sys_epoll_create os (kern w) = (r1, k1)" by fastforce
  obtain r2 k2 where f: "sys_eventfd os k1 = (r2, k2)" by fastforce
  show ?thesis
  proof (cases r1)
    case (Inl x)
    with e show ?thesis by (simp add: new_event_loop_def newDefaultPoller_def new_poller_def)
  next
    case e': (Inr ef)
    show ?thesis
    proof (cases r2)
      case (Inl x)
      with e e' f show ?thesis
        by (simp add: new_event_loop_def newDefaultPoller_def new_poller_def createEventfd_def put_poller_def)
    next
      case f': (Inr fd)
      let ?p = "\<lparr>ownerLoop = l, epollfd = ef, evcap = kInitEventListSize, channels = (\<lambda>_. None)\<rparr>"
      let ?lp = "\<lparr>looping = False, quitFlag = False, threadId = curThread w, pollReturnTime = 0, wakeupFd = fd,
         wakeupChannel = c, activeChannels = [], callingPendingFunctors = False, pendingFunctors = []\<rparr>"
      let ?ch = "setReadCallback (LoopHandleRead l) (new_channel l fd)"
      let ?w = "put_channel c ?ch (put_loop l ?lp ((put_channel c (new_channel l fd) (put_poller l ?p w))\<lparr>kern := k2\<rparr>))"
      have ch: "chLoop ?ch = l" "chFd ?ch = fd" "index ?ch = KNew" "readCallback ?ch = Some (LoopHandleRead l)"
        "writeCallback ?ch = None" "closeCallback ?ch = None" "errorCallback ?ch = None"
        by (simp_all add: setReadCallback_def new_channel_def KNew_def)
      have k: "ef \<notin> opn (kern w)" "opn k1 = insert ef (opn (kern w))" "fd \<notin> opn k1" "opn k2 = insert fd (opn k1)"
        using os(2) e e' f f' unfolding boot_kernel_def opens_fresh_def by blast+
      have ep: "ep k2 = (ep (kern w))(ef := (\<lambda>_. None))"
        using os(2) e e' f f' unfolding boot_kernel_def by (metis snd_conv)
      have v: "adds_loop l c ?p ?lp ?ch w ?w" by (simp add: adds_loop_def put_channel_def put_loop_def put_poller_def)
      have pl: "pollers w l = None" using loops_okD(1) [OF infra_okD(3) [OF w], of l] new(2) by simp
      have sync: "poller_sync ep ?w"
        by (rule add_poller_sync [OF infra_okD(6) [OF w] new(1) pl, of ?p ?w ?ch])
          (use infra_okD(5) [OF w] k(1) ep ch in \<open>auto simp: put_loop_def put_channel_def put_poller_def\<close>)
      have "infra_ok ep opn ?w"
        by (rule adds_loop_infra [OF w v new(1,2) _ ch(1,4-7) _ sync]) (use new(3) k ch(2) in auto)
      note en = enter_infra [OF os(1) this, of c ?ch "\<lambda>e. e OR kReadEvent"]
      have eq: "new_event_loop os l c w = change_events os (\<lambda>e. e OR kReadEvent) c ?w"
        using new(4) e e' f f'
        by (simp add: new_event_loop_def newDefaultPoller_def new_poller_def createEventfd_def Let_def channel_ops_change
            put_loop_def put_channel_def put_poller_def)
      have "starts (change_events os (\<lambda>e. e OR kReadEvent) c ?w) (\<lambda>v. infra_ok ep opn v \<and> (\<exists>p k.
          v = put_entry c (registered (\<lambda>e. e OR kReadEvent) ?ch) p k ?w \<and> pollers ?w (chLoop ?ch) = Some p \<and> opn k = opn (kern ?w)))"
        unfolding starts_def using en ch(3) by simp
      then show ?thesis
        unfolding eq
      proof (rule starts_mono, elim conjE exE)
        fix x p k assume x: "infra_ok ep opn x" "x = put_entry c (registered (\<lambda>e. e OR kReadEvent) ?ch) p k ?w"
        have "one_more l c w x"
          unfolding one_more_def x(2) by (auto simp: put_channel_def put_loop_def put_poller_def put_entry_def)
        with x(1) show "infra_ok ep opn x \<and> one_more l c w x" by blast
      qed
    qed
  qed
qed

subsection \<open>The server\<close>

text \<open>The process while it starts: a server without connections.\<close>

definition boot_ok :: "'k interest \<Rightarrow> ('k \<Rightarrow> fd set) \<Rightarrow> lid \<Rightarrow> ('k, 'z) server_world_scheme \<Rightarrow> bool" where
  "boot_ok ep opn l w \<longleftrightarrow> infra_ok ep opn w \<and> server_ok w \<and> in_thread l w"

lemma boot_okD:
  assumes "boot_ok ep opn l w"
  shows "infra_ok ep opn w" "server_ok w" "in_thread l w" "conns w = (\<lambda>_. None)"
  using assms by (simp_all add: boot_ok_def infra_ok_def)

lemma boot_world: "boot_ok ep opn l w \<Longrightarrow> world_ok ep opn l {} w"
  by (simp add: boot_ok_def infra_ok_def world_ok_def life_ok_def)

lemma serves_no_conns:
  assumes "conns w = (\<lambda>_. None)"
  shows "serves w s a \<longleftrightarrow> (\<exists>ch. chans w (aChan a) = Some ch \<and> chLoop ch = sLoop s) \<and>
     (\<forall>l \<in> insert (sLoop s) (set (ploops (threadPool s))). pollers w l \<noteq> None) \<and> baseLoop (threadPool s) = sLoop s \<and>
     connections s = []"
  using assms by (cases "connections s") (auto simp: serves_def)

lemma infra_same:
  assumes "conns w' = conns w" "chans w' = chans w" "pollers w' = pollers w" "loops w' = loops w" "kern w' = kern w"
    "theServer w' = theServer w" "theAcceptor w' = theAcceptor w"
  shows "infra_ok ep opn w' = infra_ok ep opn w"
  using chans_ok_cong [of w' w ep opn] conns_ok_cong [of w' w] loops_ok_cong [of w' w] assms by (simp add: infra_ok_def)

lemma server_ok_new:
  assumes "infra_ok ep opn w" "in_thread l w" "theServer w = None" "theAcceptor w = None" "chans w c' = None"
    and fd: "f \<notin> opn (kern w)" "opn k = insert f (opn (kern w))" "ep k = ep (kern w)"
    and a: "aChan a = c'" and s: "sLoop s = l" "threadPool s = new_pool l name" "connections s = []"
  defines "v \<equiv> put_server s (put_channel c' (setReadCallback AcceptorHandleRead (new_channel l f)) (w\<lparr>theAcceptor := Some a, kern := k\<rparr>))"
  shows "boot_ok ep opn l v"
proof -
  let ?ch = "setReadCallback AcceptorHandleRead (new_channel l f)"
  have ch: "chLoop ?ch = l" "chFd ?ch = f" "index ?ch = KNew" "readCallback ?ch = Some AcceptorHandleRead"
    "writeCallback ?ch = None" "closeCallback ?ch = None" "errorCallback ?ch = None"
    by (simp_all add: setReadCallback_def new_channel_def KNew_def)
  note i = infra_okD [OF assms(1)]
  have eq: "chans v = (chans w)(c' \<mapsto> ?ch)" "pollers v = pollers w" "conns v = (\<lambda>_. None)" "loops v = loops w"
    "curThread v = curThread w" "theServer v = Some s" "theAcceptor v = Some a" "kern v = k"
    using i(4) by (simp_all add: v_def put_channel_def put_server_def)
  obtain lp where lp: "loops w l = Some lp" "threadId lp = curThread w" using assms(2) by (auto simp: in_thread_def)
  have pl: "pollers w l \<noteq> None" using loops_okD(1) [OF i(3), of l] lp(1) by simp
  have sync: "poller_sync ep v"
    by (rule unknown_channel_sync [OF i(6), where c = c' and y = "Some ?ch"]) (use eq assms(5) fd(3) ch in auto)
  have "chans_ok ep opn v"
  proof -
    have old: "chFd z \<in> opn (kern w)" if "chans w e = Some z" for e z using i(1) that by (simp add: chans_ok_def)
    have a: "pollers v (chLoop x) \<noteq> None \<and> chFd x \<in> opn (kern v)" if "chans v d = Some x" for d x
      using that i(1) ch pl fd(2) by (cases "d = c'") (auto simp: eq chans_ok_def)
    have uni: "d = d'" if "chans w d = Some x" "chans w d' = Some y" "chFd x = chFd y" for d d' x y
      using i(1) that unfolding chans_ok_def by blast
    have b: "d = d'" if "chans v d = Some x" "chans v d' = Some y" "chFd x = chFd y" for d d' x y
      using that eq(1) ch(2) fd(1) old [of d x] old [of d' y] uni [of d x d' y] by (cases "d = c'"; cases "d' = c'") auto
    show ?thesis unfolding chans_ok_def using sync a b by blast
  qed
  moreover have "conns_ok v"
  proof -
    have old: "cb_ok v m d x \<and> x \<noteq> AcceptorHandleRead" if "cb_ok w m d x" for m d x
      using that i(4) assms(4) by (cases x) (simp_all add: cb_ok_def)
    have new: "cb_ok v l c' x" if "Some x \<in> callbacks_of ?ch" for x
      using that ch a eq(7) by (simp add: callbacks_of_def cb_ok_def)
    show ?thesis
      using i(2) new ch by (auto simp: conns_ok_def eq(1,3) old split: if_splits)
  qed
  moreover have "loops_ok {} v"
  proof -
    have "functor_ok m v f" if "functor_ok m w f" for m f
      using that no_conn_facts [OF i(4)] assms(3) by (cases f) (simp_all add: functor_ok_def base_loop_def)
    with i(3) show ?thesis unfolding loops_ok_def by (simp add: eq(2,4))
  qed
  moreover have "server_ok v"
    using serves_no_conns [OF eq(3), of s a] eq(1,2,6,7) a s pl ch by (simp add: server_ok_def new_pool_def)
  moreover have "in_thread l v" using lp by (simp add: in_thread_def eq(4,5))
  ultimately show ?thesis
    using i(5) fd(2) eq(2,3,8) by (simp add: boot_ok_def infra_ok_def)
qed

lemma new_server_starts:
  fixes w :: "('k, 'z) server_world_scheme"
  assumes os: "server_kernel os ep opn" "boot_kernel os ep opn" and w: "infra_ok ep opn w" "in_thread l w"
    "theServer w = None" "theAcceptor w = None" "chans w c' = None"
  shows "starts (new_server os ntop c' l addr name opt w) (\<lambda>v. boot_ok ep opn l v \<and> loops v = loops w \<and>
    dom (chans v) = insert c' (dom (chans w)) \<and> curThread v = curThread w \<and> loopInThisThread v = loopInThisThread w \<and>
    (\<exists>s. theServer v = Some s \<and> sLoop s = l \<and> \<not> started s \<and> nextConnId s = 1 \<and> threadPool s = new_pool l name))"
proof -
  obtain r k1 where g: "sys_socket os (kern w) = (r, k1)" by fastforce
  show ?thesis
  proof (cases r)
    case (Inl e)
    with g show ?thesis by (simp add: new_server_def new_acceptor_def createNonblocking_def)
  next
    case g': (Inr fd)
    have k1: "fd \<notin> opn (kern w)" "opn k1 = insert fd (opn (kern w))" "ep k1 = ep (kern w)"
      using os(2) g g' unfolding boot_kernel_def opens_fresh_def by (blast, blast, metis snd_conv)
    let ?k2 = "snd (sys_setsockopt os fd ReusePort (opt = kReusePort) (snd (sys_setsockopt os fd ReuseAddr True k1)))"
    obtain r3 k3 where bd: "sys_bind os fd addr ?k2 = (r3, k3)" by fastforce
    have "ep k3 = ep ?k2" "opn k3 = opn ?k2"
      using os(2) bd unfolding boot_kernel_def quiet_call_def by (metis snd_conv)+
    then have k3: "ep k3 = ep (kern w)" "opn k3 = insert fd (opn (kern w))"
      using k1 by (simp_all add: server_kernel_quiet [OF os(1)])
    show ?thesis
    proof (cases r3)
      case (Some e)
      with g g' bd show ?thesis
        by (simp add: new_server_def new_acceptor_def createNonblocking_def bindAddress_def setOption_def put_channel_def)
    next
      case None
      let ?a = "\<lparr>aLoop = l, aSock = fd, aChan = c', newConnectionSet = True, listenning = False\<rparr>"
      let ?s = "\<lparr>sLoop = l, ipPort = toIpPort ntop addr, sName = name, threadPool = new_pool l name,
           nextConnId = 1, started = False, connections = [], threadInitCallback = None,
           connectionCallback = None, messageCallback = None, writeCompleteCallback = None\<rparr>"
      let ?v = "put_server ?s (put_channel c' (setReadCallback AcceptorHandleRead (new_channel l fd)) (w\<lparr>theAcceptor := Some ?a, kern := k3\<rparr>))"
      have "new_server os ntop c' l addr name opt w = Inr ?v"
        using g g' bd None
        by (simp add: new_server_def new_acceptor_def createNonblocking_def bindAddress_def setOption_def Let_def
            with_acceptor_def setNewConnectionCallback_def put_server_def put_channel_def modify_channel_def with_channel_def)
      moreover have "boot_ok ep opn l ?v"
        by (rule server_ok_new [OF w]) (use k1 k3 in simp_all)
      ultimately show ?thesis by (simp add: put_channel_def put_server_def)
    qed
  qed
qed

text \<open>A new value of the server, with more loops in its pool.\<close>

lemma boot_server:
  assumes w: "boot_ok ep opn l w" and s: "theServer w = Some s"
    and same: "sLoop s' = sLoop s" "baseLoop (threadPool s') = baseLoop (threadPool s)" "connections s' = connections s"
    and pool: "\<And>m. m \<in> set (ploops (threadPool s')) \<Longrightarrow> pollers w m \<noteq> None"
  shows "boot_ok ep opn l (put_server s' w)"
proof -
  let ?v = "put_server s' w"
  note b = boot_okD [OF w] and i = infra_okD [OF boot_okD(1) [OF w]]
  have "base_loop m ?v = base_loop m w" for m using s same(1) by (simp add: base_loop_def)
  then have "loops_ok {} ?v"
    by (intro loops_ok_mono [OF i(3)]) (simp_all add: supports_def no_conn_facts [OF i(4)])
  moreover have "chans_ok ep opn ?v" "conns_ok ?v"
    using i(1,2) chans_ok_cong [of ?v w ep opn] conns_ok_cong [of ?v w] by simp_all
  moreover have "server_ok ?v"
  proof -
    from b(2) s obtain a where a: "theAcceptor w = Some a" "serves w s a" by (auto simp: server_ok_def)
    have e: "conns ?v = (\<lambda>_. None)" using b(4) by simp
    from a(2) have "serves ?v s' a"
      unfolding serves_no_conns [OF b(4)] serves_no_conns [OF e] using same pool by simp
    with a(1) show ?thesis by (simp add: server_ok_def)
  qed
  moreover have "in_thread l ?v" using b(3) by (simp add: in_thread_def)
  ultimately show ?thesis using i(4,5) by (simp add: boot_ok_def infra_ok_def)
qed

subsection \<open>The workers\<close>

text \<open>What a thread's initialisation callback may do: its own loop is there, and it throws nothing.\<close>

definition same_objects :: "('k, 'z) server_world_scheme \<Rightarrow> ('k, 'z) server_world_scheme \<Rightarrow> bool" where
  "same_objects w v \<longleftrightarrow> same_threads w v \<and> dom (chans v) = dom (chans w) \<and> theServer v = theServer w \<and>
     loopInThisThread v = loopInThisThread w"

definition init_keeps :: "'k interest \<Rightarrow> ('k \<Rightarrow> fd set) \<Rightarrow>
    (nat \<Rightarrow> lid \<Rightarrow> ('k, 'z) server_world_scheme \<Rightarrow> ('k, 'z) server_world_scheme result) \<Rightarrow> nat option \<Rightarrow> bool" where
  "init_keeps ep opn init cb \<longleftrightarrow>
     (\<forall>h l w. cb = Some h \<longrightarrow> boot_ok ep opn l w \<longrightarrow> starts (init h l w) (\<lambda>v. boot_ok ep opn l v \<and> same_objects w v))"

lemma init_keepsD:
  assumes "init_keeps ep opn init cb" "boot_ok ep opn l w"
  shows "starts (call (\<lambda>h. init h l) cb w) (\<lambda>v. boot_ok ep opn l v \<and> same_objects w v)"
  using assms by (cases cb) (simp_all add: call_def init_keeps_def same_objects_def same_threads_def)

lemma same_objectsD:
  assumes "same_objects w v"
  shows "curThread v = curThread w" "map_option threadId (loops v l) = map_option threadId (loops w l)"
    "dom (chans v) = dom (chans w)" "theServer v = theServer w" "loopInThisThread v = loopInThisThread w"
    "loops v l = None \<longleftrightarrow> loops w l = None"
proof -
  show t: "map_option threadId (loops v l) = map_option threadId (loops w l)" for l
    using assms by (simp add: same_objects_def same_threads_def)
  from t [of l] show "loops v l = None \<longleftrightarrow> loops w l = None" by (metis map_option_is_None)
qed (use assms in \<open>simp_all add: same_objects_def same_threads_def\<close>)

text \<open>The identities of the objects of the turns from \<open>i\<close> on: none is in use, and no two are the same.\<close>

definition tid_of :: "tid \<times> lid \<times> cid \<Rightarrow> tid" where "tid_of = fst"
definition lid_of :: "tid \<times> lid \<times> cid \<Rightarrow> lid" where "lid_of x = fst (snd x)"
definition cid_of :: "tid \<times> lid \<times> cid \<Rightarrow> cid" where "cid_of x = snd (snd x)"

definition unused :: "('k, 'z) server_world_scheme \<Rightarrow> tid \<times> lid \<times> cid \<Rightarrow> bool" where
  "unused w x \<longleftrightarrow> chans w (cid_of x) = None \<and> loops w (lid_of x) = None \<and> loopInThisThread w (tid_of x) = None \<and>
     (\<forall>m lm. loops w m = Some lm \<longrightarrow> threadId lm \<noteq> tid_of x)"

definition apart :: "tid \<times> lid \<times> cid \<Rightarrow> tid \<times> lid \<times> cid \<Rightarrow> bool" where
  "apart x y \<longleftrightarrow> tid_of x \<noteq> tid_of y \<and> lid_of x \<noteq> lid_of y \<and> cid_of x \<noteq> cid_of y"

definition all_apart :: "(tid \<times> lid \<times> cid) list \<Rightarrow> bool" where
  "all_apart xs \<longleftrightarrow> distinct (map tid_of xs) \<and> distinct (map lid_of xs) \<and> distinct (map cid_of xs)"

lemma all_apart_Cons: "all_apart (x # xs) \<Longrightarrow> all_apart xs \<and> (\<forall>y \<in> set xs. apart x y)"
  by (auto simp: all_apart_def apart_def)

text \<open>The state after a worker has published its loop.\<close>

definition joined :: "tid \<times> lid \<times> cid \<Rightarrow> ('k, 'z) server_world_scheme \<Rightarrow> ('k, 'z) server_world_scheme \<Rightarrow> bool" where
  "joined x w v \<longleftrightarrow> (\<exists>lp. loops v (lid_of x) = Some lp \<and> threadId lp = tid_of x) \<and>
     (\<forall>m. m \<noteq> lid_of x \<longrightarrow> map_option threadId (loops v m) = map_option threadId (loops w m)) \<and>
     dom (chans v) = insert (cid_of x) (dom (chans w)) \<and> theServer v = theServer w \<and>
     curThread v = curThread w \<and> loopInThisThread v = loopInThisThread w"

lemma joined_unused:
  assumes j: "joined x w v" and y: "unused w y" "apart x y"
  shows "unused v y"
proof -
  have "cid_of y \<notin> dom (chans v)" using j y by (auto simp: joined_def unused_def apart_def)
  moreover have m: "m = lid_of x \<or> map_option threadId (loops v m) = map_option threadId (loops w m)" for m
    using j by (auto simp: joined_def)
  have "loops v (lid_of y) = None" using m [of "lid_of y"] y by (auto simp: unused_def apart_def)
  moreover have "threadId lm \<noteq> tid_of y" if l: "loops v k = Some lm" for k lm
  proof (cases "k = lid_of x")
    case True
    with j l y(2) show ?thesis by (auto simp: joined_def apart_def)
  next
    case False
    with m [of k] l have "map_option threadId (loops w k) = Some (threadId lm)" by simp
    with y(1) show ?thesis by (auto simp: unused_def)
  qed
  ultimately show ?thesis using j y(1) by (auto simp: joined_def unused_def)
qed

lemma joined_loops: "joined x w v \<Longrightarrow> loops v m \<noteq> None \<longleftrightarrow> m = lid_of x \<or> loops w m \<noteq> None"
proof (cases "m = lid_of x")
  case False
  assume "joined x w v"
  with False have "map_option threadId (loops v m) = map_option threadId (loops w m)" by (simp add: joined_def)
  then have "loops v m = None \<longleftrightarrow> loops w m = None" by (metis map_option_is_None)
  with False show ?thesis by simp
qed (auto simp: joined_def)

lemma one_more_boot:
  assumes w: "boot_ok ep opn l0 w" and v: "infra_ok ep opn v" "one_more l c (w\<lparr>numCreated := n, curThread := t\<rparr>) v"
    and c: "chans w c = None"
  shows "boot_ok ep opn l v" "joined (t, l, c) w (v\<lparr>curThread := curThread w\<rparr>)"
proof -
  from v(2) obtain lp ch where o: "loops v = (loops w)(l \<mapsto> lp)" "threadId lp = t" "chans v = (chans w)(c \<mapsto> ch)"
    "theServer v = theServer w" "theAcceptor v = theAcceptor w" "curThread v = t" "loopInThisThread v = loopInThisThread w"
    "\<forall>m. pollers w m \<noteq> None \<longrightarrow> pollers v m \<noteq> None"
    by (auto simp: one_more_def)
  note b = boot_okD [OF w]
  from b(2) obtain s a where s: "theServer w = Some s" "theAcceptor w = Some a" "serves w s a" by (auto simp: server_ok_def)
  have "serves v s a"
    using s(3) c o(3,8) unfolding serves_no_conns [OF b(4)] serves_no_conns [OF infra_okD(4) [OF v(1)]] by auto
  with s o(4,5) have "server_ok v" by (simp add: server_ok_def)
  with v(1) o(1,2,6) show "boot_ok ep opn l v" by (simp add: boot_ok_def in_thread_def)
  show "joined (t, l, c) w (v\<lparr>curThread := curThread w\<rparr>)"
    using o by (simp add: joined_def tid_of_def lid_of_def cid_of_def)
qed

lemma startLoop_starts:
  fixes w :: "('k, 'z) server_world_scheme"
  assumes os: "server_kernel os ep opn" "boot_kernel os ep opn" and init: "init_keeps ep opn init (initCallback el)"
    and w: "boot_ok ep opn l0 w" and x: "unused w x"
  shows "\<exists>r. startLoop os init x el (w\<lparr>numCreated := n\<rparr>) = Some r \<and>
    starts r (\<lambda>(l, el', v). l = lid_of x \<and> boot_ok ep opn l0 v \<and> joined x w v)"
proof -
  obtain t l c where tlc: "x = (t, l, c)" by (cases x)
  have new: "chans w c = None" "loops w l = None" "loopInThisThread w t = None"
    "\<And>m lm. loops w m = Some lm \<Longrightarrow> threadId lm \<noteq> t"
    using x by (auto simp: tlc unused_def tid_of_def lid_of_def cid_of_def)
  let ?w = "w\<lparr>numCreated := n, curThread := t\<rparr>"
  have same: "infra_ok ep opn ?w" using boot_okD(1) [OF w] infra_same [of ?w w] by simp
  let ?P = "\<lambda>v. boot_ok ep opn l0 (v\<lparr>curThread := curThread w\<rparr>) \<and> joined x w (v\<lparr>curThread := curThread w\<rparr>)"
  have pro: "starts (threadFunc_prologue os init l c (initCallback el) ?w) ?P"
    unfolding threadFunc_prologue_def
  proof (rule starts_andThen [OF new_event_loop_starts [OF os same]])
    fix v assume v: "infra_ok ep opn v \<and> one_more l c ?w v"
    then have bv: "boot_ok ep opn l v" and jv: "joined (t, l, c) w (v\<lparr>curThread := curThread w\<rparr>)"
      using one_more_boot [OF w _ _ new(1)] by blast+
    show "starts (call (\<lambda>h. init h l) (initCallback el) v) ?P"
    proof (rule starts_mono [OF init_keepsD [OF init bv]], elim conjE)
      fix u assume u: "boot_ok ep opn l u" "same_objects v u"
      note so = same_objectsD [OF u(2)]
      have j: "joined x w (u\<lparr>curThread := curThread w\<rparr>)"
      proof -
        from so(2) [of l] jv have "\<exists>lp. loops u l = Some lp \<and> threadId lp = t"
          by (auto simp: joined_def tid_of_def lid_of_def)
        with jv so show ?thesis by (simp add: joined_def tlc tid_of_def lid_of_def cid_of_def)
      qed
      obtain lp0 where lp0: "loops w l0 = Some lp0" "threadId lp0 = curThread w"
        using boot_okD(3) [OF w] by (auto simp: in_thread_def)
      with new(2) have "l0 \<noteq> l" by auto
      with j lp0 have "map_option threadId (loops u l0) = Some (curThread w)"
        by (simp add: joined_def tlc lid_of_def)
      then have "in_thread l0 (u\<lparr>curThread := curThread w\<rparr>)" by (auto simp: in_thread_def)
      moreover have "server_ok (u\<lparr>curThread := curThread w\<rparr>)"
        using boot_okD(2) [OF u(1)] server_ok_cong [of "u\<lparr>curThread := curThread w\<rparr>" u] by simp
      moreover have "infra_ok ep opn (u\<lparr>curThread := curThread w\<rparr>)"
        using boot_okD(1) [OF u(1)] infra_same [of "u\<lparr>curThread := curThread w\<rparr>" u] by simp
      ultimately show "?P u" using j by (simp add: boot_ok_def)
    qed
  qed (use new in auto)
  show ?thesis
  proof (cases "threadFunc_prologue os init l c (initCallback el) ?w")
    case (Inl e)
    with pro show ?thesis
      by (cases e) (auto simp: startLoop_def tlc starts_def)
  next
    case (Inr v)
    with pro show ?thesis by (simp add: startLoop_def tlc lid_of_def)
  qed
qed

text \<open>The workers one after the other.\<close>

lemma start_threads_starts:
  fixes w :: "('k, 'z) server_world_scheme"
  assumes os: "server_kernel os ep opn" "boot_kernel os ep opn" and init: "init_keeps ep opn init cb"
  shows "boot_ok ep opn l w \<Longrightarrow> (\<forall>j \<in> {i..<i + n}. unused w (ids j)) \<Longrightarrow> all_apart (map ids [i..<i + n]) \<Longrightarrow>
    set (ploops p) \<subseteq> dom (loops w) \<Longrightarrow>
    \<exists>r. start_threads os init ids cb n i p w = Some r \<and> starts r (\<lambda>(p', v). boot_ok ep opn l v \<and> theServer v = theServer w \<and>
      dom (loops v) = dom (loops w) \<union> lid_of ` ids ` {i..<i + n} \<and>
      set (ploops p') \<subseteq> dom (loops v) \<and> baseLoop p' = baseLoop p \<and> numThreads p' = numThreads p)"
proof (induction n arbitrary: i p w)
  case 0
  then show ?case by simp
next
  case (Suc n)
  obtain el n' where el: "new_event_loop_thread cb (poolName p @ decimal i) w = (el, w\<lparr>numCreated := n'\<rparr>)" "initCallback el = cb"
    by (auto simp: new_event_loop_thread_def new_thread_def Let_def)
  have "unused w (ids i)" using Suc.prems(2) by simp
  from startLoop_starts [OF os _ Suc.prems(1) this, of init el n'] init el(2) obtain r where
    r: "startLoop os init (ids i) el (w\<lparr>numCreated := n'\<rparr>) = Some r"
      "starts r (\<lambda>(l', el', v). l' = lid_of (ids i) \<and> boot_ok ep opn l v \<and> joined (ids i) w v)" by blast
  show ?case
  proof (cases r)
    case (Inl e)
    with r el show ?thesis by (simp add: Let_def starts_def)
  next
    case (Inr x)
    obtain l' el' v where x: "x = (l', el', v)" by (cases x)
    with r(2) Inr have v: "l' = lid_of (ids i)" "boot_ok ep opn l v" "joined (ids i) w v" by simp_all
    let ?p = "p\<lparr>threads := threads p @ [el'], ploops := ploops p @ [l']\<rparr>"
    have upt: "[i..<i + Suc n] = i # [Suc i..<Suc i + n]" by (simp add: upt_rec)
    have ap: "all_apart (map ids [Suc i..<Suc i + n])" "\<forall>j \<in> {Suc i..<Suc i + n}. apart (ids i) (ids j)"
      using all_apart_Cons [of "ids i" "map ids [Suc i..<Suc i + n]"] Suc.prems(3) unfolding upt by auto
    have un: "\<forall>j \<in> {Suc i..<Suc i + n}. unused v (ids j)"
      using joined_unused [OF v(3)] Suc.prems(2) ap(2) by simp
    have lo: "dom (loops v) = insert (lid_of (ids i)) (dom (loops w))"
      using joined_loops [OF v(3)] unfolding dom_def by blast
    have pl: "set (ploops ?p) \<subseteq> dom (loops v)" using Suc.prems(4) lo v(1) by auto
    have range: "lid_of ` ids ` {i..<i + Suc n} = insert (lid_of (ids i)) (lid_of ` ids ` {Suc i..<Suc i + n})"
    proof -
      have "{i..<i + Suc n} = insert i {Suc i..<Suc i + n}" by auto
      then show ?thesis by simp
    qed
    have "theServer v = theServer w" using v(3) by (simp add: joined_def)
    with Suc.IH [OF v(2) un ap(1) pl] have "\<exists>r. start_threads os init ids cb n (Suc i) ?p v = Some r \<and>
      starts r (\<lambda>(p', u). boot_ok ep opn l u \<and> theServer u = theServer w \<and>
        dom (loops u) = dom (loops w) \<union> lid_of ` ids ` {i..<i + Suc n} \<and>
        set (ploops p') \<subseteq> dom (loops u) \<and> baseLoop p' = baseLoop p \<and> numThreads p' = numThreads p)"
      unfolding range by (elim exE conjE) (rule exI, rule conjI, assumption, erule starts_mono, simp add: lo split: prod.splits)
    with r(1) Inr x el show ?thesis by (simp add: Let_def)
  qed
qed

lemma pool_start_starts:
  fixes w :: "('k, 'z) server_world_scheme"
  assumes os: "server_kernel os ep opn" "boot_kernel os ep opn" and init: "init_keeps ep opn init cb"
    and w: "boot_ok ep opn l w" and p: "0 \<le> numThreads p" "ploops p = []" "baseLoop p = l"
    and ids: "\<forall>j < nat (numThreads p). unused w (ids j)" "all_apart (map ids [0..<nat (numThreads p)])"
  shows "\<exists>r. pool_start os init ids cb p w = Some r \<and> starts r (\<lambda>(p', v). boot_ok ep opn l v \<and> theServer v = theServer w \<and>
      dom (loops v) = dom (loops w) \<union> lid_of ` ids ` {0..<nat (numThreads p)} \<and>
      set (ploops p') \<subseteq> dom (loops v) \<and> baseLoop p' = l)"
proof -
  let ?p = "p\<lparr>poolStarted := True\<rparr>" and ?n = "nat (numThreads p)"
  let ?P = "\<lambda>(p', v). boot_ok ep opn l v \<and> theServer v = theServer w \<and>
      dom (loops v) = dom (loops w) \<union> lid_of ` ids ` {0..<?n} \<and> set (ploops p') \<subseteq> dom (loops v) \<and> baseLoop p' = l"
  have "\<forall>j \<in> {0..<0 + ?n}. unused w (ids j)" "all_apart (map ids [0..<0 + ?n])" "set (ploops ?p) \<subseteq> dom (loops w)"
    using ids p(2) by auto
  from start_threads_starts [OF os init w this] obtain r where
    r: "start_threads os init ids cb ?n 0 ?p w = Some r" "starts r (\<lambda>(p', v). boot_ok ep opn l v \<and> theServer v = theServer w \<and>
      dom (loops v) = dom (loops w) \<union> lid_of ` ids ` {0..<0 + ?n} \<and> set (ploops p') \<subseteq> dom (loops v) \<and>
      baseLoop p' = baseLoop ?p \<and> numThreads p' = numThreads ?p)" by blast
  from r(2) have r2: "starts r ?P" by (rule starts_mono) (auto simp: p(3))
  show ?thesis
  proof (cases r)
    case (Inl e)
    with r(1) r2 p(1) show ?thesis by (simp add: pool_start_def Let_def starts_def)
  next
    case (Inr x)
    obtain p' v where x: "x = (p', v)" by (cases x)
    with r2 Inr have v: "?P (p', v)" by (simp only: starts_simps)
    then have vv: "theServer v = theServer w" "dom (loops v) = dom (loops w) \<union> lid_of ` ids ` {0..<?n}"
      "set (ploops p') \<subseteq> dom (loops v)" "baseLoop p' = l" and bv: "boot_ok ep opn l v"
      unfolding prod.case by blast+
    have "starts (if numThreads p' = 0 then andThen (call (\<lambda>h. init h (baseLoop p')) cb v) (\<lambda>w. Inr (p', w)) else Inr (p', v)) ?P"
    proof (cases "numThreads p' = 0")
      case True
      have "starts (andThen (call (\<lambda>h. init h l) cb v) (\<lambda>w. Inr (p', w))) ?P"
      proof (rule starts_andThen [OF init_keepsD [OF init bv]])
        fix u assume u: "boot_ok ep opn l u \<and> same_objects v u"
        then have "dom (loops u) = dom (loops v)" using same_objectsD(6) [of v u] by (simp add: dom_def)
        with u vv same_objectsD(4) [of v u] show "starts (Inr (p', u)) ?P" by simp
      qed
      with True vv(4) show ?thesis by simp
    qed (use vv bv in simp)
    with r(1) Inr x p(1) show ?thesis by (simp add: pool_start_def Let_def)
  qed
qed

subsection \<open>The whole start\<close>

definition blank :: "('k, 'z) server_world_scheme \<Rightarrow> bool" where
  "blank w \<longleftrightarrow> chans w = (\<lambda>_. None) \<and> pollers w = (\<lambda>_. None) \<and> loops w = (\<lambda>_. None) \<and> conns w = (\<lambda>_. None) \<and>
     theServer w = None \<and> theAcceptor w = None \<and> loopInThisThread w = (\<lambda>_. None)"

lemma blank_infra: "blank w \<Longrightarrow> infra_ok ep opn w"
  by (simp add: blank_def infra_ok_def chans_ok_def poller_sync_def conns_ok_def loops_ok_def)

text \<open>
  A program with a server: it builds the loop and the server, sets the callbacks and the number of threads, and
  starts it. \<open>ids\<close> are the threads and objects of the workers.
\<close>

definition start_server :: "'k os \<Rightarrow> (32 word \<Rightarrow> string option) \<Rightarrow> lid \<Rightarrow> cid \<Rightarrow> cid \<Rightarrow> sockaddr \<Rightarrow> string \<Rightarrow> reuse_option \<Rightarrow>
    size_t \<Rightarrow> nat option \<Rightarrow> nat option \<Rightarrow> nat option \<Rightarrow> nat option \<Rightarrow>
    (nat \<Rightarrow> lid \<Rightarrow> ('k, 'z) server_world_scheme \<Rightarrow> ('k, 'z) server_world_scheme result) \<Rightarrow>
    (nat \<Rightarrow> tid \<times> lid \<times> cid) \<Rightarrow> ('k, 'z) server_world_scheme \<Rightarrow> ('k, 'z) server_world_scheme result option" where
  "start_server os ntop l c c' addr name opt n onInit onConn onMsg onDone init ids w =
     (case andThen (new_event_loop os l c w) (\<lambda>w.
           andThen (new_server os ntop c' l addr name opt w) (\<lambda>w.
           with_server w (\<lambda>s. Inr (put_server (server_setThreadNum n (setThreadInitCallback onInit
             (server_setWriteCompleteCallback onDone (server_setMessageCallback onMsg
             (server_setConnectionCallback onConn s))))) w)))) of
        Inl e \<Rightarrow> Some (Inl e)
      | Inr w \<Rightarrow> server_start os init ids w)"

text \<open>The loops of the process, the server's first.\<close>

definition all_loops :: "lid \<Rightarrow> nat \<Rightarrow> (nat \<Rightarrow> tid \<times> lid \<times> cid) \<Rightarrow> lid list" where
  "all_loops l n ids = l # map (\<lambda>i. lid_of (ids i)) [0..<n]"

definition ids_ok :: "lid \<Rightarrow> cid \<Rightarrow> cid \<Rightarrow> nat \<Rightarrow> (nat \<Rightarrow> tid \<times> lid \<times> cid) \<Rightarrow> tid \<Rightarrow> bool" where
  "ids_ok l c c' n ids t \<longleftrightarrow> c' \<noteq> c \<and> all_apart (map ids [0..<n]) \<and>
     (\<forall>x \<in> ids ` {0..<n}. tid_of x \<noteq> t \<and> lid_of x \<noteq> l \<and> cid_of x \<noteq> c \<and> cid_of x \<noteq> c')"

text \<open>Nobody is connected yet, and the server will give new connections the callback \<open>cb\<close>.\<close>

definition vacant :: "nat option \<Rightarrow> ('k, 'z) server_world_scheme \<Rightarrow> bool" where
  "vacant cb w \<longleftrightarrow> conns w = (\<lambda>_. None) \<and> (\<exists>s. theServer w = Some s \<and> connectionCallback s = cb)"

interpretation sx: reactor_relation os "\<lambda>w w'. conns w' = conns w \<and> theServer w' = theServer w" for os
  by unfold_locales (simp_all add: put_channel_def put_poller_def)

lemma acceptor_listen_vacant:
  assumes "acceptor_listen os w = Inr w'"
  shows "vacant cb w' = vacant cb w"
proof -
  from assms obtain a k where "enableReading os (aChan a) (w\<lparr>theAcceptor := Some (a\<lparr>listenning := True\<rparr>), kern := k\<rparr>) = Inr w'"
    by (auto simp: acceptor_listen_def with_acceptor_def socket_listen_def Let_def andThen_Inr_iff split: option.splits prod.splits)
  then have "conns w' = conns (w\<lparr>theAcceptor := Some (a\<lparr>listenning := True\<rparr>), kern := k\<rparr>) \<and>
      theServer w' = theServer (w\<lparr>theAcceptor := Some (a\<lparr>listenning := True\<rparr>), kern := k\<rparr>)"
    unfolding channel_ops_change by (rule sx.change)
  then show ?thesis by (simp add: vacant_def)
qed

lemma defined_and: "defined r P \<Longrightarrow> (\<And>x. r = Inr x \<Longrightarrow> Q x) \<Longrightarrow> defined r (\<lambda>x. P x \<and> Q x)"
  by (cases r) simp_all

lemma server_start_safe:
  fixes w :: "('k, 'z) server_world_scheme"
  assumes os: "server_kernel os ep opn" "boot_kernel os ep opn" and init: "init_keeps ep opn init (threadInitCallback s)"
    and w: "boot_ok ep opn l w" and s: "theServer w = Some s" "sLoop s = l" "\<not> started s" "nextConnId s = 1"
    and p: "threadPool s = setThreadNum (int n) (new_pool l name)"
    and ids: "\<forall>j < n. unused w (ids j)" "all_apart (map ids [0..<n])" and one: "dom (loops w) = {l}"
  shows "\<exists>r. server_start os init ids w = Some r \<and>
    defined r (\<lambda>v. (sys_ok ep opn (all_loops l n ids) l (v, \<lambda>_. Idle) \<and> next_id v = 1) \<and> vacant (connectionCallback s) v)"
proof -
  let ?w = "put_server (s\<lparr>started := True\<rparr>) w"
  have pool: "0 \<le> numThreads (threadPool s)" "ploops (threadPool s) = []" "baseLoop (threadPool s) = l"
    "numThreads (threadPool s) = int n" by (simp_all add: p setThreadNum_def new_pool_def)
  have bw: "boot_ok ep opn l ?w" by (rule boot_server [OF w s(1)]) (use pool in simp_all)
  have un: "unused ?w x = unused w x" for x by (simp add: unused_def put_server_def)
  from pool_start_starts [OF os init bw pool(1-3), of ids] obtain r where
    r: "pool_start os init ids (threadInitCallback s) (threadPool s) ?w = Some r"
      "starts r (\<lambda>(p', v). boot_ok ep opn l v \<and> theServer v = theServer ?w \<and>
      dom (loops v) = dom (loops w) \<union> lid_of ` ids ` {0..<n} \<and> set (ploops p') \<subseteq> dom (loops v) \<and> baseLoop p' = l)"
    using ids by (auto simp: un pool(4))
  show ?thesis
  proof (cases r)
    case (Inl e)
    with r s show ?thesis by (simp add: server_start_def exchange_started_def server_launch_def Let_def starts_def)
  next
    case (Inr x)
    obtain p' v where x: "x = (p', v)" by (cases x)
    with r(2) Inr have v: "boot_ok ep opn l v" "theServer v = Some (s\<lparr>started := True\<rparr>)" "baseLoop p' = l"
      and lo: "dom (loops v) = dom (loops w) \<union> lid_of ` ids ` {0..<n}" and pl: "set (ploops p') \<subseteq> dom (loops v)"
      by auto
    let ?u = "put_server (s\<lparr>started := True, threadPool := p'\<rparr>) v"
    have bu: "boot_ok ep opn l ?u"
    proof (rule boot_server [OF v(1,2)])
      show "pollers v m \<noteq> None" if "m \<in> set (ploops (threadPool (s\<lparr>started := True, threadPool := p'\<rparr>)))" for m
        using pl that loops_okD(1) [OF infra_okD(3) [OF boot_okD(1) [OF v(1)]], of m] by auto
    qed (use v(3) pool(3) in simp_all)
    note u = boot_world [OF bu]
    have "server_start os init ids w = Some (acceptor_listen os ?u)"
      using s r(1) Inr x by (simp add: server_start_def exchange_started_def server_launch_def Let_def run_here(1) [OF u])
    moreover have "defined (acceptor_listen os ?u) (\<lambda>v. sys_ok ep opn (all_loops l n ids) l (v, \<lambda>_. Idle) \<and> next_id v = 1)"
    proof (rule defined_mono [OF acceptor_listen_step [OF os(1) u, unfolded step_ok_def]], elim conjE, intro conjI)
      fix y assume y: "world_ok ep opn l {} y" "grows ?u y" "next_id y = next_id ?u"
      show "next_id y = 1" using y(3) s(4) by (simp add: next_id_def)
      show "sys_ok ep opn (all_loops l n ids) l (y, \<lambda>_. Idle)"
      proof (rule sys_okI)
        show "world_ok ep opn l (todos (\<lambda>_. Idle)) y" using y(1) by (simp add: todos_def)
        have "all_owned (\<lambda>_. Idle) ?u" by (simp add: all_owned_def boot_okD(4) [OF v(1)])
        then show "all_owned (\<lambda>_. Idle) y" by (rule all_owned_grows [OF _ y(2)])
        have "set (all_loops l n ids) = dom (loops v)" by (auto simp: all_loops_def lo one)
        then show "loops y m \<noteq> None \<longleftrightarrow> m \<in> set (all_loops l n ids)" for m
          using same_loopsD(1) [OF growsD(7) [OF y(2)], of m] by (simp add: dom_def)
        have "accepts l ?u" using accepts_base [OF u] s(2) by (simp add: base_loop_def)
        then show "accepts l y" by (rule accepts_grows [OF _ y(2)])
      qed simp_all
    qed
    then have "defined (acceptor_listen os ?u) (\<lambda>v. (sys_ok ep opn (all_loops l n ids) l (v, \<lambda>_. Idle) \<and> next_id v = 1) \<and>
        vacant (connectionCallback s) v)"
    proof (rule defined_and)
      fix y assume "acceptor_listen os ?u = Inr y"
      from acceptor_listen_vacant [OF this] boot_okD(4) [OF bu] show "vacant (connectionCallback s) y"
        by (simp add: vacant_def put_server_def)
    qed
    ultimately show ?thesis by blast
  qed
qed

text \<open>\<open>setThreadNum\<close> keeps numbers that fit into an \<open>int\<close>.\<close>

lemma sint_small:
  fixes n :: size_t
  assumes n: "unat n < 2 ^ 31"
  shows "sint (ucast n :: 32 word) = int (unat n)"
proof -
  have i: "int (unat n) = uint n" by (rule uint_nat [symmetric])
  have u: "uint n < 2 ^ 31" unfolding i [symmetric] using n by (metis of_nat_less_iff of_nat_numeral of_nat_power)
  have a: "uint (ucast n :: 32 word) = uint n"
    using u by (simp add: unsigned_ucast_eq take_bit_int_eq_self)
  have "- (2 ^ 31) \<le> uint n" by (rule order_trans [OF _ unsigned_greater_eq]) simp
  then have "signed_take_bit 31 (uint n) = uint n"
    by (rule signed_take_bit_int_eq_self) (use u in simp)
  then show ?thesis by (simp add: sint_uint a i)
qed

lemma start_server_safe:
  fixes w :: "('k, 'z) server_world_scheme"
  assumes os: "server_kernel os ep opn" "boot_kernel os ep opn" and init: "init_keeps ep opn init onInit"
    and w: "blank w" and n: "unat n < 2 ^ 31" and ids: "ids_ok l c c' (unat n) ids (curThread w)"
  shows "\<exists>r. start_server os ntop l c c' addr name opt n onInit onConn onMsg onDone init ids w = Some r \<and>
    defined r (\<lambda>v. (sys_ok ep opn (all_loops l (unat n) ids) l (v, \<lambda>_. Idle) \<and> next_id v = 1) \<and> vacant onConn v)"
proof -
  note b = w [unfolded blank_def]
  let ?set = "\<lambda>s. server_setThreadNum n (setThreadInitCallback onInit
    (server_setWriteCompleteCallback onDone (server_setMessageCallback onMsg (server_setConnectionCallback onConn s))))"
  note num = sint_small [OF n]
  have set: "sLoop (?set s) = sLoop s" "threadPool (?set s) = setThreadNum (int (unat n)) (threadPool s)"
      "nextConnId (?set s) = nextConnId s" "connections (?set s) = connections s" "started (?set s) = started s"
      "threadInitCallback (?set s) = onInit" "connectionCallback (?set s) = onConn"
      "baseLoop (threadPool (?set s)) = baseLoop (threadPool s)" "ploops (threadPool (?set s)) = ploops (threadPool s)" for s
    by (simp_all add: server_setWriteCompleteCallback_def server_setMessageCallback_def server_setConnectionCallback_def
        setThreadInitCallback_def server_setThreadNum_def num setThreadNum_def)
  let ?P = "\<lambda>v. boot_ok ep opn l v \<and> dom (loops v) = {l} \<and> (\<forall>j < unat n. unused v (ids j)) \<and>
    (\<exists>s. theServer v = Some s \<and> sLoop s = l \<and> \<not> started s \<and> nextConnId s = 1 \<and>
      threadPool s = setThreadNum (int (unat n)) (new_pool l name) \<and> threadInitCallback s = onInit \<and> connectionCallback s = onConn)"
  have "starts (andThen (new_event_loop os l c w) (\<lambda>w. andThen (new_server os ntop c' l addr name opt w) (\<lambda>w.
      with_server w (\<lambda>s. Inr (put_server (?set s) w))))) ?P" (is "starts ?r _")
  proof (rule starts_andThen [OF new_event_loop_starts [OF os blank_infra [OF w]]])
    fix v assume v: "infra_ok ep opn v \<and> one_more l c w v"
    then obtain lp ch where o: "loops v = (loops w)(l \<mapsto> lp)" "threadId lp = curThread w" "chans v = (chans w)(c \<mapsto> ch)"
      "theServer v = None" "theAcceptor v = None" "curThread v = curThread w" "loopInThisThread v = (\<lambda>_. None)"
      using b by (auto simp: one_more_def)
    have th: "in_thread l v" using o(1,2,6) by (simp add: in_thread_def)
    have c': "chans v c' = None" using o(3) b ids by (simp add: ids_ok_def)
    show "starts (andThen (new_server os ntop c' l addr name opt v) (\<lambda>w. with_server w (\<lambda>s. Inr (put_server (?set s) w)))) ?P"
    proof (rule starts_andThen [OF new_server_starts [OF os conjunct1 [OF v] th o(4,5) c']], elim conjE exE)
      fix u s assume u: "boot_ok ep opn l u" "loops u = loops v" "dom (chans u) = insert c' (dom (chans v))"
        "curThread u = curThread v" "loopInThisThread u = loopInThisThread v"
        and s: "theServer u = Some s" "sLoop s = l" "\<not> started s" "nextConnId s = 1" "threadPool s = new_pool l name"
      have "boot_ok ep opn l (put_server (?set s) u)"
        by (rule boot_server [OF u(1) s(1)]) (use set s(5) in \<open>simp_all add: new_pool_def setThreadNum_def\<close>)
      moreover have "unused u (ids j)" if "j < unat n" for j
      proof -
        from ids that have j: "tid_of (ids j) \<noteq> curThread w" "lid_of (ids j) \<noteq> l" "cid_of (ids j) \<noteq> c" "cid_of (ids j) \<noteq> c'"
          by (auto simp: ids_ok_def)
        have "cid_of (ids j) \<notin> dom (chans u)" using j b o(3) u(3) by simp
        then have "chans u (cid_of (ids j)) = None" by blast
        with j o(1,2,7) b u(2,5) show ?thesis by (auto simp: unused_def split: if_splits)
      qed
      then have "\<forall>j < unat n. unused (put_server (?set s) u) (ids j)" by (simp add: unused_def put_server_def)
      ultimately show "starts (with_server u (\<lambda>s. Inr (put_server (?set s) u))) ?P"
        using s set u(2) o(1) b by (simp add: with_server_def)
    qed
  qed (use b in simp_all)
  note P = this
  show ?thesis
  proof (cases ?r)
    case (Inl e)
    with P show ?thesis by (simp add: start_server_def starts_def)
  next
    case (Inr v)
    with P have v: "?P v" by simp
    then obtain s where s: "theServer v = Some s" "sLoop s = l" "\<not> started s" "nextConnId s = 1"
      "threadPool s = setThreadNum (int (unat n)) (new_pool l name)" "threadInitCallback s = onInit" "connectionCallback s = onConn" by blast
    have "all_apart (map ids [0..<unat n])" using ids by (simp add: ids_ok_def)
    with server_start_safe [OF os _ _ s(1-5), of init ids] init s(6,7) v Inr show ?thesis by (simp add: start_server_def)
  qed
qed

end
