(* ===== verification/SafetyStart.thy ===== *)
theory SafetyStart
  imports MemorySafety SafetyBoot EchoServer
begin

unbundle bit_operations_syntax

text \<open>
  A server with one loop as a special case, and the echo application, which keeps the invariant.
\<close>

subsection \<open>The echo application\<close>

lemma ok_same:
  assumes "conns w' = conns w" "chans w' = chans w" "pollers w' = pollers w" "loops w' = loops w" "kern w' = kern w"
    "curThread w' = curThread w" "theServer w' = theServer w" "theAcceptor w' = theAcceptor w"
  shows "world_ok ep opn l T w' = world_ok ep opn l T w"
  using chans_ok_cong [of w' w ep opn] conns_ok_cong [of w' w] server_ok_cong [of w' w] loops_ok_cong [of w' w]
    life_ok_cong [of w' w] in_thread_cong [of w' w] assms by (simp add: world_ok_def)

lemma step_same:
  assumes w: "world_ok ep opn l T w"
    and same: "conns w' = conns w" "chans w' = chans w" "pollers w' = pollers w" "loops w' = loops w" "kern w' = kern w"
    "curThread w' = curThread w" "theServer w' = theServer w" "theAcceptor w' = theAcceptor w"
  shows "step_ok ep opn l T w (Inr w')"
proof -
  have "grows w w'" by (rule grows_simple) (use same in \<open>simp_all add: same_loops_eq\<close>)
  with w ok_same [OF same] same show ?thesis by (simp add: step_ok_def next_id_def)
qed

lemma echo_keeps:
  assumes os: "server_kernel os ep opn"
  shows "app_keeps ep opn l (echo_app os :: ('k, 'z) echo_world_scheme app)"
proof -
  have con: "step_ok ep opn l T w (onConnection_echo i w)" if w: "world_ok ep opn l T w" "mine l w i"
    for T i and w :: "('k, 'z) echo_world_scheme"
  proof -
    obtain co where co: "conns w i = Some co" using mineD [OF w(2)] .
    have "step_ok ep opn l T w (Inr (w\<lparr>upDown := upDown w @ [(i, connected co)]\<rparr>))"
      by (rule step_same [OF w(1)]) simp_all
    with co show ?thesis by (simp add: onConnection_echo_def)
  qed
  have msg: "step_ok ep opn l T w (onMessage_echo os i t w)" if w: "world_ok ep opn l T w" "mine l w i"
    for T i t and w :: "('k, 'z) echo_world_scheme"
  proof -
    obtain co where co: "conns w i = Some co" "cState co \<noteq> Connecting" using mineD [OF w(2)] .
    obtain m bf where m: "retrieveAllAsString (inputBuffer co) = (m, bf)" by fastforce
    have b: "buffer_inv (inputBuffer co)" "buffer_inv (outputBuffer co)" using ok_bufs [OF w(1) co(1)] by simp_all
    with retrieveAllAsString_ok [OF b(1)] m have mb: "m = contents (inputBuffer co)" "buffer_inv bf" by simp_all
    have len: "length m \<le> max_size"
      using contents_bound [OF b(1)] b(1) mb(1) by (auto simp: buffer_inv_def)
    let ?v = "put_conn i (co\<lparr>inputBuffer := bf\<rparr>) w"
    have v: "step_ok ep opn l T w (Inr ?v)"
      by (rule step_conn [OF w(1) co(1)]) (use b mb in \<open>simp_all add: conn_twin_def closing_def\<close>)
    have "step_ok ep opn l T w (andThen (Inr ?v) (\<lambda>v. andThen (send os m i v) (shutdown os i)))"
    proof (rule step_ok_andThen [OF v])
      fix x assume x: "(Inr ?v :: ('k, 'z) echo_world_scheme result) = Inr x" "world_ok ep opn l T x" "grows w x"
      note xi = growsD(3) [OF x(3) w(2)]
      show "step_ok ep opn l T x (andThen (send os m i x) (shutdown os i))"
      proof (rule step_ok_andThen [OF send_step [OF os x(2) xi len]])
        fix y assume y: "world_ok ep opn l T y" "grows x y"
        show "step_ok ep opn l T y (shutdown os i y)"
          by (rule shutdown_step [OF os y(1) growsD(3) [OF y(2) xi]])
      qed
    qed
    with co m show ?thesis by (simp add: onMessage_echo_def)
  qed
  show ?thesis
    unfolding app_keeps_def using con msg by (auto simp: echo_app_def step_ok_Inr)
qed

subsection \<open>One loop\<close>

lemma sys_solo:
  assumes s: "sys_ok ep opn [l] l (w, \<lambda>_. Idle)"
  shows "safe_state ep opn l w"
proof -
  have t: "todos (\<lambda>_. Idle) = {}" by (simp add: todos_def)
  from sys_okD(1) [OF s] obtain m where m: "world_ok ep opn m {} w" unfolding t by blast
  obtain lp where "loops w m = Some lp" using ok_loop [OF m] .
  then have "m = l" using sys_okD(4) [OF s, of m] by simp
  with m sys_okD(3,4) [OF s] show ?thesis
    by (auto simp: safe_state_def solo_def all_owned_def owned_or_def batched_def)
qed

text \<open>A server started with no worker threads.\<close>

lemma start_solo_safe:
  fixes w :: "('k, 'z) server_world_scheme"
  assumes os: "server_kernel os ep opn" "boot_kernel os ep opn" and w: "blank w" and c': "c' \<noteq> c"
  shows "\<exists>r. start_server os ntop l c c' addr name opt 0 None onConn onMsg onDone init ids w = Some r \<and>
    defined r (\<lambda>w'. safe_state ep opn l w' \<and> next_id w' = 1)"
proof -
  have i: "init_keeps ep opn init None" "unat (0 :: size_t) < 2 ^ 31" by (simp_all add: init_keeps_def)
  have "ids_ok l c c' (unat (0 :: size_t)) ids (curThread w)" using c' by (simp add: ids_ok_def all_apart_def)
  from start_server_safe [OF os i(1) w i(2) this] obtain r where r: "start_server os ntop l c c' addr name opt 0 None onConn onMsg onDone init ids w = Some r"
    "defined r (\<lambda>v. (sys_ok ep opn (all_loops l (unat (0 :: size_t)) ids) l (v, \<lambda>_. Idle) \<and> next_id v = 1) \<and> vacant onConn v)"
    by blast
  from r(2) have "defined r (\<lambda>w'. safe_state ep opn l w' \<and> next_id w' = 1)"
    by (rule defined_mono) (simp add: all_loops_def sys_solo)
  with r(1) show ?thesis by blast
qed

end
