(* ===== verification/CallbackOrder.thy ===== *)
theory CallbackOrder
  imports CallbackLog SystemTurn SafetyStart
begin

unbundle bit_operations_syntax

text \<open>
  The order of the callbacks in a server with any number of loops. \<open>spoken\<close> relates what the application was told to
  the connections that are there: a connection that waits to be established was not mentioned, every other one came up
  once, and names are never used again. Every step of every loop keeps it.
\<close>

subsection \<open>What was said, and of whom\<close>

text \<open>A name that the server has given.\<close>

definition numbered :: "('k, 'z) server_world_scheme \<Rightarrow> string \<Rightarrow> bool" where
  "numbered w n \<longleftrightarrow> (\<exists>a b k h m. desk w = Some (a, b, k, h) \<and> m < unat k \<and> n = a @ ''-'' @ b @ ''#'' @ decimal m)"

definition spoken :: "('k, 'z) noted_world_scheme \<Rightarrow> bool" where
  "spoken w \<longleftrightarrow> (\<forall>n. protocol (heard w n)) \<and>
     (\<forall>i n cb c. roll w i = Some (n, cb, c) \<longrightarrow> cb \<noteq> None \<and> numbered w n \<and> (heard w n = [] \<longleftrightarrow> c)) \<and>
     (\<forall>i j n cb c cb' c'. roll w i = Some (n, cb, c) \<longrightarrow> roll w j = Some (n, cb', c') \<longrightarrow> i = j) \<and>
     (\<forall>n. heard w n \<noteq> [] \<longrightarrow> numbered w n) \<and> (\<exists>a b k h. desk w = Some (a, b, k, Some h))"

lemma spokenD:
  assumes "spoken w"
  shows "protocol (heard w n)" "roll w i = Some (n, cb, c) \<Longrightarrow> cb \<noteq> None"
    "roll w i = Some (n, cb, c) \<Longrightarrow> numbered w n" "roll w i = Some (n, cb, c) \<Longrightarrow> heard w n = [] \<longleftrightarrow> c"
    "roll w i = Some (n, cb, c) \<Longrightarrow> roll w j = Some (n, cb', c') \<Longrightarrow> i = j"
    "heard w n \<noteq> [] \<Longrightarrow> numbered w n" "\<exists>a b k h. desk w = Some (a, b, k, Some h)"
  using assms unfolding spoken_def by blast+

lemma spokenI:
  assumes "\<And>n. protocol (heard w n)" "\<And>i n cb c. roll w i = Some (n, cb, c) \<Longrightarrow> cb \<noteq> None"
    "\<And>i n cb c. roll w i = Some (n, cb, c) \<Longrightarrow> numbered w n" "\<And>i n cb c. roll w i = Some (n, cb, c) \<Longrightarrow> heard w n = [] \<longleftrightarrow> c"
    "\<And>i j n cb c cb' c'. roll w i = Some (n, cb, c) \<Longrightarrow> roll w j = Some (n, cb', c') \<Longrightarrow> i = j"
    "\<And>n. heard w n \<noteq> [] \<Longrightarrow> numbered w n" "\<exists>a b k h. desk w = Some (a, b, k, Some h)"
  shows "spoken w"
  using assms unfolding spoken_def by blast

lemma calm_spoken:
  assumes s: "spoken w" and c: "calm w w'"
  shows "spoken w'"
proof -
  from c obtain new where eq: "roll w' = roll w" "desk w' = desk w" "told w' = told w @ new"
    and new: "\<And>n x. (n, x) \<in> set new \<Longrightarrow> x \<noteq> Up \<and> (\<exists>i cb. roll w i = Some (n, cb, False))"
    unfolding calm_def by blast
  let ?new = "\<lambda>n. map snd (filter (\<lambda>p. fst p = n) new)"
  note h = heard_append [OF eq(3)]
  have up: "Up \<notin> set (?new n)" for n using new [of n Up] by auto
  have said: "heard w n \<noteq> []" if "?new n \<noteq> []" for n
  proof -
    from that obtain x where "(n, x) \<in> set new" by (auto simp: filter_empty_conv)
    with new obtain i cb where "roll w i = Some (n, cb, False)" by blast
    with spokenD(4) [OF s] show ?thesis by blast
  qed
  have nil: "heard w' n = [] \<longleftrightarrow> heard w n = []" for n using said [of n] unfolding h by auto
  have num: "numbered w' n = numbered w n" for n by (simp add: numbered_def eq(2))
  show ?thesis
  proof (rule spokenI)
    show "protocol (heard w' n)" for n
      using spokenD(1) [OF s] protocol_append [OF spokenD(1) [OF s] _ up, of n n] said [of n] unfolding h
      by (cases "?new n = []") auto
  qed (use spokenD [OF s] in \<open>simp_all add: nil num eq(1,2)\<close>)
qed

text \<open>A connection comes up.\<close>

lemma up_spoken:
  assumes s: "spoken w" and i: "roll w i = Some (n, cb, True)"
    and y: "roll y = (roll w)(i \<mapsto> (n, cb, False))" "desk y = desk w" "told y = told w @ [(n, Up)]"
  shows "spoken y"
proof -
  have h: "heard y m = (if m = n then [Up] else heard w m)" for m
    using heard_append [OF y(3), of m] spokenD(4) [OF s i] by auto
  have num: "numbered y m = numbered w m" for m by (simp add: numbered_def y(2))
  show ?thesis
  proof (rule spokenI)
    show "heard y m = [] \<longleftrightarrow> c" if "roll y j = Some (m, cb', c)" for j m cb' c
      using that spokenD(4,5) [OF s] i by (auto simp: y(1) h split: if_splits)
    show "j = k" if "roll y j = Some (m, x, c)" "roll y k = Some (m, x', c')" for j k m x c x' c'
      using that spokenD(5) [OF s] i by (auto simp: y(1) split: if_splits)
    show "numbered y m" if "heard y m \<noteq> []" for m
      using that spokenD(3) [OF s i] spokenD(6) [OF s, of m] by (simp add: h num split: if_splits)
  qed (use spokenD(1-3,7) [OF s] i in \<open>auto simp: h num y(1,2) split: if_splits\<close>)
qed

text \<open>The counter of names advances, with a new connection or without.\<close>

lemma numbered_more:
  assumes "desk w = Some (a, b, k, h)" "desk y = Some (a, b, k + 1, h)" "k + 1 \<noteq> 0" "numbered w n"
  shows "numbered y n"
  using assms unat_increment [OF assms(3)] unfolding numbered_def by (metis Pair_inject less_Suc_eq option.inject)

lemma count_spoken:
  assumes s: "spoken w" and d: "desk w = Some (a, b, k, h)" "desk y = Some (a, b, k + 1, h)" "k + 1 \<noteq> 0"
    and y: "roll y = roll w" "told y = told w"
  shows "spoken y"
proof -
  have eq: "heard y n = heard w n" for n by (simp add: heard_def y(2))
  show ?thesis
    by (rule spokenI) (use spokenD [OF s] numbered_more [OF d] d in \<open>auto simp: eq y(1)\<close>)
qed

lemma enter_spoken:
  assumes s: "spoken w" and d: "desk w = Some (a, b, k, h)" "desk y = Some (a, b, k + 1, h)" "k + 1 \<noteq> 0"
    and i: "roll w i = None" "roll y = (roll w)(i \<mapsto> (a @ ''-'' @ b @ ''#'' @ decimal (unat k), h, True))" and y: "told y = told w"
  shows "spoken y"
proof -
  let ?n = "a @ ''-'' @ b @ ''#'' @ decimal (unat k)"
  have eq: "heard y n = heard w n" for n by (simp add: heard_def y)
  have new: "\<not> numbered w ?n" using d(1) by (auto simp: numbered_def)
  have num: "numbered y ?n" unfolding numbered_def using d(2) unat_increment [OF d(3)] by auto
  have h: "h \<noteq> None" using spokenD(7) [OF s] d(1) by auto
  have none: "heard w ?n = []" using spokenD(6) [OF s] new by blast
  show ?thesis
  proof (rule spokenI)
    show "j = j'" if "roll y j = Some (m, x, c)" "roll y j' = Some (m, x', c')" for j j' m x c x' c'
      using that spokenD(3,5) [OF s] new by (auto simp: i(2) split: if_splits)
    show "heard y m = [] \<longleftrightarrow> c" if "roll y j = Some (m, x, c)" for j m x c
      using that spokenD(4) [OF s] none by (auto simp: i(2) eq split: if_splits)
  qed (use spokenD(1,2,3,6,7) [OF s] numbered_more [OF d] d h num in \<open>auto simp: eq i(2) split: if_splits\<close>)
qed

subsection \<open>Making connections\<close>

lemma connectEstablished_spoken:
  fixes w :: "('k, 'z) noted_world_scheme"
  assumes app: "app_calm app" and s: "spoken w" and co: "conns w i = Some co" "cState co = Connecting"
    and r: "connectEstablished os (server_app os (noting app)) i w = Inr w'"
  shows "spoken w'"
proof -
  let ?co = "co\<lparr>cState := Connected\<rparr>"
  have i: "roll w i = Some (cName co, onConnection co, True)" using co by (simp add: roll_def)
  with spokenD(2) [OF s] obtain h where h: "onConnection co = Some h" by blast
  from r co obtain u x where u: "modify_channel (cChan co) (tie i) (put_conn i ?co w) = Inr u"
    and x: "enableReading os (cChan co) u = Inr x"
    and w': "call (\<lambda>h. app_connection (server_app os (noting app)) h i) (onConnection co) x = Inr w'"
    by (auto simp: connectEstablished_def Let_def andThen_Inr_iff)
  have "conns u = conns (put_conn i ?co w) \<and> theServer u = theServer (put_conn i ?co w) \<and> told u = told (put_conn i ?co w)"
    by (rule nx.modify_channel [OF u])
  moreover have "conns x = conns u \<and> theServer x = theServer u \<and> told x = told u"
    by (rule nx.change) (use x in \<open>simp add: channel_ops_change\<close>)
  ultimately have eq: "conns x = (conns w)(i \<mapsto> ?co)" and more: "theServer x = theServer w" "told x = told w"
    by (simp_all add: put_conn_def)
  let ?y = "x\<lparr>told := told x @ [(cName co, Up)]\<rparr>"
  have "conns x i = Some ?co" by (simp add: eq)
  then have "app_connection app h i ?y = Inr w'"
    using w' h by (simp add: tell_eq connected_def)
  moreover have "established ?y i" using eq by (simp add: established_def)
  ultimately have "calm ?y w'" by (rule app_calmD(1) [OF app, rotated])
  moreover have "spoken ?y"
  proof (rule up_spoken [OF s i])
    show "roll ?y = (roll w)(i \<mapsto> (cName co, onConnection co, False))" by (rule ext) (simp add: roll_def eq)
    show "desk ?y = desk w" by (rule desk_cong) (simp add: more)
    show "told ?y = told w @ [(cName co, Up)]" by (simp add: more)
  qed
  ultimately show ?thesis by (rule calm_spoken [rotated])
qed

lemma newConnection_spoken:
  fixes w :: "('k, 'z) noted_world_scheme"
  assumes app: "app_calm app" and s: "spoken w" and i: "conns w i = None" and n: "next_id w + 1 < 2 ^ 32"
    and r: "newConnection os (server_app os (noting app)) i c f peer w = Inr w'"
  shows "spoken w'"
proof -
  from spokenD(7) [OF s] obtain sv where sv: "theServer w = Some sv" by (auto simp: desk_def)
  have wrap: "nextConnId sv + 1 \<noteq> 0"
  proof
    assume "nextConnId sv + 1 = 0"
    then have "unat (nextConnId sv + 1) = 0" by simp
    with n sv show False by (simp add: next_id_def unat_word_ariths)
  qed
  obtain io p where loop: "getNextLoop (threadPool sv) = (io, p)" by fastforce
  let ?s = "sv\<lparr>threadPool := p, nextConnId := nextConnId sv + 1\<rparr>"
  obtain g k where k: "sys_getsockname os f (kern w) = (g, k)" by fastforce
  have d: "desk w = Some (sName sv, ipPort sv, nextConnId sv, connectionCallback sv)" by (simp add: desk_def sv)
  show ?thesis
  proof (cases g)
    case (Inl e)
    with r sv k loop have w': "w' = put_server ?s w\<lparr>kern := sys_close os f k\<rparr>"
      by (auto simp: newConnection_def with_server_def Let_def)
    show ?thesis
    proof (rule count_spoken [OF s d _ wrap])
      show "roll w' = roll w" by (rule roll_cong) (simp add: w' put_server_def)
    qed (simp_all add: w' desk_def put_server_def)
  next
    case (Inr here)
    obtain co where nc: "new_connection os i c io (connection_name sv) f here peer (put_server ?s w\<lparr>kern := k\<rparr>) = Inr (put_channel c
        (setupChannelCallbacks i (new_channel io f)) (configureSocketOptions os f (put_conn i co (put_channel c (new_channel io f)
          (put_server ?s w\<lparr>kern := k\<rparr>)))))" (is "_ = Inr ?x")
      and co: "cName co = connection_name sv" "cState co = Connecting"
      using new_connection_eq [of os i c io "connection_name sv" f here peer "put_server ?s w\<lparr>kern := k\<rparr>"] by metis
    let ?co = "conn_setCloseCallback (Some kRemoveConnection)
                   (conn_setWriteCompleteCallback (writeCompleteCallback sv)
                   (conn_setMessageCallback (messageCallback sv)
                   (conn_setConnectionCallback (connectionCallback sv) co)))"
    have same: "cName ?co = connection_name sv" "cState ?co = Connecting" "onConnection ?co = connectionCallback sv"
      using co by (simp_all add: conn_setCloseCallback_def conn_setWriteCompleteCallback_def conn_setMessageCallback_def
          conn_setConnectionCallback_def)
    let ?y = "put_conn i ?co (put_server (?s\<lparr>connections := emplace (connection_name sv) i (connections sv)\<rparr>) ?x)"
    have w': "runInLoop os io (ConnectEstablished i) (connectEstablished os (server_app os (noting app)) i) ?y = Inr w'"
      using r sv k Inr nc by (simp add: newConnection_def with_server_def loop Let_def)
    have "spoken ?y"
    proof (rule enter_spoken [OF s d _ wrap])
      show "desk ?y = Some (sName sv, ipPort sv, nextConnId sv + 1, connectionCallback sv)" by (simp add: desk_def put_conn_def put_server_def)
      show "roll w i = None" using i by (simp add: roll_def)
      show "roll ?y = (roll w)(i \<mapsto> (sName sv @ ''-'' @ ipPort sv @ ''#'' @ decimal (unat (nextConnId sv)), connectionCallback sv, True))"
        using same by (auto simp: roll_def fun_eq_iff put_server_def connection_name_def)
      show "told ?y = told w"
        by (simp add: put_conn_def put_server_def put_channel_def configureSocketOptions_def setOption_def)
    qed
    note y = this
    from w' have "connectEstablished os (server_app os (noting app)) i ?y = Inr w' \<or> queueInLoop os io (ConnectEstablished i) ?y = Inr w'"
      by (auto simp: runInLoop_def with_loop_def split: option.splits if_splits)
    then show ?thesis
    proof
      assume e: "connectEstablished os (server_app os (noting app)) i ?y = Inr w'"
      show ?thesis by (rule connectEstablished_spoken [OF app y _ same(2) e]) simp
    qed (rule calm_spoken [OF y nt.queue])
  qed
qed

lemma acceptor_handleRead_spoken:
  fixes w :: "('k, 'z) noted_world_scheme"
  assumes app: "app_calm app" and s: "spoken w" and fresh: "allocates fresh" and w: "world_ok ep opn l T w"
    and n: "next_id w + 1 < 2 ^ 32"
    and r: "acceptor_handleRead os (\<lambda>f peer w. newConnection os (server_app os (noting app)) (fst (fresh w)) (snd (fresh w)) f peer w) w = Inr w'"
  shows "spoken w'"
proof -
  from r obtain a where a: "theAcceptor w = Some a" by (auto simp: acceptor_handleRead_def with_acceptor_def split: option.splits)
  obtain g k where g: "sys_accept os (aSock a) (kern w) = (g, k)" by fastforce
  with r a obtain f peer where "g = Inr (f, peer)"
    by (cases g) (auto simp: acceptor_handleRead_def with_acceptor_def socket_accept_def handleAcceptError_def)
  with r a g have k: "(if newConnectionSet a
      then newConnection os (server_app os (noting app)) (fst (fresh (w\<lparr>kern := k\<rparr>))) (snd (fresh (w\<lparr>kern := k\<rparr>))) f peer (w\<lparr>kern := k\<rparr>)
      else Inr (w\<lparr>kern := sys_close os f k\<rparr>)) = Inr w'"
    by (simp add: acceptor_handleRead_def with_acceptor_def socket_accept_def split: if_splits)
  have v: "spoken (w\<lparr>kern := k\<rparr>)" by (rule calm_spoken [OF s calm_kern])
  have "conns w (fst (fresh (w\<lparr>kern := k\<rparr>))) = None"
  proof -
    have "conns_ok w" by (rule world_okD(2) [OF w])
    then have "finite (dom (conns (w\<lparr>kern := k\<rparr>)))" "finite (dom (chans (w\<lparr>kern := k\<rparr>)))" by (simp_all add: conns_ok_def)
    with fresh have "conns (w\<lparr>kern := k\<rparr>) (fst (fresh (w\<lparr>kern := k\<rparr>))) = None" unfolding allocates_def by blast
    then show ?thesis by simp
  qed
  moreover have "next_id (w\<lparr>kern := k\<rparr>) + 1 < 2 ^ 32" using n by (simp add: next_id_def)
  ultimately show ?thesis
    using k newConnection_spoken [OF app v] calm_spoken [OF s calm_kern] by (auto split: if_splits)
qed

subsection \<open>Events\<close>

lemma run_callback_spoken:
  fixes w :: "('k, 'z) noted_world_scheme"
  assumes app: "app_calm app" and fresh: "allocates fresh" and w: "world_ok ep opn l T w" and h: "engaged l w c"
    and cb: "cb_ok w l c cb" and n: "cb = AcceptorHandleRead \<Longrightarrow> next_id w + 1 < 2 ^ 32" and s: "spoken w"
    and r: "run_callback os (noting app) fresh cb t w = Inr w'"
  shows "spoken w'"
proof -
  have est: "established w i" if "\<exists>co. conns w i = Some co \<and> cChan co = c" for i
    using that engagedD(3) [OF h, of i] by (auto simp: mine_def established_def)
  show ?thesis
  proof (cases cb)
    case AcceptorHandleRead
    with r have "acceptor_handleRead os (\<lambda>f peer w.
        newConnection os (server_app os (noting app)) (fst (fresh w)) (snd (fresh w)) f peer w) w = Inr w'"
      by (simp add: run_callback_def run_conn_callback_def)
    then show ?thesis by (rule acceptor_handleRead_spoken [OF app s fresh w n [OF AcceptorHandleRead]])
  next
    case (LoopHandleRead l')
    with r have "loop_handleRead os l' w = Inr w'" by (simp add: run_callback_def run_conn_callback_def)
    then show ?thesis by (rule calm_spoken [OF s loop_handleRead_calm])
  next
    case (ConnHandleRead i)
    with cb r have "established w i" "handleRead os (server_app os (noting app)) t i w = Inr w'"
      by (auto simp: run_callback_def run_conn_callback_def cb_ok_def intro: est)
    then show ?thesis by (rule calm_spoken [OF s handleRead_calm [OF app]])
  next
    case (ConnHandleWrite i)
    with r have "handleWrite os i w = Inr w'" by (simp add: run_callback_def run_conn_callback_def)
    then show ?thesis by (rule calm_spoken [OF s nt.handle_write])
  next
    case (ConnHandleClose i)
    with cb r have "established w i" "handleClose os (server_app os (noting app)) i w = Inr w'"
      by (auto simp: run_callback_def run_conn_callback_def cb_ok_def intro: est)
    then show ?thesis by (rule calm_spoken [OF s handleClose_calm [OF app]])
  next
    case (ConnHandleError i)
    with r have "handleError os i w = Inr w'" by (simp add: run_callback_def run_conn_callback_def)
    then show ?thesis by (rule calm_spoken [OF s handleError_calm])
  qed
qed

text \<open>A stage of the dispatch: the state after it is good for the next one.\<close>

definition dispatching :: "'k interest \<Rightarrow> ('k \<Rightarrow> fd set) \<Rightarrow> lid \<Rightarrow> taken \<Rightarrow> cid \<Rightarrow> ('k, 'z) noted_world_scheme \<Rightarrow> bool" where
  "dispatching ep opn l T c w \<longleftrightarrow> world_ok ep opn l T w \<and> engaged l w c \<and> spoken w"

lemma fire_spoken:
  fixes w :: "('k, 'z) noted_world_scheme"
  assumes os: "server_kernel os ep opn" and keeps: "app_keeps ep opn l (noting app)" and app: "app_calm app" and fresh: "allocates fresh"
    and d: "dispatching ep opn l T c w" and get: "\<And>ch. get ch \<in> callbacks_of ch"
    and n: "\<And>ch. chans w c = Some ch \<Longrightarrow> get ch = Some AcceptorHandleRead \<Longrightarrow> next_id w + arrivals w c < 2 ^ 32"
    and r: "fire (run_callback os (noting app) fresh) cond get t c w = Inr w'"
  shows "dispatching ep opn l T c w'" "grows w w'"
    and "\<not> (\<exists>ch. chans w c = Some ch \<and> get ch = Some AcceptorHandleRead) \<Longrightarrow> next_id w' \<le> next_id w"
proof -
  from d have w: "world_ok ep opn l T w" and h: "engaged l w c" and s: "spoken w" by (simp_all add: dispatching_def)
  from engagedD(1) [OF h] obtain ch where ch: "chans w c = Some ch" "chLoop ch = l" by blast
  let ?m = "if get ch = Some AcceptorHandleRead then arrivals w c else 0"
  have "step_upto ep opn l T ?m w (fire (run_callback os (noting app) fresh) cond get t c w)"
    by (rule fire_upto [OF os keeps fresh w h get]) (use n ch in auto)
  with r have v: "world_ok ep opn l T w'" "grows w w'" "next_id w' \<le> next_id w + ?m" by (simp_all add: step_upto_def)
  have "spoken w'"
  proof (cases "cond (revents ch) \<and> get ch \<noteq> None")
    case True
    then obtain cb where cb: "get ch = Some cb" "run_callback os (noting app) fresh cb t w = Inr w'"
      using r ch(1) by (auto simp: fire_def)
    then have "Some cb \<in> callbacks_of ch" using get [of ch] by simp
    then have ok: "cb_ok w l c cb" using world_okD(2) [OF w] ch unfolding conns_ok_def by blast
    have "next_id w + 1 < 2 ^ 32" if "cb = AcceptorHandleRead"
    proof -
      from ok that have "arrivals w c = 1" by (auto simp: cb_ok_def arrivals_def acceptor_chan_def)
      with n [OF ch(1)] cb(1) that show ?thesis by simp
    qed
    from run_callback_spoken [OF app fresh w h ok this s cb(2)] show ?thesis .
  qed (use r ch s in \<open>auto simp: fire_def split: if_splits\<close>)
  with v engaged_grows [OF h v(2)] show "dispatching ep opn l T c w'" by (simp add: dispatching_def)
  show "grows w w'" by (rule v(2))
  show "next_id w' \<le> next_id w" if "\<not> (\<exists>ch. chans w c = Some ch \<and> get ch = Some AcceptorHandleRead)"
    using v(3) that ch by simp
qed

lemma handleEvent_spoken:
  fixes w :: "('k, 'z) noted_world_scheme"
  assumes os: "server_kernel os ep opn" and keeps: "app_keeps ep opn l (noting app)" and app: "app_calm app" and fresh: "allocates fresh"
    and w: "world_ok ep opn l T w" and h: "engaged l w c" and s: "spoken w" and n: "next_id w + arrivals w c < 2 ^ 32"
    and r: "handleEvent (\<lambda>i w. conns w i \<noteq> None) (run_callback os (noting app) fresh) t c w = Inr w'"
  shows "spoken w'"
proof (cases "handleEventWithGuard (run_callback os (noting app) fresh) t c w = Inr w'")
  case True
  let ?run = "run_callback os (noting app) fresh"
  note fire = fire_spoken [OF os keeps app fresh]
  have no: "\<not> (\<exists>ch. chans v c = Some ch \<and> get ch = Some AcceptorHandleRead)"
    if "dispatching ep opn l T c v" "\<And>ch. get ch \<in> {writeCallback ch, closeCallback ch, errorCallback ch}" for v :: "('k, 'z) noted_world_scheme" and get
    using world_okD(2) [of ep opn l T v] that unfolding dispatching_def conns_ok_def by (metis insertE insert_iff)
  have cbs: "closeCallback ch \<in> callbacks_of ch" "errorCallback ch \<in> callbacks_of ch" "readCallback ch \<in> callbacks_of ch"
    "writeCallback ch \<in> callbacks_of ch" for ch by (simp_all add: callbacks_of_def)
  from True obtain v1 v2 v3 where v1: "fire ?run hup_only closeCallback t c w = Inr v1"
    and v2: "fire ?run (\<lambda>r. r AND EPOLLERR \<noteq> 0) errorCallback t c v1 = Inr v2"
    and v3: "fire ?run (\<lambda>r. r AND (EPOLLIN OR EPOLLPRI) \<noteq> 0) readCallback t c v2 = Inr v3"
    and v4: "fire ?run (\<lambda>r. r AND EPOLLOUT \<noteq> 0) writeCallback t c v3 = Inr w'"
    by (auto simp: handleEventWithGuard_def andThen_Inr_iff)
  have d0: "dispatching ep opn l T c w" using w h s by (simp add: dispatching_def)
  have n0: "\<not> (\<exists>ch. chans w c = Some ch \<and> closeCallback ch = Some AcceptorHandleRead)" by (rule no [OF d0]) simp
  note s1 = fire [OF d0 cbs(1) _ v1]
  have d1: "dispatching ep opn l T c v1" "grows w v1" "next_id v1 \<le> next_id w" using s1 n0 by blast+
  have n1: "\<not> (\<exists>ch. chans v1 c = Some ch \<and> errorCallback ch = Some AcceptorHandleRead)" by (rule no [OF d1(1)]) simp
  note s2 = fire [OF d1(1) cbs(2) _ v2]
  have d2: "dispatching ep opn l T c v2" "grows v1 v2" "next_id v2 \<le> next_id v1" using s2 n1 by blast+
  have "arrivals v2 c = arrivals w c" by (rule arrivals_grows [OF grows_trans [OF d1(2) d2(2)]])
  with n d1(3) d2(3) have "next_id v2 + arrivals v2 c < 2 ^ 32" by simp
  with fire [OF d2(1) cbs(3) _ v3] have d3: "dispatching ep opn l T c v3" by blast
  have n3: "\<not> (\<exists>ch. chans v3 c = Some ch \<and> writeCallback ch = Some AcceptorHandleRead)" by (rule no [OF d3]) simp
  with fire [OF d3 cbs(4) _ v4] show ?thesis unfolding dispatching_def by blast
next
  case False
  from engagedD(1) [OF h] obtain ch where "chans w c = Some ch" by blast
  with r False have "w' = w" by (auto simp: handleEvent_def split: if_splits option.splits)
  with s show ?thesis by simp
qed

subsection \<open>Functors and steps\<close>

lemma run_functor_spoken:
  fixes w :: "('k, 'z) noted_world_scheme"
  assumes app: "app_calm app" and user: "\<And>n w w'. user n w = Inr w' \<Longrightarrow> calm w w'" and f: "runnable l w f" and s: "spoken w"
    and r: "run_functor os (noting app) user f w = Inr w'"
  shows "spoken w'"
proof -
  have est: "established w i" if "mine l w i" for i using that by (auto simp: mine_def established_def)
  show ?thesis
  proof (cases f)
    case (ConnectEstablished i)
    with f obtain co where "conns w i = Some co" "cState co = Connecting" by (auto simp: waiting_def)
    moreover have "connectEstablished os (server_app os (noting app)) i w = Inr w'"
      using r ConnectEstablished by (simp add: run_functor_def run_conn_functor_def)
    ultimately show ?thesis by (rule connectEstablished_spoken [OF app s])
  next
    case (ConnectDestroyed i)
    with f r have "established w i" "connectDestroyed os (server_app os (noting app)) i w = Inr w'"
      by (simp_all add: est run_functor_def run_conn_functor_def)
    then show ?thesis by (rule calm_spoken [OF s connectDestroyed_calm [OF app]])
  next
    case (WriteComplete i)
    with f r have "w' = w \<or> (\<exists>h. app_writeComplete app h i w = Inr w')" and i: "established w i"
      by (auto simp: est run_functor_def run_conn_functor_def with_conn_def split: option.splits)
    with calm_spoken [OF s app_calmD(3) [OF app i]] s show ?thesis by blast
  next
    case (HighWaterMark i n)
    with f r have "w' = w \<or> (\<exists>h. app_highWater app h i n w = Inr w')" and i: "established w i"
      by (auto simp: est run_functor_def run_conn_functor_def with_conn_def split: option.splits)
    with calm_spoken [OF s app_calmD(4) [OF app i]] s show ?thesis by blast
  next
    case (RemoveConnectionInLoop i)
    with r have "removeConnectionInLoop os i w = Inr w'" by (simp add: run_functor_def run_conn_functor_def)
    then show ?thesis by (rule calm_spoken [OF s removeConnectionInLoop_calm])
  next
    case AcceptorListen
    with r have "acceptor_listen os w = Inr w'" by (simp add: run_functor_def run_conn_functor_def)
    then show ?thesis by (rule calm_spoken [OF s acceptor_listen_calm])
  next
    case (UserFunctor n)
    with r have "user n w = Inr w'" by (simp add: run_functor_def run_conn_functor_def)
    then show ?thesis by (rule calm_spoken [OF s user])
  qed (use f in simp_all)
qed

lemma release_spoken:
  fixes w :: "('k, 'z) noted_world_scheme"
  assumes s: "spoken w" and r: "release os ls acts f w = Inr w'"
  shows "spoken w'"
proof (cases "w' = w")
  case False
  with r obtain i where i: "destroy_connection os i w = Inr w'"
    by (auto simp: release_def split: option.splits if_splits)
  then have eq: "conns w' = (conns w)(i := None)" "theServer w' = theServer w" "told w' = told w"
    by (auto simp: destroy_connection_def with_conn_def split: option.splits)
  have roll: "roll w' j = (if j = i then None else roll w j)" for j by (simp add: roll_def eq(1))
  have same: "heard w' n = heard w n" "numbered w' n = numbered w n" "desk w' = desk w" for n
    using eq(2,3) by (simp_all add: heard_def numbered_def desk_def)
  show ?thesis
    by (rule spokenI) (use spokenD [OF s] in \<open>auto simp: roll same split: if_splits\<close>)
qed (use s in simp)

lemma sys_step_spoken:
  fixes w :: "('k, 'z) noted_world_scheme"
  assumes os: "server_kernel os ep opn" and keeps: "\<And>l. app_keeps ep opn l (noting app)" and app: "app_calm app"
    and user: "\<And>n w w'. user n w = Inr w' \<Longrightarrow> calm w w'" and fresh: "allocates fresh"
    and s: "sys_ok ep opn ls b (w, acts)" and n: "l = b \<Longrightarrow> next_id w + 1 < 2 ^ 32" and l: "l \<in> set ls" and sp: "spoken w"
    and r: "sys_step os (noting app) fresh user ls l (w, acts) = Inr (w', acts')"
  shows "spoken w'"
proof -
  from l sys_okD(4) [OF s, of l] obtain lp where lp: "loops w l = Some lp" by blast
  let ?v = "w\<lparr>curThread := threadId lp\<rparr>"
  note v = sys_switch [OF s lp]
  have sv: "spoken ?v" by (rule calm_spoken [OF sp calm_untouched]) simp_all
  have put: "spoken w'" if "spoken u" "modify_loop m g u = Inr w'" for m g and u :: "('k, 'z) noted_world_scheme"
    by (rule calm_spoken [OF that(1) calm_untouched])
      (use that(2) in \<open>auto simp: modify_loop_def with_loop_def put_loop_def split: option.splits\<close>)
  show ?thesis
  proof (cases "acts l")
    case Idle
    with r lp obtain now cs u where u: "poll os l kPollTimeMs [] ?v = Inr (now, cs, u)"
      "modify_loop l (\<lambda>lp. lp\<lparr>activeChannels := cs, pollReturnTime := now\<rparr>) u = Inr w'"
      by (auto simp: sys_step_def Let_def andThen_Inr_iff)
    show ?thesis by (rule put [OF calm_spoken [OF sv poll_calm [OF u(1)]] u(2)])
  next
    case (Dispatching now cs)
    show ?thesis
    proof (cases cs)
      case Nil
      with r lp Dispatching have "w' = swapped l lp ?v" by (auto simp: sys_step_def Let_def swapped_def)
      then show ?thesis by (intro calm_spoken [OF sv calm_untouched]) (simp_all add: swapped_def put_loop_def)
    next
      case (Cons c cs')
      with r lp Dispatching have h: "handleEvent (\<lambda>i w. conns w i \<noteq> None) (run_callback os (noting app) fresh) now c ?v = Inr w'"
        by (auto simp: sys_step_def Let_def andThen_Inr_iff)
      have e: "engaged l ?v c" using sys_okD(2) [OF v(1), of l] Dispatching Cons by simp
      have "arrivals ?v c \<le> of_bool (l = b)"
        using e sys_okD(6) [OF v(1)] by (auto simp: arrivals_def accepts_def engaged_def)
      moreover have "unat (i :: uint32) < 2 ^ 32" for i using unsigned_less [of i] by simp
      then have "next_id ?v < 2 ^ 32" by (simp add: next_id_def split: option.splits)
      moreover have "next_id ?v = next_id w" by (simp add: next_id_def)
      ultimately have "next_id ?v + arrivals ?v c < 2 ^ 32" using n by (cases "l = b") auto
      from handleEvent_spoken [OF os keeps app fresh v(2) e sv this h] show ?thesis .
    qed
  next
    case (Running fs past)
    show ?thesis
    proof (cases fs)
      case Nil
      with r lp Running have "modify_loop l (\<lambda>lp. lp\<lparr>callingPendingFunctors := False\<rparr>) ?v = Inr w'"
        by (auto simp: sys_step_def Let_def andThen_Inr_iff)
      with sv show ?thesis by (rule put)
    next
      case (Cons f fs')
      with r lp Running have f: "run_functor os (noting app) user f ?v = Inr w'"
        by (auto simp: sys_step_def Let_def andThen_Inr_iff)
      have "(l, f) \<in> todos acts" using Running Cons by (simp add: todos_def)
      then have "runnable l ?v f" using loops_okD(6) [OF world_okD(4) [OF v(2)]] by blast
      from run_functor_spoken [OF app user this sv f] show ?thesis .
    qed
  next
    case (Releasing fs)
    show ?thesis
    proof (cases fs)
      case Nil
      with r lp Releasing have "w' = ?v" by (auto simp: sys_step_def Let_def)
      with sv show ?thesis by simp
    next
      case (Cons f fs')
      with r lp Releasing have "release os ls (acts(l := Releasing fs')) f ?v = Inr w'"
        by (auto simp: sys_step_def Let_def andThen_Inr_iff)
      then show ?thesis by (rule release_spoken [OF sv])
    qed
  qed
qed

lemma sys_run_spoken:
  fixes w :: "('k, 'z) noted_world_scheme"
  assumes os: "server_kernel os ep opn" and keeps: "\<And>l. app_keeps ep opn l (noting app)" and app: "app_calm app"
    and user: "\<And>l. user_keeps ep opn l user" "\<And>n w w'. user n w = Inr w' \<Longrightarrow> calm w w'" and fresh: "allocates fresh"
  shows "sys_ok ep opn ls b (w, acts) \<Longrightarrow> spoken w \<Longrightarrow> set sched \<subseteq> set ls \<Longrightarrow> next_id w + count_list sched b < 2 ^ 32 \<Longrightarrow>
    sys_run os (noting app) fresh user ls sched (w, acts) = Inr (w', acts') \<Longrightarrow> spoken w'"
proof (induction sched arbitrary: w acts)
  case Nil
  then show ?case by simp
next
  case (Cons l sched)
  from Cons.prems(5) obtain v a where v: "sys_step os (noting app) fresh user ls l (w, acts) = Inr (v, a)"
    "sys_run os (noting app) fresh user ls sched (v, a) = Inr (w', acts')" by (auto simp: andThen_Inr_iff)
  have l: "l \<in> set ls" "l = b \<Longrightarrow> next_id w + 1 < 2 ^ 32" using Cons.prems(3,4) by auto
  have "sys_safe ep opn ls b (next_id w + of_bool (l = b)) (v, a)"
    using sys_step_safe [OF os keeps user(1) fresh Cons.prems(1) l(2,1)] v(1) by simp
  then have ok: "sys_ok ep opn ls b (v, a)" "next_id v \<le> next_id w + of_bool (l = b)" by (simp_all add: sys_safe_def)
  have "spoken v" by (rule sys_step_spoken [OF os keeps app user(2) fresh Cons.prems(1) l(2,1) Cons.prems(2) v(1)])
  moreover have "next_id v + count_list sched b < 2 ^ 32" using ok(2) Cons.prems(4) by (auto split: if_splits)
  ultimately show ?case using Cons.IH [OF ok(1)] Cons.prems(3) v(2) by simp
qed

subsection \<open>The application that notes\<close>

lemma tell_step:
  fixes w :: "('k, 'z) noted_world_scheme"
  assumes w: "world_ok ep opn l T w" and m: "mine l w i"
  shows "step_ok ep opn l T w (tell i x w)"
proof -
  obtain co where co: "conns w i = Some co" using mineD [OF m] .
  have "step_ok ep opn l T w (Inr (w\<lparr>told := told w @ [(cName co, x co)]\<rparr>))" by (rule step_same [OF w]) simp_all
  with co show ?thesis by (simp add: tell_eq)
qed

lemma noting_keeps:
  fixes app :: "('k, 'z) noted_world_scheme app"
  assumes app: "app_keeps ep opn l app"
  shows "app_keeps ep opn l (noting app)"
proof -
  have said: "step_ok ep opn l T w (andThen (tell i x w) f)"
    if w: "world_ok ep opn l T w" "mine l w i" and f: "\<And>v. world_ok ep opn l T v \<Longrightarrow> mine l v i \<Longrightarrow> step_ok ep opn l T v (f v)"
    for T i x f and w :: "('k, 'z) noted_world_scheme"
    by (rule step_ok_andThen [OF tell_step [OF w]]) (rule f, assumption, erule growsD(3) [OF _ w(2)])
  show ?thesis
    unfolding app_keeps_def noting_simps
    by (intro allI impI conjI) (assumption | rule said app_keepsD(1-4) [OF app])+
qed

text \<open>The example is calm.\<close>

lemma echo_calm: "app_calm (echo_app os :: ('k, 'z) noted_world_scheme app)"
proof -
  have con: "calm w w'" if "onConnection_echo i w = Inr w'" for i and w w' :: "('k, 'z) noted_world_scheme"
    by (rule calm_untouched) (use that in \<open>auto simp: onConnection_echo_def with_conn_def split: option.splits\<close>)
  have msg: "calm w w'" if e: "established w i" and r: "onMessage_echo os i t w = Inr w'" for i t and w w' :: "('k, 'z) noted_world_scheme"
  proof -
    from e obtain co where co: "conns w i = Some co" "cState co \<noteq> Connecting" by (auto simp: established_def)
    obtain m bf where m: "retrieveAllAsString (inputBuffer co) = (m, bf)" by fastforce
    let ?v = "put_conn i (co\<lparr>inputBuffer := bf\<rparr>) w"
    have v: "calm w ?v" by (rule calm_put_conn [OF co(1)]) simp_all
    from r co(1) m obtain u where u: "send os m i ?v = Inr u" "shutdown os i u = Inr w'"
      by (auto simp: onMessage_echo_def andThen_Inr_iff)
    have wu: "calm w u" by (rule calm_trans [OF v nt.send [OF u(1)]])
    have "calm u (put_conn i (cu\<lparr>cState := Disconnecting\<rparr>) u)" if "conns u i = Some cu" for cu
      by (rule calm_put_conn [OF that]) (use calm_established [OF wu, of i] e that in \<open>auto simp: established_def\<close>)
    from nt.shutdown [OF u(2) this] show ?thesis by (rule calm_trans [OF wu])
  qed
  show ?thesis
    unfolding app_calm_def using con msg by (auto simp: echo_app_def calm_refl)
qed

end
