(* ===== verification/SafetyProps.thy ===== *)
theory SafetyProps
  imports SafetyStart ServerProps
begin

unbundle bit_operations_syntax

text \<open>The properties of memory safety, and the two ways it is lost outside their hypotheses.\<close>

section \<open>A kernel for the witnesses\<close>

text \<open>
  The toy kernel with a list of the open descriptors: a call that opens one gives the successor of the largest,
  and \<open>epoll_wait\<close> reports every registered descriptor as ready for all it is registered for.
\<close>

definition take_fd :: "fd list \<Rightarrow> fd" where
  "take_fd fs = 1 + foldr max fs 0"

lemma take_fd_new: "take_fd fs \<notin> set fs"
proof -
  have "f \<le> foldr max fs 0" if "f \<in> set fs" for f using that by (induction fs) auto
  from this [of "take_fd fs"] show ?thesis by (auto simp: take_fd_def)
qed

definition busy_os :: "(toy \<times> fd list) os" where
  "busy_os = (logged_os toy_os)\<lparr>
     sys_epoll_create := (\<lambda>(t, fs). (Inr (take_fd fs), (t\<lparr>toy_ep := (toy_ep t)(take_fd fs := (\<lambda>_. None))\<rparr>, take_fd fs # fs))),
     sys_eventfd := (\<lambda>(t, fs). (Inr (take_fd fs), (t, take_fd fs # fs))),
     sys_socket := (\<lambda>(t, fs). (Inr (take_fd fs), (t, take_fd fs # fs))),
     sys_accept := (\<lambda>f (t, fs). (Inr (take_fd fs, \<lparr>sin_port = 1, sin_addr = 1\<rparr>), (t, take_fd fs # fs))),
     sys_close := (\<lambda>f (t, fs). (t\<lparr>toy_ep := (\<lambda>e. (toy_ep t e)(f := None))\<rparr>, removeAll f fs)),
     sys_epoll_wait := (\<lambda>e n t (k, fs). (Inr (take n (List.map_filter (toy_ep k e) (remdups fs))), (k, fs)))\<rparr>"

lemma map_filter_events:
  "distinct fs \<Longrightarrow> \<exists>gs. distinct gs \<and> set gs \<subseteq> set fs \<and>
    list_all2 (\<lambda>f x. m f = Some x) gs (List.map_filter m fs)"
proof (induction fs)
  case (Cons f fs)
  then obtain gs where gs: "distinct gs" "set gs \<subseteq> set fs" "list_all2 (\<lambda>f x. m f = Some x) gs (List.map_filter m fs)"
    by auto
  show ?case
  proof (cases "m f")
    case None
    with gs show ?thesis by (intro exI [of _ gs]) (auto simp: List.map_filter_simps)
  next
    case (Some x)
    with gs Cons.prems show ?thesis by (intro exI [of _ "f # gs"]) (auto simp: List.map_filter_simps split: prod.splits)
  qed
qed (auto simp: List.map_filter_simps)

lemma busy_server_kernel: "server_kernel busy_os (toy_ep \<circ> fst) (set \<circ> snd)"
proof -
  have "epoll_contract busy_os (toy_ep \<circ> fst)"
    by (auto simp: epoll_contract_def busy_os_def logged_os_def on_fst_def toy_os_def toy_ctl_def split: prod.splits)
  moreover have "wait_contract busy_os (toy_ep \<circ> fst)"
    unfolding wait_contract_def
  proof (intro allI impI)
    fix e n t evs and k k' :: "toy \<times> fd list"
    assume w: "sys_epoll_wait busy_os e n t k = (Inr evs, k')"
    obtain gs where gs: "distinct gs" "list_all2 (\<lambda>f x. toy_ep (fst k) e f = Some x) gs (List.map_filter (toy_ep (fst k) e) (remdups (snd k)))"
      using map_filter_events [of "remdups (snd k)" "toy_ep (fst k) e"] by auto
    have "evs = take n (List.map_filter (toy_ep (fst k) e) (remdups (snd k)))"
      using w by (auto simp: busy_os_def split: prod.splits)
    then have "list_all2 (\<lambda>f x. toy_ep (fst k) e f = Some x) (take n gs) evs"
      using gs(2) by (simp add: list_all2_takeI)
    then show "\<exists>fs. distinct fs \<and> list_all2 (\<lambda>f (ev, c). \<exists>m. (toy_ep \<circ> fst) k e f = Some (m, c)) fs evs"
      using gs(1) by (intro exI [of _ "take n gs"]) (auto elim!: list_all2_mono)
  qed
  moreover have "accept_contract busy_os (toy_ep \<circ> fst) (set \<circ> snd)"
    using take_fd_new by (auto simp: accept_contract_def busy_os_def split: prod.splits)
  moreover have "close_contract busy_os (toy_ep \<circ> fst) (set \<circ> snd)"
    by (auto simp: close_contract_def busy_os_def split: prod.splits)
  moreover have "readv_contract (\<lambda>v. fst (sys_readv busy_os f v k))" "write_contract (\<lambda>d. fst (sys_write busy_os f d k))" for f k
    by (auto simp: readv_contract_def write_contract_def busy_os_def logged_os_def on_fst_def toy_os_def toy_readv_def
        toy_write_def Let_def split: list.splits prod.splits intro: order_trans [OF unat_of_nat_le])
  ultimately show ?thesis
    by (auto simp: server_kernel_def quiet_call_def busy_os_def logged_os_def on_fst_def on_fst_unit_def toy_os_def toy_ctl_def
        toy_write_def toy_readv_def Let_def split: prod.splits list.splits)
qed

lemma busy_boot_kernel: "boot_kernel busy_os (toy_ep \<circ> fst) (set \<circ> snd)"
  using take_fd_new
  by (auto simp: boot_kernel_def opens_fresh_def quiet_call_def busy_os_def logged_os_def on_fst_def toy_os_def split: prod.splits)

text \<open>An allocator: the lowest free addresses.\<close>

definition lowest_free :: "('k, 'z) server_world_scheme \<Rightarrow> conn \<times> cid" where
  "lowest_free w = ((LEAST i. conns w i = None), (LEAST c. chans w c = None))"

lemma lowest_is_free:
  assumes "finite (dom (m :: nat \<Rightarrow> 'b option))"
  shows "m (LEAST i. m i = None) = None"
proof -
  from ex_new_if_finite [OF infinite_UNIV_nat assms] obtain i where "m i = None" by (auto simp: dom_def)
  then show ?thesis by (rule LeastI)
qed

lemma lowest_free_allocates: "allocates lowest_free"
  by (simp add: allocates_def lowest_free_def lowest_is_free)

definition unbooted :: "(toy \<times> fd list) echo_world" where
  "unbooted = \<lparr>kern = (toy0, []), chans = (\<lambda>_. None), pollers = (\<lambda>_. None), loops = (\<lambda>_. None), curThread = 1,
     loopInThisThread = (\<lambda>_. None), conns = (\<lambda>_. None), numCreated = 0, theAcceptor = None, theServer = None, upDown = []\<rparr>"

lemma user_skip_keeps: "user_keeps ep opn l (\<lambda>n. Inr)"
  by (simp add: user_keeps_def step_ok_Inr)

text \<open>The server of the witness, right after its start.\<close>

lemma busy_start:
  "case start_server busy_os (\<lambda>_. Some ''127.0.0.1'') 0 0 1 \<lparr>sin_port = 1, sin_addr = 1\<rparr> ''Echo'' kNoReusePort 0 None (Some 0) (Some 0) None
      (\<lambda>h l. Inr) (\<lambda>i. (0, 0, 0)) unbooted of Some (Inr w) \<Rightarrow> next_id w = 1 | _ \<Rightarrow> False"
  by code_simp

section \<open>Memory safety\<close>

text \<open>
  A turn of the loop is memory safe. In a server with one loop, if every pointer the program holds leads
  to a live object and every live connection is registered or about to be destroyed (\<open>safe_state\<close>), then a turn of
  the loop -- polling, dispatching every reported event, running the queued functors and freeing the
  connections no one holds any more -- never follows a null or dangling pointer and never runs outside an array, whatever the kernel
  reports and the peers send, and it ends in such a state again. A turn takes at most one new connection.
  Application handlers are asked to keep the invariant on live connections.\<close>

theorem live_turn_keeps_safe:
  assumes "server_kernel os ep opn" and "app_keeps ep opn l app" and "user_keeps ep opn l user" and "allocates fresh"
    and "safe_state ep opn l w" and "next_id w + 1 < 2 ^ 32"
  shows "live_turn os [l] app fresh user l w \<noteq> Inl Undefined \<and>
    (\<forall>w'. live_turn os [l] app fresh user l w = Inr w' \<longrightarrow> safe_state ep opn l w' \<and> next_id w' \<le> next_id w + 1)"
  using live_turn_safe [OF assms] by (cases "live_turn os [l] app fresh user l w") simp_all

theorem live_turn_keeps_safe_witness:
  "case start_server busy_os (\<lambda>_. Some ''127.0.0.1'') 0 0 1 \<lparr>sin_port = 1, sin_addr = 1\<rparr> ''Echo'' kNoReusePort 0 None (Some 0) (Some 0) None
      (\<lambda>h l. Inr) (\<lambda>i. (0, 0, 0)) unbooted of
     Some (Inr w) \<Rightarrow> live_turn busy_os [0] (echo_app busy_os) lowest_free (\<lambda>n. Inr) 0 w \<noteq> Inl Undefined
   | _ \<Rightarrow> False" (is "case ?start of Some (Inr w) \<Rightarrow> _ | _ \<Rightarrow> _")
proof -
  have b: "blank unbooted" by (simp add: blank_def unbooted_def)
  from busy_start obtain w where w: "?start = Some (Inr w)" by (auto split: option.splits sum.splits)
  have "safe_state (toy_ep \<circ> fst) (set \<circ> snd) 0 w \<and> next_id w = 1"
  proof -
    obtain r where "?start = Some r" "defined r (\<lambda>w'. safe_state (toy_ep \<circ> fst) (set \<circ> snd) 0 w' \<and> next_id w' = 1)"
      using start_solo_safe [OF busy_server_kernel busy_boot_kernel b one_neq_zero] by blast
    with w show ?thesis by auto
  qed
  with live_turn_keeps_safe [OF busy_server_kernel echo_keeps [OF busy_server_kernel] user_skip_keeps
      lowest_free_allocates, of 0 w] w
  show ?thesis by simp
qed

text \<open>
  A server with one loop is memory safe from its start on. A program that builds a loop and a server, sets its callbacks
  and starts it without worker threads returns, and then any number of turns of the loop, up to
  2^32 - 2 of them, never follows a null or dangling pointer, however the kernel interleaves accepts, reads, writes, hang-ups and
  errors; what can end the run early is a LOG_FATAL, an exception or \<open>std::terminate\<close>.\<close>

theorem single_loop_memory_safe:
  assumes "server_kernel os ep opn" and "boot_kernel os ep opn" and "app_keeps ep opn l app" and "user_keeps ep opn l user"
    and "allocates fresh" and "blank w" and "c' \<noteq> c" and "n + 1 < 2 ^ 32"
  shows "\<exists>r. start_server os ntop l c c' addr name opt 0 None onConn onMsg onDone init ids w = Some r \<and>
    andThen r (live_turns os [l] app fresh user l n) \<noteq> Inl Undefined \<and>
    (\<forall>w'. andThen r (live_turns os [l] app fresh user l n) = Inr w' \<longrightarrow> safe_state ep opn l w')"
proof -
  obtain r where r: "start_server os ntop l c c' addr name opt 0 None onConn onMsg onDone init ids w = Some r"
    "defined r (\<lambda>w'. safe_state ep opn l w' \<and> next_id w' = 1)"
    using start_solo_safe [OF assms(1,2,6,7)] by blast
  have "defined (andThen r (live_turns os [l] app fresh user l n)) (safe_state ep opn l)"
    by (rule defined_andThen [OF r(2)]) (rule live_turns_safe [OF assms(1,3-5)]; use assms(8) in simp)
  then show ?thesis
    using r(1) by (cases "andThen r (live_turns os [l] app fresh user l n)") simp_all
qed

theorem single_loop_memory_safe_witness:
  "\<exists>r. start_server busy_os (\<lambda>_. Some ''127.0.0.1'') 0 0 1 \<lparr>sin_port = 1, sin_addr = 1\<rparr> ''Echo'' kNoReusePort 0 None (Some 0) (Some 0) None
      (\<lambda>h l. Inr) (\<lambda>i. (0, 0, 0)) unbooted = Some r \<and> map_sum id next_id r = Inr 1 \<and>
    andThen r (live_turns busy_os [0] (echo_app busy_os) lowest_free (\<lambda>n. Inr) 0 1000) \<noteq> Inl Undefined"
proof -
  have w: "blank unbooted" by (simp add: blank_def unbooted_def)
  have n: "(1 :: nat) \<noteq> 0" "(1000 :: nat) + 1 < 2 ^ 32" by simp_all
  from single_loop_memory_safe [OF busy_server_kernel busy_boot_kernel echo_keeps [OF busy_server_kernel] user_skip_keeps
      lowest_free_allocates w n]
  obtain r where r: "start_server busy_os (\<lambda>_. Some ''127.0.0.1'') 0 0 1 \<lparr>sin_port = 1, sin_addr = 1\<rparr> ''Echo'' kNoReusePort 0 None (Some 0) (Some 0) None
      (\<lambda>h l. Inr) (\<lambda>i. (0, 0, 0)) unbooted = Some r"
    "andThen r (live_turns busy_os [0] (echo_app busy_os) lowest_free (\<lambda>n. Inr) 0 1000) \<noteq> Inl Undefined" by blast
  from busy_start r(1) have "map_sum id next_id r = Inr 1" by (auto split: sum.splits)
  with r show ?thesis by blast
qed

section \<open>Where it is lost\<close>

text \<open>
  C38. A queued functor with a bare \<open>this\<close> keeps nothing alive. \<open>send\<close> and \<open>shutdown\<close> called from another thread, and
  the write-complete and high-water-mark notifications, queue a functor that captures \<open>this\<close> and not a
  shared pointer. If no one else refers to the connection, it is not referenced after the functor has been queued either;
  it can be freed, and the loop's next batch then uses the freed object.\<close>

theorem queued_this_dangles:
  assumes "conns w i = Some co" and "loops w l = Some lp" and "pendingFunctors lp = []" and "\<not> referenced ls i w"
    and "f \<in> {SendInLoop i d, ShutdownInLoop i, WriteComplete i, HighWaterMark i n}"
  shows "\<exists>w1 w2. queueInLoop os l f w = Inr w1 \<and> \<not> referenced ls i w1 \<and>
    destroy_connection os i w1 = Inr w2 \<and> run_batch os ls (run_functor os app user) l w2 = Inl Undefined"
proof -
  have none: "captured f = None" using assms(5) by auto
  let ?lp = "lp\<lparr>pendingFunctors := [f]\<rparr>"
  let ?k = "if threadId lp \<noteq> curThread w \<or> callingPendingFunctors lp then sys_eventfd_write os (wakeupFd lp) (kern w) else kern w"
  let ?v = "(put_loop l ?lp w)\<lparr>kern := ?k\<rparr>"
  let ?x = "?v\<lparr>conns := (conns w)(i := None), chans := (chans w)(cChan co := None),
      kern := (if cSock co \<ge> 0 then sys_close os (cSock co) ?k else ?k)\<rparr>"
  have q: "queueInLoop os l f w = Inr ?v" using assms(2,3) by (simp add: queueInLoop_eq)
  have r: "\<not> referenced ls i ?v"
  proof -
    have "(case loops ?v l' of None \<Rightarrow> False | Some lp \<Rightarrow> Some i \<in> captured ` set (pendingFunctors lp)) =
        (case loops w l' of None \<Rightarrow> False | Some lp \<Rightarrow> Some i \<in> captured ` set (pendingFunctors lp))" for l'
      using none assms(2,3) by simp
    with assms(4) show ?thesis by (simp add: referenced_def put_loop_def)
  qed
  have d: "destroy_connection os i ?v = Inr ?x" using assms(1) by (simp add: destroy_connection_def put_loop_def)
  have dead: "run_functor os app user f y = Inl Undefined" if "conns y i = None" for y
    using that assms(5)
    by (auto simp: run_functor_def run_conn_functor_def sendInLoop_def send_direct_def shutdownInLoop_def with_conn_def Let_def)
  have lx: "loops ?x l = Some ?lp" by (simp add: put_loop_def)
  have "run_functor os app user f (put_loop l (?lp\<lparr>callingPendingFunctors := True, pendingFunctors := []\<rparr>)
      (put_loop l (?lp\<lparr>callingPendingFunctors := True\<rparr>) ?x)) = Inl Undefined"
    by (rule dead) simp
  then have "doPendingFunctors (run_functor os app user) l ?x = Inl Undefined"
    using lx by (simp add: doPendingFunctors_def Let_def)
  then have "run_batch os ls (run_functor os app user) l ?x = Inl Undefined" using lx by (simp add: run_batch_def)
  with q r d show ?thesis by blast
qed

text \<open>A connection of the samples that its server has already forgotten.\<close>

definition forgotten :: "toy echo_world" where
  "forgotten = (echo_state Disconnected empty_buffer 0 [])\<lparr>theServer := Some (sample_server\<lparr>connections := []\<rparr>)\<rparr>"

theorem queued_this_dangles_witness:
  "\<exists>w1 w2. queueInLoop toy_os 0 (SendInLoop 7 [1]) forgotten = Inr w1 \<and>
    destroy_connection toy_os 7 w1 = Inr w2 \<and>
    run_batch toy_os [0] (run_functor toy_os (echo_app toy_os) (\<lambda>n. Inr)) 0 w2 = Inl Undefined"
  using queued_this_dangles [of forgotten 7 "sample_conn Disconnected empty_buffer" 0 sample_loop "[0]" "SendInLoop 7 [1]" "[1]" 0
      toy_os "echo_app toy_os" "\<lambda>n. Inr"]
  by (auto simp: forgotten_def echo_state_def referenced_def sample_loop_def)

text \<open>
  C39. The map goes by name only. If two live connections have the same name -- the counter of names is 32 bits
  wide, so the names repeat after 2^32 connections -- then closing the one that is not in the map takes the
  other out of it: nothing holds that one any more, while its channel is monitored as before and its own
  \<open>connectDestroyed\<close> is not queued.\<close>

theorem name_clash_evicts:
  assumes "conns w i = Some ci" and "conns w j = Some cj" and "i \<noteq> j" and "cName ci = cName cj"
    and "theServer w = Some s" and "connections s = before @ [(cName cj, j)] @ after"
    and "j \<notin> snd ` set (before @ after)" and "loops w (cLoop ci) = Some lp" and "ConnectDestroyed j \<notin> set (pendingFunctors lp)"
  shows "\<exists>w' lp'. removeConnectionInLoop os i w = Inr w' \<and> conns w' = conns w \<and> chans w' = chans w \<and> pollers w' = pollers w \<and>
    \<not> attached w' j \<and> loops w' (cLoop ci) = Some lp' \<and>
    pendingFunctors lp' = pendingFunctors lp @ [ConnectDestroyed i] \<and> ConnectDestroyed j \<notin> set (pendingFunctors lp')"
proof -
  let ?s = "s\<lparr>connections := filter (\<lambda>(n, k). n \<noteq> cName ci) (connections s)\<rparr>"
  have there: "map_of (connections s) (cName ci) \<noteq> None"
    using assms(4,6) by (auto simp: map_of_eq_None_iff)
  have out: "(n, j) \<notin> set (connections ?s)" for n using assms(4,6,7) by force
  show ?thesis
    using assms(1,3,5,8,9) there out
    by (auto simp: removeConnectionInLoop_def with_server_def queueInLoop_eq attached_def put_server_def)
qed

definition twins_state :: "toy echo_world" where
  "twins_state = (echo_state Connected empty_buffer 3 [])
     \<lparr>conns := (\<lambda>_. None)(7 := Some (sample_conn Connected empty_buffer), 8 := Some (sample_conn Disconnected empty_buffer))\<rparr>"

theorem name_clash_evicts_witness:
  "\<exists>w' lp'. removeConnectionInLoop toy_os 8 twins_state = Inr w' \<and> map_option cState (conns w' 7) = Some Connected \<and>
    \<not> attached w' 7 \<and> loops w' 0 = Some lp' \<and> pendingFunctors lp' = [ConnectDestroyed 8]"
proof -
  have f: "conns twins_state 8 = Some (sample_conn Disconnected empty_buffer)"
    "conns twins_state 7 = Some (sample_conn Connected empty_buffer)" "theServer twins_state = Some sample_server"
    "loops twins_state 0 = Some sample_loop"
    by (simp_all add: twins_state_def)
  have n: "cName (sample_conn Disconnected empty_buffer) = cName (sample_conn Connected empty_buffer)"
    "connections sample_server = [] @ [(cName (sample_conn Connected empty_buffer), 7)] @ []"
    by (simp_all add: sample_conn_def sample_server_def)
  show ?thesis
    using name_clash_evicts [OF f(1,2) _ n(1) f(3) n(2), of sample_loop toy_os] f by (auto simp: sample_loop_def)
qed

end
