(* ===== verification/MultiProps.thy ===== *)
theory MultiProps
  imports SafetyProps SystemTurn
begin

unbundle bit_operations_syntax

text \<open>The properties of a server with worker threads, whatever the order in which its loops run.\<close>

section \<open>Memory safety with worker threads\<close>

lemma sys_shared:
  assumes "sys_ok ep opn ls b (w, acts)" "conns w i \<noteq> None"
  shows "shared ls acts i w"
  using sys_okD(3) [OF assms(1)] shared_iff [OF assms(1), of acts i] assms(2) unfolding all_owned_def by simp

text \<open>A run from the start of the program, and where it is: the invariant, or an orderly end.\<close>

lemma started_run:
  fixes w :: "('k, 'z) server_world_scheme"
  assumes "server_kernel os ep opn" and "boot_kernel os ep opn" and "\<And>l. app_keeps ep opn l app" and "\<And>l. user_keeps ep opn l user"
    and "allocates fresh" and "init_keeps ep opn init onInit" and "blank w"
    and "unat n < 2 ^ 31" and "ids_ok l c c' (unat n) ids (curThread w)"
    and "set sched \<subseteq> set (all_loops l (unat n) ids)" and "count_list sched l + 1 < 2 ^ 32"
  shows "\<exists>r. start_server os ntop l c c' addr name opt n onInit onConn onMsg onDone init ids w = Some r \<and>
    defined (andThen r (\<lambda>w. sys_run os app fresh user (all_loops l (unat n) ids) sched (w, \<lambda>_. Idle)))
      (sys_safe ep opn (all_loops l (unat n) ids) l (1 + count_list sched l))"
proof -
  let ?ls = "all_loops l (unat n) ids"
  obtain r where r: "start_server os ntop l c c' addr name opt n onInit onConn onMsg onDone init ids w = Some r"
    "defined r (\<lambda>v. (sys_ok ep opn ?ls l (v, \<lambda>_. Idle) \<and> next_id v = 1) \<and> vacant onConn v)"
    using start_server_safe [OF assms(1,2,6-9)] by blast
  have "defined (andThen r (\<lambda>w. sys_run os app fresh user ?ls sched (w, \<lambda>_. Idle))) (sys_safe ep opn ?ls l (1 + count_list sched l))"
  proof (rule defined_andThen [OF r(2)], elim conjE)
    fix v :: "('k, 'z) server_world_scheme" assume v: "sys_ok ep opn ?ls l (v, \<lambda>_. Idle)" "next_id v = 1"
    then show "defined (sys_run os app fresh user ?ls sched (v, \<lambda>_. Idle)) (sys_safe ep opn ?ls l (1 + count_list sched l))"
      using sys_run_safe [OF assms(1,3,4,5) v(1) assms(10)] assms(11) by simp
  qed
  with r(1) show ?thesis by blast
qed

text \<open>
  C3. A server with worker threads is memory safe. The program builds a loop and a server, asks for any number of
  worker threads below 2^31 and starts it; the start returns or ends the process. Then the threads go on in any order: a
  schedule is any sequence of steps of the loops, where a step polls, handles the events of one channel, swaps the queue
  out, runs one functor, or gives up one reference. As long as the server's own loop has taken fewer than 2^32 - 1
  steps, no step follows a null or dangling pointer, whatever the kernel reports and the peers send, and
  every live connection has an owner: the server's map, a queued functor, or a batch that is being run or destroyed.\<close>

theorem multi_loop_memory_safe:
  fixes w :: "('k, 'z) server_world_scheme"
  assumes "server_kernel os ep opn" and "boot_kernel os ep opn" and "\<And>l. app_keeps ep opn l app" and "\<And>l. user_keeps ep opn l user"
    and "allocates fresh" and "init_keeps ep opn init onInit" and "blank w"
    and "unat n < 2 ^ 31" and "ids_ok l c c' (unat n) ids (curThread w)"
    and "set sched \<subseteq> set (all_loops l (unat n) ids)" and "count_list sched l + 1 < 2 ^ 32"
  shows "\<exists>r. start_server os ntop l c c' addr name opt n onInit onConn onMsg onDone init ids w = Some r \<and>
    andThen r (\<lambda>w. sys_run os app fresh user (all_loops l (unat n) ids) sched (w, \<lambda>_. Idle)) \<noteq> Inl Undefined \<and>
    (\<forall>w' acts i. andThen r (\<lambda>w. sys_run os app fresh user (all_loops l (unat n) ids) sched (w, \<lambda>_. Idle)) = Inr (w', acts) \<longrightarrow>
       conns w' i \<noteq> None \<longrightarrow> shared (all_loops l (unat n) ids) acts i w')"
proof -
  obtain r where r: "start_server os ntop l c c' addr name opt n onInit onConn onMsg onDone init ids w = Some r"
    "defined (andThen r (\<lambda>w. sys_run os app fresh user (all_loops l (unat n) ids) sched (w, \<lambda>_. Idle)))
      (sys_safe ep opn (all_loops l (unat n) ids) l (1 + count_list sched l))"
    using started_run [OF assms] by blast
  then show ?thesis
    by (cases "andThen r (\<lambda>w. sys_run os app fresh user (all_loops l (unat n) ids) sched (w, \<lambda>_. Idle))")
      (auto simp: sys_safe_def simp del: not_None_eq intro: sys_shared)
qed

text \<open>The echo server with a worker, on the busy kernel; the threads are 1 and 2.\<close>

definition worker_ids :: "nat \<Rightarrow> tid \<times> lid \<times> cid" where
  "worker_ids i = (int i + 2, i + 1, i + 2)"

lemma worker_ids_ok: "ids_ok 0 0 1 1 worker_ids (curThread unbooted)"
  by (simp add: ids_ok_def all_apart_def worker_ids_def tid_of_def lid_of_def cid_of_def unbooted_def upt_rec)

lemma worker_loops: "all_loops 0 1 worker_ids = [0, 1]"
  by (simp add: all_loops_def worker_ids_def lid_of_def upt_rec)

lemma busy_start_workers:
  "case start_server busy_os (\<lambda>_. Some ''127.0.0.1'') 0 0 1 \<lparr>sin_port = 1, sin_addr = 1\<rparr> ''Echo'' kNoReusePort 1 None (Some 0) (Some 0) None
      (\<lambda>h l. Inr) worker_ids unbooted of Some (Inr w) \<Rightarrow> next_id w = 1 | _ \<Rightarrow> False"
  by code_simp

theorem multi_loop_memory_safe_witness:
  "\<exists>r. start_server busy_os (\<lambda>_. Some ''127.0.0.1'') 0 0 1 \<lparr>sin_port = 1, sin_addr = 1\<rparr> ''Echo'' kNoReusePort 1 None (Some 0) (Some 0) None
      (\<lambda>h l. Inr) worker_ids unbooted = Some r \<and> map_sum id next_id r = Inr 1 \<and>
    andThen r (\<lambda>w. sys_run busy_os (echo_app busy_os) lowest_free (\<lambda>n. Inr) [0, 1] (concat (replicate 100 [0, 1, 0, 1, 1])) (w, \<lambda>_. Idle)) \<noteq>
      Inl Undefined"
proof -
  have b: "blank unbooted" by (simp add: blank_def unbooted_def)
  have n: "unat (1 :: size_t) = 1" by simp
  have i: "init_keeps ep opn (\<lambda>h l. Inr) None" for ep opn by (simp add: init_keeps_def)
  have s: "set (concat (replicate 100 [0, 1, 0, 1, 1])) \<subseteq> set (all_loops 0 1 worker_ids)" unfolding worker_loops by auto
  have "count_list (concat (replicate 100 [0, 1, 0, 1, 1 :: nat])) 0 \<le> length (concat (replicate 100 [0, 1, 0, 1, 1 :: nat]))"
    by (rule count_le_length)
  also have "\<dots> = 500" by (simp add: length_concat sum_list_replicate)
  finally have c: "count_list (concat (replicate 100 [0, 1, 0, 1, 1 :: nat])) 0 + 1 < 2 ^ 32" by (rule le_less_trans [OF add_right_mono]) simp
  from multi_loop_memory_safe [OF busy_server_kernel busy_boot_kernel echo_keeps [OF busy_server_kernel] user_skip_keeps
      lowest_free_allocates i b, of 1, unfolded n, OF _ worker_ids_ok s c, unfolded worker_loops]
  obtain r where r: "start_server busy_os (\<lambda>_. Some ''127.0.0.1'') 0 0 1 \<lparr>sin_port = 1, sin_addr = 1\<rparr> ''Echo'' kNoReusePort 1 None (Some 0) (Some 0) None
      (\<lambda>h l. Inr) worker_ids unbooted = Some r"
    "andThen r (\<lambda>w. sys_run busy_os (echo_app busy_os) lowest_free (\<lambda>n. Inr) [0, 1] (concat (replicate 100 [0, 1, 0, 1, 1])) (w, \<lambda>_. Idle)) \<noteq>
      Inl Undefined" by fastforce
  from busy_start_workers r(1) have "map_sum id next_id r = Inr 1" by (auto split: sum.splits)
  with r show ?thesis by blast
qed

text \<open>The server of the witnesses, right after its start.\<close>

abbreviation busy_workers :: "(toy \<times> fd list) echo_world result option" where
  "busy_workers \<equiv> start_server busy_os (\<lambda>_. Some ''127.0.0.1'') 0 0 1 \<lparr>sin_port = 1, sin_addr = 1\<rparr> ''Echo'' kNoReusePort 1 None (Some 0) (Some 0) None
      (\<lambda>h l. Inr) worker_ids unbooted"

lemma busy_workers_ok:
  obtains w where "busy_workers = Some (Inr w)" "sys_ok (toy_ep \<circ> fst) (set \<circ> snd) [0, 1] 0 (w, \<lambda>_. Idle)" "next_id w = 1"
proof -
  have b: "blank unbooted" by (simp add: blank_def unbooted_def)
  have i: "init_keeps (toy_ep \<circ> fst) (set \<circ> snd) (\<lambda>h l. Inr) None" by (simp add: init_keeps_def)
  have n: "unat (1 :: size_t) = 1" by simp
  from start_server_safe [OF busy_server_kernel busy_boot_kernel i b, of 1, unfolded n, OF _ worker_ids_ok, unfolded worker_loops]
  obtain r where r: "busy_workers = Some r"
    "defined r (\<lambda>v. (sys_ok (toy_ep \<circ> fst) (set \<circ> snd) [0, 1] 0 (v, \<lambda>_. Idle) \<and> next_id v = 1) \<and> vacant (Some 0) v)" by fastforce
  from busy_start_workers obtain w where "busy_workers = Some (Inr w)" by (auto split: option.splits sum.splits)
  with r that show ?thesis by simp
qed

section \<open>One step\<close>

text \<open>
  C4. Every step keeps the typing of the process. If every pointer that the program holds, on every loop's stack too,
  leads to a live object that fits it (\<open>sys_ok\<close>), then a step of any loop does not follow a null or dangling pointer,
  whatever the kernel reports and the peers send, and ends in such a state again. Only the server's own loop uses up numbers of
  connections, at most one in a step. Application handlers are asked to keep the invariant on live connections of
  their loop.\<close>

theorem sys_step_keeps_typing:
  fixes w :: "('k, 'z) server_world_scheme"
  assumes "server_kernel os ep opn" and "\<And>l. app_keeps ep opn l app" and "\<And>l. user_keeps ep opn l user" and "allocates fresh"
    and "sys_ok ep opn ls b (w, acts)" and "l = b \<Longrightarrow> next_id w + 1 < 2 ^ 32" and "l \<in> set ls"
  shows "sys_step os app fresh user ls l (w, acts) \<noteq> Inl Undefined \<and>
    (\<forall>w' acts'. sys_step os app fresh user ls l (w, acts) = Inr (w', acts') \<longrightarrow>
       sys_ok ep opn ls b (w', acts') \<and> next_id w' \<le> next_id w + of_bool (l = b))"
  using sys_step_safe [OF assms]
  by (cases "sys_step os app fresh user ls l (w, acts)") (auto simp: sys_safe_def simp del: of_bool_eq_iff)

theorem sys_step_keeps_typing_witness:
  "\<exists>v. busy_workers = Some (Inr v) \<and> sys_step busy_os (echo_app busy_os) lowest_free (\<lambda>n. Inr) [0, 1] 1 (v, \<lambda>_. Idle) \<noteq> Inl Undefined"
proof -
  obtain v where v: "busy_workers = Some (Inr v)" "sys_ok (toy_ep \<circ> fst) (set \<circ> snd) [0, 1] 0 (v, \<lambda>_. Idle)" "next_id v = 1"
    by (rule busy_workers_ok)
  from sys_step_keeps_typing [OF busy_server_kernel echo_keeps [OF busy_server_kernel] user_skip_keeps lowest_free_allocates v(2), of 1] v
  show ?thesis by simp
qed

section \<open>Loop affinity\<close>

text \<open>The channels a loop still has to handle, and the connection in whose loop a functor must run.\<close>

fun active_of :: "activity \<Rightarrow> cid list" where
  "active_of (Dispatching now cs) = cs"
| "active_of a = []"

fun runs_for :: "functor_cb \<Rightarrow> conn option" where
  "runs_for (RemoveConnectionInLoop i) = None"
| "runs_for AcceptorListen = None"
| "runs_for (UserFunctor n) = None"
| "runs_for (ConnectEstablished i) = Some i"
| "runs_for (ConnectDestroyed i) = Some i"
| "runs_for f = bare f"

fun base_only :: "functor_cb \<Rightarrow> bool" where
  "base_only (RemoveConnectionInLoop i) = True"
| "base_only AcceptorListen = True"
| "base_only f = False"

lemma runnable_home:
  assumes "runnable m w f"
  shows "runs_for f = Some i \<Longrightarrow> \<exists>co. conns w i = Some co \<and> cLoop co = m" "base_only f \<Longrightarrow> base_loop m w"
  using assms by (cases f; auto simp: mine_def waiting_def)+

lemma sys_ok_home:
  assumes s: "sys_ok ep opn ls b (w, acts)"
  shows "c \<in> set (active_of (acts m)) \<Longrightarrow> conns w i = Some co \<Longrightarrow> cChan co = c \<Longrightarrow> cLoop co = m"
    "f \<in> set (todo_of (acts m)) \<Longrightarrow> runs_for f = Some i \<Longrightarrow> \<exists>co. conns w i = Some co \<and> cLoop co = m"
    "f \<in> set (todo_of (acts m)) \<Longrightarrow> base_only f \<Longrightarrow> m = b"
    "loops w m = Some lp \<Longrightarrow> loops w m' = Some lp' \<Longrightarrow> threadId lp = threadId lp' \<Longrightarrow> m = m'"
    "c \<in> set (active_of (acts m)) \<Longrightarrow> chans w c = Some ch \<Longrightarrow> chLoop ch = m"
    "chans w c = Some ch \<Longrightarrow> Some AcceptorHandleRead \<in> callbacks_of ch \<Longrightarrow> chLoop ch = b"
proof -
  from sys_okD(1) [OF s] obtain k where w: "world_ok ep opn k (todos acts) w" by blast
  have run: "runnable m w f" if "f \<in> set (todo_of (acts m))" for f
    using world_okD(4) [OF w] that by (simp add: loops_ok_def todos_def)
  show "cLoop co = m" if "c \<in> set (active_of (acts m))" "conns w i = Some co" "cChan co = c"
  proof -
    have "engaged m w c" using sys_okD(2) [OF s, of m] that(1) by (cases "acts m") simp_all
    from engagedD(3) [OF this that(2,3)] that(2) show ?thesis by (simp add: mine_def)
  qed
  show "\<exists>co. conns w i = Some co \<and> cLoop co = m" if "f \<in> set (todo_of (acts m))" "runs_for f = Some i"
    by (rule runnable_home(1) [OF run [OF that(1)] that(2)])
  show "m = b" if "f \<in> set (todo_of (acts m))" "base_only f"
    using runnable_home(2) [OF run [OF that(1)] that(2)] sys_okD(6) [OF s] by (simp add: accepts_base [OF w] base_loop_def) auto
  show "m = m'" if "loops w m = Some lp" "loops w m' = Some lp'" "threadId lp = threadId lp'"
    using world_okD(4) [OF w] that unfolding loops_ok_def by blast
  show "chLoop ch = m" if "c \<in> set (active_of (acts m))" "chans w c = Some ch"
  proof -
    have "engaged m w c" using sys_okD(2) [OF s, of m] that(1) by (cases "acts m") simp_all
    with that(2) show ?thesis by (auto dest: engagedD(1))
  qed
  show "chLoop ch = b" if "chans w c = Some ch" "Some AcceptorHandleRead \<in> callbacks_of ch"
  proof -
    from world_okD(2) [OF w] that have "cb_ok w (chLoop ch) c AcceptorHandleRead" unfolding conns_ok_def by blast
    with sys_okD(6) [OF s] that(1) show ?thesis by (auto simp: cb_ok_def accepts_def acceptor_chan_def)
  qed
qed

text \<open>
  C5. One loop per thread, and each connection in one loop. In a server with worker threads, in every state the
  interleaving can reach, two loops have different threads; a channel that a loop is about to handle belongs to that loop, and
  so does its connection, if it has one; and the functors that establish, notify or destroy a connection only stand in a batch of the loop of
  the connection, which is then alive. The listening channel, whose callback accepts and enters connections into the server's map, is
  only handled in the server's own loop, and the functors that take a connection out of the map or start listening only stand in a batch
  of that loop. So no two threads ever handle events of, establish, notify or destroy the same connection.\<close>

theorem loop_affinity:
  fixes w :: "('k, 'z) server_world_scheme"
  assumes "server_kernel os ep opn" and "boot_kernel os ep opn" and "\<And>l. app_keeps ep opn l app" and "\<And>l. user_keeps ep opn l user"
    and "allocates fresh" and "init_keeps ep opn init onInit" and "blank w"
    and "unat n < 2 ^ 31" and "ids_ok l c c' (unat n) ids (curThread w)"
    and "set sched \<subseteq> set (all_loops l (unat n) ids)" and "count_list sched l + 1 < 2 ^ 32"
    and "start_server os ntop l c c' addr name opt n onInit onConn onMsg onDone init ids w = Some (Inr v)"
    and "sys_run os app fresh user (all_loops l (unat n) ids) sched (v, \<lambda>_. Idle) = Inr (w', acts)"
  shows "(\<forall>m m' lp lp'. loops w' m = Some lp \<and> loops w' m' = Some lp' \<and> threadId lp = threadId lp' \<longrightarrow> m = m') \<and>
    (\<forall>m i co. conns w' i = Some co \<and> cChan co \<in> set (active_of (acts m)) \<longrightarrow> cLoop co = m) \<and>
    (\<forall>m c ch. chans w' c = Some ch \<and> c \<in> set (active_of (acts m)) \<longrightarrow>
      chLoop ch = m \<and> (Some AcceptorHandleRead \<in> callbacks_of ch \<longrightarrow> m = l)) \<and>
    (\<forall>m f i. f \<in> set (todo_of (acts m)) \<and> runs_for f = Some i \<longrightarrow> (\<exists>co. conns w' i = Some co \<and> cLoop co = m)) \<and>
    (\<forall>m f. f \<in> set (todo_of (acts m)) \<and> base_only f \<longrightarrow> m = l)"
proof -
  obtain r where r: "start_server os ntop l c c' addr name opt n onInit onConn onMsg onDone init ids w = Some r"
    "defined (andThen r (\<lambda>w. sys_run os app fresh user (all_loops l (unat n) ids) sched (w, \<lambda>_. Idle)))
      (sys_safe ep opn (all_loops l (unat n) ids) l (1 + count_list sched l))"
    using started_run [OF assms(1-11)] by blast
  with assms(12,13) have "sys_ok ep opn (all_loops l (unat n) ids) l (w', acts)" by (simp add: sys_safe_def)
  note home = sys_ok_home [OF this]
  show ?thesis using home(1) home(2) home(3) home(4) home(5) home(6) by blast
qed

section \<open>Descriptors, channels and the kernel\<close>

text \<open>
  A connection and what belongs to it: an open socket, a channel of the same loop that reports input to this connection, and
  the kernel, where the poller of that loop monitors the socket for the events the channel asks for, and no other poller does.
\<close>

definition wired :: "'k interest \<Rightarrow> ('k \<Rightarrow> fd set) \<Rightarrow> ('k, 'z) conn_world_scheme \<Rightarrow> conn \<Rightarrow> tcp_connection \<Rightarrow> bool" where
  "wired ep opn w i co \<longleftrightarrow> cSock co \<in> opn (kern w) \<and>
     (\<exists>ch. chans w (cChan co) = Some ch \<and> chFd ch = cSock co \<and> chLoop ch = cLoop co \<and> readCallback ch = Some (ConnHandleRead i) \<and>
       pollers w (cLoop co) \<noteq> None \<and>
       (\<forall>m p. pollers w m = Some p \<longrightarrow> ep (kern w) (epollfd p) (cSock co) =
          (if m = cLoop co \<and> index ch = KAdded then Some (events ch, cChan co) else None)))"

text \<open>A descriptor is monitored on behalf of its only channel, by the poller of the channel's loop.\<close>

lemma chans_ok_monitored:
  assumes w: "chans_ok ep opn w" and ch: "chans w c = Some ch" and p: "pollers w m = Some p"
  shows "ep (kern w) (epollfd p) (chFd ch) = (if m = chLoop ch \<and> index ch = KAdded then Some (events ch, c) else None)"
proof -
  from w have sync: "poller_sync ep w" and one: "\<And>c' ch'. chans w c' = Some ch' \<Longrightarrow> chFd ch' = chFd ch \<Longrightarrow> c' = c"
    using ch unfolding chans_ok_def by blast+
  from sync p have ok: "poller_ok ep (kern w) (chans w) m p" by (simp add: poller_sync_def)
  from sync ch have cok: "channel_ok (pollers w) c ch" by (simp add: poller_sync_def)
  have entry: "c' = c \<and> m = chLoop ch \<and> index ch \<noteq> KNew" if "channels p (chFd ch) = Some c'" for c'
    using ok that one [of c'] ch unfolding poller_ok_def by (metis option.inject)
  have here: "channels p (chFd ch) = Some c" if "m = chLoop ch" "index ch = KAdded"
    using cok p that by (auto simp: channel_ok_def)
  from ok have "ep (kern w) (epollfd p) (chFd ch) = expected_interest p (chans w) (chFd ch)" by (simp add: poller_ok_def)
  also have "\<dots> = (if m = chLoop ch \<and> index ch = KAdded then Some (events ch, c) else None)"
    using here entry ch by (cases "channels p (chFd ch)") (auto simp: expected_interest_def)
  finally show ?thesis .
qed

lemma world_ok_wired:
  assumes w: "world_ok ep opn k T w" and i: "conns w i = Some co"
  shows "wired ep opn w i co"
proof -
  from world_okD(2) [OF w] i obtain ch where ch: "chans w (cChan co) = Some ch" "chFd ch = cSock co" "chLoop ch = cLoop co"
    "readCallback ch = Some (ConnHandleRead i)" unfolding conns_ok_def by blast
  from world_okD(1) [OF w] ch have "pollers w (cLoop co) \<noteq> None" "cSock co \<in> opn (kern w)" unfolding chans_ok_def by metis+
  with ch chans_ok_monitored [OF world_okD(1) [OF w] ch(1)] show ?thesis unfolding wired_def by auto
qed

lemma world_ok_apart:
  assumes w: "world_ok ep opn k T w" and ij: "conns w i = Some co" "conns w j = Some co'" "i \<noteq> j"
  shows "cSock co \<noteq> cSock co'" "cName co \<noteq> cName co'"
proof -
  from world_ok_wired [OF w ij(1)] world_ok_wired [OF w ij(2)] obtain ch ch' where
    "chans w (cChan co) = Some ch" "chFd ch = cSock co" "readCallback ch = Some (ConnHandleRead i)"
    "chans w (cChan co') = Some ch'" "chFd ch' = cSock co'" "readCallback ch' = Some (ConnHandleRead j)"
    unfolding wired_def by blast
  with ij(3) world_okD(1) [OF w] show "cSock co \<noteq> cSock co'" unfolding chans_ok_def by (metis event_cb.inject option.inject)
  from world_okD(3) [OF w] ij show "cName co \<noteq> cName co'" unfolding server_ok_def serves_def by blast
qed

text \<open>
  C7. No connection takes the events of another. In every state that the interleaving of the loops can reach, a
  live connection has an open socket of its own, that no other connection shares, and a name of its own; its channel reports
  input on that socket to this connection; and the kernel monitors the socket in the epoll instance of the
  connection's loop and in no other, for exactly the events the channel asks for, or not at all if the channel is not
  registered.\<close>

theorem connections_wired:
  fixes w :: "('k, 'z) server_world_scheme"
  assumes "server_kernel os ep opn" and "boot_kernel os ep opn" and "\<And>l. app_keeps ep opn l app" and "\<And>l. user_keeps ep opn l user"
    and "allocates fresh" and "init_keeps ep opn init onInit" and "blank w"
    and "unat n < 2 ^ 31" and "ids_ok l c c' (unat n) ids (curThread w)"
    and "set sched \<subseteq> set (all_loops l (unat n) ids)" and "count_list sched l + 1 < 2 ^ 32"
    and "start_server os ntop l c c' addr name opt n onInit onConn onMsg onDone init ids w = Some (Inr v)"
    and "sys_run os app fresh user (all_loops l (unat n) ids) sched (v, \<lambda>_. Idle) = Inr (w', acts)"
  shows "(\<forall>i co. conns w' i = Some co \<longrightarrow> wired ep opn w' i co) \<and>
    (\<forall>i j co co'. conns w' i = Some co \<and> conns w' j = Some co' \<and> i \<noteq> j \<longrightarrow> cSock co \<noteq> cSock co' \<and> cName co \<noteq> cName co')"
proof -
  from started_run [OF assms(1-11)] assms(12,13)
  obtain r where "r = Inr v" "defined (andThen r (\<lambda>w. sys_run os app fresh user (all_loops l (unat n) ids) sched (w, \<lambda>_. Idle)))
      (sys_safe ep opn (all_loops l (unat n) ids) l (1 + count_list sched l))"
    by (metis option.inject)
  with assms(13) have "sys_ok ep opn (all_loops l (unat n) ids) l (w', acts)" by (simp add: sys_safe_def)
  from sys_okD(1) [OF this] obtain k where w: "world_ok ep opn k (todos acts) w'" by blast
  show ?thesis using world_ok_wired [OF w] world_ok_apart [OF w] by blast
qed

section \<open>The steps and the loop\<close>

text \<open>
  C8. The steps of the interleaving are those of the code's loop. From any reachable state in which a loop is about to poll,
  some number of its own steps, with no step of another loop in between, does what one turn of
  \<open>EventLoop::loop\<close> does in its thread: the same world, the same fault if there is one; what is left on its stack is the
  batch of functors that it has run.\<close>

theorem own_steps_make_a_turn:
  fixes w :: "('k, 'z) server_world_scheme"
  assumes "server_kernel os ep opn" and "app_keeps ep opn l app" and "user_keeps ep opn l user" and "allocates fresh"
    and "sys_ok ep opn ls b (w, acts)" and "loops w l = Some lp" and "acts l = Idle" and "next_id w + 1 < 2 ^ 32"
  shows "\<exists>n fs. sys_run os app fresh user ls (replicate (Suc n) l) (w, acts) =
    andThen (server_turn os app fresh user l (w\<lparr>curThread := threadId lp\<rparr>)) (\<lambda>w. Inr (w, acts(l := Releasing fs)))"
proof -
  let ?v = "w\<lparr>curThread := threadId lp\<rparr>"
  have id: "next_id ?v + 1 < 2 ^ 32" using assms(8) by (simp add: next_id_def)
  have st: "sys_step os app fresh user ls l (w, acts) = sys_step os app fresh user ls l (?v, acts)"
    using assms(6,7) by (simp add: sys_step_def Let_def)
  from turn_steps [OF assms(1-4) sys_switch(2) [OF assms(5,6)] assms(7) id, where ls = ls]
  obtain n fs where n: "sys_run os app fresh user ls (replicate n l) (?v, acts) =
    andThen (server_turn os app fresh user l ?v) (\<lambda>w. Inr (w, acts(l := Releasing fs)))" by blast
  have "n \<noteq> 0"
  proof
    assume "n = 0"
    with n have "acts = acts(l := Releasing fs)" by (auto simp: andThen_Inr_iff dest: sym)
    with assms(7) show False by (metis activity.distinct(5) fun_upd_same)
  qed
  then obtain k where "n = Suc k" by (cases n) auto
  with n st have "sys_run os app fresh user ls (replicate (Suc k) l) (w, acts) =
    andThen (server_turn os app fresh user l ?v) (\<lambda>w. Inr (w, acts(l := Releasing fs)))" by simp
  then show ?thesis by blast
qed

theorem own_steps_make_a_turn_witness:
  "\<exists>v lp n fs. busy_workers = Some (Inr v) \<and> loops v 1 = Some lp \<and>
    sys_run busy_os (echo_app busy_os) lowest_free (\<lambda>n. Inr) [0, 1] (replicate (Suc n) 1) (v, \<lambda>_. Idle) =
      andThen (server_turn busy_os (echo_app busy_os) lowest_free (\<lambda>n. Inr) 1 (v\<lparr>curThread := threadId lp\<rparr>))
        (\<lambda>w. Inr (w, (\<lambda>_. Idle)(1 := Releasing fs)))"
proof -
  obtain v where v: "busy_workers = Some (Inr v)" "sys_ok (toy_ep \<circ> fst) (set \<circ> snd) [0, 1] 0 (v, \<lambda>_. Idle)" "next_id v = 1"
    by (rule busy_workers_ok)
  from sys_okD(4) [OF v(2), of 1] obtain lp where lp: "loops v 1 = Some lp" by auto
  from own_steps_make_a_turn [OF busy_server_kernel echo_keeps [OF busy_server_kernel] user_skip_keeps
      lowest_free_allocates v(2) lp] v lp show ?thesis by (simp del: fun_upd_apply replicate_Suc)
qed

end
