(* ===== verification/CallbackProps.thy ===== *)
theory CallbackProps
  imports CallbackOrder MultiProps
begin

unbundle bit_operations_syntax

text \<open>What the application of a server hears of a connection, whatever the order in which the loops run.\<close>

section \<open>The protocol of the callbacks\<close>

text \<open>Forgetting the notes does not change the state the loops see.\<close>

lemma sys_ok_forget:
  fixes v :: "('k, 'z) noted_world_scheme"
  assumes s: "sys_ok ep opn ls b (v, \<lambda>_. Idle)"
  shows "sys_ok ep opn ls b (v\<lparr>told := []\<rparr>, \<lambda>_. Idle)"
proof -
  let ?v = "v\<lparr>told := []\<rparr>"
  from sys_okD(1) [OF s] obtain m where m: "world_ok ep opn m (todos (\<lambda>_. Idle)) v" by blast
  have g: "grows v ?v" by (rule grows_simple) (simp_all add: same_loops_eq)
  show ?thesis
  proof (rule sys_okI)
    show "world_ok ep opn m (todos (\<lambda>_. Idle)) ?v" using m ok_same [of ?v v] by simp
    show "loops ?v m \<noteq> None \<longleftrightarrow> m \<in> set ls" for m using sys_okD(4) [OF s, of m] by simp
  qed (use all_owned_grows [OF sys_okD(3) [OF s] g] accepts_grows [OF sys_okD(6) [OF s] g] in simp_all)
qed

lemma vacant_spoken: "vacant (Some h) v \<Longrightarrow> told v = [] \<Longrightarrow> spoken v"
  by (rule spokenI) (auto simp: vacant_def roll_def heard_def desk_def)

text \<open>
  C6. The application hears of each connection in order. Let a server with any number of worker threads be started
  with a connection callback, and let the application note every call of its connection callback and its message
  callback under the name of the connection. Then in every state that any interleaving of the loops can reach, what was
  noted of each name is nothing, or one Up and after it only Downs and Data: no connection is
  announced twice, none is heard of before it is announced, and no name comes back. A connection
  that is alive has been announced exactly if it is no longer Connecting. (That more than one Down may come, or Data after it, is
  the finding on \<open>handleClose\<close>.)\<close>

theorem callbacks_in_order:
  fixes w :: "('k, 'z) noted_world_scheme"
  assumes "server_kernel os ep opn" and "boot_kernel os ep opn" and "\<And>l. app_keeps ep opn l app" and "app_calm app"
    and "\<And>l. user_keeps ep opn l user" and "\<And>k u u'. user k u = Inr u' \<Longrightarrow> calm u u'"
    and "allocates fresh" and "init_keeps ep opn init onInit" and "blank w"
    and "unat n < 2 ^ 31" and "ids_ok l c c' (unat n) ids (curThread w)"
    and "set sched \<subseteq> set (all_loops l (unat n) ids)" and "count_list sched l + 1 < 2 ^ 32"
    and "start_server os ntop l c c' addr name opt n onInit (Some h) onMsg onDone init ids w = Some (Inr v)"
    and "sys_run os (noting app) fresh user (all_loops l (unat n) ids) sched (v\<lparr>told := []\<rparr>, \<lambda>_. Idle) = Inr (w', acts)"
  shows "(\<forall>n. protocol (heard w' n)) \<and>
    (\<forall>i co. conns w' i = Some co \<longrightarrow> (heard w' (cName co) = [] \<longleftrightarrow> cState co = Connecting))"
proof -
  let ?ls = "all_loops l (unat n) ids" and ?v = "v\<lparr>told := []\<rparr>"
  obtain r where r: "start_server os ntop l c c' addr name opt n onInit (Some h) onMsg onDone init ids w = Some r"
    "defined r (\<lambda>v. (sys_ok ep opn ?ls l (v, \<lambda>_. Idle) \<and> next_id v = 1) \<and> vacant (Some h) v)"
    using start_server_safe [OF assms(1,2,8-11)] by blast
  from r(1) assms(14) have "r = Inr v" by simp
  with r(2) have v: "sys_ok ep opn ?ls l (v, \<lambda>_. Idle)" "next_id v = 1" "vacant (Some h) v" by simp_all
  have "spoken ?v" by (rule vacant_spoken [where h = h]) (use v(3) in \<open>simp_all add: vacant_def\<close>)
  moreover have "next_id ?v + count_list sched l < 2 ^ 32" using v(2) assms(13) by (simp add: next_id_def)
  ultimately have s: "spoken w'"
    by (intro sys_run_spoken [of os ep opn app user fresh ?ls l ?v "\<lambda>_. Idle" sched w' acts])
      (assumption | rule assms noting_keeps sys_ok_forget v)+
  have "heard w' (cName co) = [] \<longleftrightarrow> cState co = Connecting" if "conns w' i = Some co" for i co
    using spokenD(4) [OF s, of i "cName co"] that by (simp add: roll_def)
  with spokenD(1) [OF s] show ?thesis by blast
qed

text \<open>
  The witness: the busy kernel has a client at once, and the second step of the loop accepts and announces it; after the seventh
  the next poll has reported the listening channel and the connection's. The buffers of the connection are not looked at,
  so they are not evaluated.
\<close>

definition fresh_buffer :: buffer where
  "fresh_buffer = (case new_buffer kInitialSize of Inr b \<Rightarrow> b | Inl e \<Rightarrow> \<lparr>bytes = [], readerIndex = 0, writerIndex = 0\<rparr>)"

lemma new_buffer_fresh: "new_buffer kInitialSize = Inr fresh_buffer"
proof -
  have "returns (new_buffer kInitialSize) buffer_inv"
    by (rule returns_mono [OF new_buffer_ok]) (simp_all add: max_size_def)
  then show ?thesis unfolding fresh_buffer_def by (auto simp: returns_iff)
qed

declare fresh_buffer_def [code del]

lemma new_connection_fresh [code]:
  "new_connection os i c l name sockfd local peer w =
     (let co = \<lparr>cLoop = l, cName = name, cState = Connecting, cSock = sockfd, cChan = c,
             localAddr = local, peerAddr = peer, inputBuffer = fresh_buffer, outputBuffer = fresh_buffer,
             onConnection = None, onMessage = None, onWriteComplete = None, onClose = None,
             onHighWaterMark = None, highWaterMark = kDefaultHighWaterMark\<rparr>;
           w = configureSocketOptions os sockfd (put_conn i co (put_channel c (new_channel l sockfd) w))
       in modify_channel c (setupChannelCallbacks i) w)"
  unfolding new_connection_def new_buffer_fresh by simp

text \<open>An allocator that is quick about the first connection.\<close>

definition quick_free :: "('k, 'z) server_world_scheme \<Rightarrow> conn \<times> cid" where
  "quick_free w = (if conns w 0 = None \<and> chans w 2 = None then (0, 2) else lowest_free w)"

lemma quick_free_allocates: "allocates quick_free"
  by (simp add: allocates_def quick_free_def lowest_free_def lowest_is_free)

declare lowest_free_def [code del]

definition unheard :: "(toy \<times> fd list) noted_world" where
  "unheard = \<lparr>kern = (toy0, []), chans = (\<lambda>_. None), pollers = (\<lambda>_. None), loops = (\<lambda>_. None), curThread = 1,
     loopInThisThread = (\<lambda>_. None), conns = (\<lambda>_. None), numCreated = 0, theAcceptor = None, theServer = None, upDown = [], told = []\<rparr>"

lemma first_client:
  "case start_server busy_os (\<lambda>_. Some ''127.0.0.1'') 0 0 1 \<lparr>sin_port = 1, sin_addr = 1\<rparr> ''Echo'' kNoReusePort 0 None (Some 0) (Some 0) None
      (\<lambda>h l. Inr) worker_ids unheard of
     Some (Inr w) \<Rightarrow> told w = [] \<and> (case sys_run busy_os (noting (echo_app busy_os)) quick_free (\<lambda>n. Inr) [0] [0, 0, 0, 0, 0, 0, 0] (w, \<lambda>_. Idle) of
        Inr (v, acts) \<Rightarrow> told v = [(''Echo-127.0.0.1:256#1'', Up)] \<and> map_option (\<lambda>co. (cState co, cChan co)) (conns v 0) = Some (Connected, 2) \<and>
          {1, 2} \<subseteq> set (active_of (acts 0)) \<and> map_option readCallback (chans v 1) = Some (Some AcceptorHandleRead)
      | _ \<Rightarrow> False)
   | _ \<Rightarrow> False"
  by code_simp

text \<open>The same run, for the witnesses.\<close>

lemma first_client_run:
  obtains v w' acts co where "start_server busy_os (\<lambda>_. Some ''127.0.0.1'') 0 0 1 \<lparr>sin_port = 1, sin_addr = 1\<rparr> ''Echo''
      kNoReusePort 0 None (Some 0) (Some 0) None (\<lambda>h l. Inr) worker_ids unheard = Some (Inr v)"
    "v\<lparr>told := []\<rparr> = v" "sys_run busy_os (noting (echo_app busy_os)) quick_free (\<lambda>n. Inr) [0] [0, 0, 0, 0, 0, 0, 0] (v, \<lambda>_. Idle) = Inr (w', acts)"
    "told w' = [(''Echo-127.0.0.1:256#1'', Up)]" "conns w' 0 = Some co" "cState co = Connected" "cChan co = 2" "{1, 2} \<subseteq> set (active_of (acts 0))"
    "map_option readCallback (chans w' 1) = Some (Some AcceptorHandleRead)"
proof -
  have same: "told v = [] \<Longrightarrow> v\<lparr>told := []\<rparr> = v" for v :: "(toy \<times> fd list) noted_world" by (cases v) simp
  from first_client that same show thesis by (auto split: option.splits sum.splits)
qed

lemma unheard_blank: "blank unheard"
  by (simp add: blank_def unheard_def)

lemma unheard_ids: "ids_ok 0 0 1 (unat (0 :: size_t)) worker_ids (curThread unheard)"
  by (simp add: ids_ok_def all_apart_def)

lemma only_loop: "all_loops 0 (unat (0 :: size_t)) worker_ids = [0]"
  by (simp add: all_loops_def)

theorem callbacks_in_order_witness:
  "\<exists>v w' acts. start_server busy_os (\<lambda>_. Some ''127.0.0.1'') 0 0 1 \<lparr>sin_port = 1, sin_addr = 1\<rparr> ''Echo'' kNoReusePort 0 None (Some 0) (Some 0) None
      (\<lambda>h l. Inr) worker_ids unheard = Some (Inr v) \<and>
    sys_run busy_os (noting (echo_app busy_os)) quick_free (\<lambda>n. Inr) [0] [0, 0, 0, 0, 0, 0, 0] (v, \<lambda>_. Idle) = Inr (w', acts) \<and>
    heard w' ''Echo-127.0.0.1:256#1'' = [Up] \<and> (\<forall>n. protocol (heard w' n))"
proof -
  obtain v w' acts co where r: "start_server busy_os (\<lambda>_. Some ''127.0.0.1'') 0 0 1 \<lparr>sin_port = 1, sin_addr = 1\<rparr> ''Echo''
      kNoReusePort 0 None (Some 0) (Some 0) None (\<lambda>h l. Inr) worker_ids unheard = Some (Inr v)"
    "v\<lparr>told := []\<rparr> = v" "sys_run busy_os (noting (echo_app busy_os)) quick_free (\<lambda>n. Inr) [0] [0, 0, 0, 0, 0, 0, 0] (v, \<lambda>_. Idle) = Inr (w', acts)"
    "told w' = [(''Echo-127.0.0.1:256#1'', Up)]" by (rule first_client_run)
  have i: "init_keeps (toy_ep \<circ> fst) (set \<circ> snd) (\<lambda>h l. Inr) None" by (simp add: init_keeps_def)
  have "(\<forall>n. protocol (heard w' n)) \<and> (\<forall>i co. conns w' i = Some co \<longrightarrow> (heard w' (cName co) = [] \<longleftrightarrow> cState co = Connecting))"
    by (rule callbacks_in_order [OF busy_server_kernel busy_boot_kernel echo_keeps [OF busy_server_kernel] echo_calm user_skip_keeps
        _ quick_free_allocates i unheard_blank _ unheard_ids _ _ r(1), unfolded only_loop r(2), OF _ _ _ _ r(3)])
      (simp_all add: calm_refl)
  with r show ?thesis by (simp add: heard_def)
qed

theorem connections_wired_witness:
  "\<exists>v w' acts co. start_server busy_os (\<lambda>_. Some ''127.0.0.1'') 0 0 1 \<lparr>sin_port = 1, sin_addr = 1\<rparr> ''Echo'' kNoReusePort 0 None (Some 0) (Some 0) None
      (\<lambda>h l. Inr) worker_ids unheard = Some (Inr v) \<and>
    sys_run busy_os (noting (echo_app busy_os)) quick_free (\<lambda>n. Inr) [0] [0, 0, 0, 0, 0, 0, 0] (v, \<lambda>_. Idle) = Inr (w', acts) \<and>
    conns w' 0 = Some co \<and> cState co = Connected \<and> wired (toy_ep \<circ> fst) (set \<circ> snd) w' 0 co"
proof -
  obtain v w' acts co where r: "start_server busy_os (\<lambda>_. Some ''127.0.0.1'') 0 0 1 \<lparr>sin_port = 1, sin_addr = 1\<rparr> ''Echo''
      kNoReusePort 0 None (Some 0) (Some 0) None (\<lambda>h l. Inr) worker_ids unheard = Some (Inr v)"
    "sys_run busy_os (noting (echo_app busy_os)) quick_free (\<lambda>n. Inr) [0] [0, 0, 0, 0, 0, 0, 0] (v, \<lambda>_. Idle) = Inr (w', acts)"
    "conns w' 0 = Some co" "cState co = Connected" by (rule first_client_run)
  have i: "init_keeps (toy_ep \<circ> fst) (set \<circ> snd) (\<lambda>h l. Inr) None" by (simp add: init_keeps_def)
  have "(\<forall>i co. conns w' i = Some co \<longrightarrow> wired (toy_ep \<circ> fst) (set \<circ> snd) w' i co) \<and>
    (\<forall>i j co co'. conns w' i = Some co \<and> conns w' j = Some co' \<and> i \<noteq> j \<longrightarrow> cSock co \<noteq> cSock co' \<and> cName co \<noteq> cName co')"
    by (rule connections_wired [OF busy_server_kernel busy_boot_kernel noting_keeps [OF echo_keeps [OF busy_server_kernel]] user_skip_keeps
        quick_free_allocates i unheard_blank _ unheard_ids _ _ r(1), unfolded only_loop, OF _ _ _ r(2)]) simp_all
  with r show ?thesis by blast
qed

theorem loop_affinity_witness:
  "\<exists>v w' acts co. start_server busy_os (\<lambda>_. Some ''127.0.0.1'') 0 0 1 \<lparr>sin_port = 1, sin_addr = 1\<rparr> ''Echo'' kNoReusePort 0 None (Some 0) (Some 0) None
      (\<lambda>h l. Inr) worker_ids unheard = Some (Inr v) \<and>
    sys_run busy_os (noting (echo_app busy_os)) quick_free (\<lambda>n. Inr) [0] [0, 0, 0, 0, 0, 0, 0] (v, \<lambda>_. Idle) = Inr (w', acts) \<and>
    conns w' 0 = Some co \<and> cState co = Connected \<and> {1, cChan co} \<subseteq> set (active_of (acts 0)) \<and> cLoop co = 0 \<and>
    (\<exists>ch. chans w' 1 = Some ch \<and> readCallback ch = Some AcceptorHandleRead \<and> chLoop ch = 0)"
proof -
  obtain v w' acts co where r: "start_server busy_os (\<lambda>_. Some ''127.0.0.1'') 0 0 1 \<lparr>sin_port = 1, sin_addr = 1\<rparr> ''Echo''
      kNoReusePort 0 None (Some 0) (Some 0) None (\<lambda>h l. Inr) worker_ids unheard = Some (Inr v)"
    "sys_run busy_os (noting (echo_app busy_os)) quick_free (\<lambda>n. Inr) [0] [0, 0, 0, 0, 0, 0, 0] (v, \<lambda>_. Idle) = Inr (w', acts)"
    "conns w' 0 = Some co" "cState co = Connected" "cChan co = 2" "{1, 2} \<subseteq> set (active_of (acts 0))"
    "map_option readCallback (chans w' 1) = Some (Some AcceptorHandleRead)" by (rule first_client_run)
  from r(7) obtain ch where ch: "chans w' 1 = Some ch" "readCallback ch = Some AcceptorHandleRead" by auto
  have i: "init_keeps (toy_ep \<circ> fst) (set \<circ> snd) (\<lambda>h l. Inr) None" by (simp add: init_keeps_def)
  have "(\<forall>m i co. conns w' i = Some co \<and> cChan co \<in> set (active_of (acts m)) \<longrightarrow> cLoop co = m) \<and>
    (\<forall>m c ch. chans w' c = Some ch \<and> c \<in> set (active_of (acts m)) \<longrightarrow>
      chLoop ch = m \<and> (Some AcceptorHandleRead \<in> callbacks_of ch \<longrightarrow> m = 0))"
    using loop_affinity [OF busy_server_kernel busy_boot_kernel noting_keeps [OF echo_keeps [OF busy_server_kernel]] user_skip_keeps
        quick_free_allocates i unheard_blank _ unheard_ids _ _ r(1), unfolded only_loop, OF _ _ _ r(2)] by simp
  with r ch show ?thesis by (intro exI [of _ v] exI [of _ w'] exI [of _ acts] exI [of _ co]) auto
qed

end
