(* ===== verification/Logging.thy ===== *)
theory Logging
  imports InetAddress ThreadPool "HOL-Library.Signed_Division"
begin

text \<open>
  \<open>Timestamp.hpp\<close> and \<open>Logger.hpp\<close>. A timestamp is its number of microseconds; \<open>localtime_r\<close> and the clock are
  parameters. \<open>fmt\<close> is a third-party library: a formatted message is the text it yields, or the text of its error. The logger's
  state is its level and the lines written to \<open>std::cerr\<close>, and a line is its level, its time and its message.
\<close>

subsection \<open>Timestamp\<close>

record tm =
  tm_year :: int
  tm_mon :: int
  tm_mday :: int
  tm_hour :: int
  tm_min :: int
  tm_sec :: int

text \<open>\<open>std::setw(n)\<close> with \<open>std::setfill('0')\<close>: the fill goes in front of the sign.\<close>

definition setw :: "nat \<Rightarrow> int \<Rightarrow> string" where
  "setw n x = (let s = decimal_int x in replicate (n - length s) (CHR ''0'') @ s)"

text \<open>\<open>/\<close> and \<open>%\<close> on \<open>int64_t\<close> truncate towards zero.\<close>

definition toString :: "(int \<Rightarrow> tm) \<Rightarrow> timestamp \<Rightarrow> string" where
  "toString localtime t =
     (let seconds = t sdiv 1000000; microseconds = t smod 1000000; tm = localtime seconds
      in setw 4 (tm_year tm + 1900) @ ''-'' @ setw 2 (tm_mon tm + 1) @ ''-'' @ setw 2 (tm_mday tm) @ '' '' @
         setw 2 (tm_hour tm) @ '':'' @ setw 2 (tm_min tm) @ '':'' @ setw 2 (tm_sec tm) @ ''.'' @
         setw 6 microseconds)"

lemma decimal_step: "10 \<le> n \<Longrightarrow> decimal n = decimal (n div 10) @ [digit (n mod 10)]"
  by (subst decimal.simps) simp

lemma length_decimal: "n < 10 ^ k \<Longrightarrow> 0 < k \<Longrightarrow> length (decimal n) \<le> k"
proof (induction k arbitrary: n)
  case (Suc k)
  show ?case
  proof (cases "n < 10")
    case False
    then have "0 < k" using Suc.prems(1) by (cases k) auto
    moreover have "n div 10 < 10 ^ k" using Suc.prems(1) by (simp add: less_mult_imp_div_less mult.commute)
    ultimately show ?thesis using Suc.IH False by (simp add: decimal_step)
  qed (subst decimal.simps, simp)
qed simp

lemma length_setw: "0 \<le> x \<Longrightarrow> x < 10 ^ n \<Longrightarrow> 0 < n \<Longrightarrow> length (setw n x) = n"
proof -
  assume "0 \<le> x" "x < 10 ^ n" "0 < n"
  then have "length (decimal (nat x)) \<le> n" by (intro length_decimal) (simp_all add: nat_less_iff)
  with \<open>0 \<le> x\<close> show ?thesis by (simp add: setw_def decimal_int_def Let_def)
qed

lemma undecimal_zeros: "undecimal (replicate k (CHR ''0'') @ s) = undecimal s"
  by (induction k) (simp_all add: undecimal_def)

lemma undecimal_setw: "0 \<le> x \<Longrightarrow> undecimal (setw n x) = nat x"
  by (simp add: setw_def decimal_int_def Let_def undecimal_zeros)

subsection \<open>Logger\<close>

datatype log_level = Debug | Error | Fatal

fun level_no :: "log_level \<Rightarrow> nat" where
  "level_no Debug = 0" | "level_no Error = 1" | "level_no Fatal = 2"

lemma level_no_inj: "level_no a = level_no b \<Longrightarrow> a = b"
  by (cases a; cases b) simp_all

instantiation log_level :: linorder
begin

definition less_eq_log_level :: "log_level \<Rightarrow> log_level \<Rightarrow> bool" where
  "less_eq_log_level a b \<longleftrightarrow> level_no a \<le> level_no b"

definition less_log_level :: "log_level \<Rightarrow> log_level \<Rightarrow> bool" where
  "less_log_level a b \<longleftrightarrow> level_no a < level_no b"

instance
  by standard (auto simp: less_eq_log_level_def less_log_level_def level_no_inj)

end

record logger =
  current_level :: log_level
  cerr :: "(log_level \<times> string \<times> string) list"

definition new_logger :: logger where
  "new_logger = \<lparr>current_level = Debug, cerr = []\<rparr>"

definition set_level :: "log_level \<Rightarrow> logger \<Rightarrow> logger" where
  "set_level l lg = lg\<lparr>current_level := l\<rparr>"

definition get_level :: "logger \<Rightarrow> log_level" where
  "get_level lg = current_level lg"

text \<open>What \<open>output\<close> writes for a line.\<close>

definition level_str :: "log_level \<Rightarrow> string" where
  "level_str l = (case l of Debug \<Rightarrow> ''[DEBUG]'' | Error \<Rightarrow> ''[ERROR]'' | Fatal \<Rightarrow> ''[FATAL]'')"

definition line_text :: "log_level \<times> string \<times> string \<Rightarrow> string" where
  "line_text = (\<lambda>(l, now, msg). level_str l @ '' '' @ now @ '' | '' @ msg @ [CHR 0x0A])"

definition log_output :: "string \<Rightarrow> log_level \<Rightarrow> string \<Rightarrow> logger \<Rightarrow> logger" where
  "log_output now l msg lg = lg\<lparr>cerr := cerr lg @ [(l, now, msg)]\<rparr>"

text \<open>\<open>log(level, fmt, args...)\<close>; \<open>m\<close> is what \<open>fmt::format\<close> does: \<open>Inl\<close> the text of a \<open>format_error\<close>.\<close>

definition log_msg :: "string \<Rightarrow> log_level \<Rightarrow> string + string \<Rightarrow> logger \<Rightarrow> logger" where
  "log_msg now l m lg =
     (if l < current_level lg then lg
      else case m of
             Inr msg \<Rightarrow> log_output now l msg lg
           | Inl e \<Rightarrow> log_output now Error (''[FORMAT_ERROR] '' @ e) lg)"

definition log_text :: "string \<Rightarrow> string \<Rightarrow> logger \<Rightarrow> logger" where
  "log_text now msg lg = log_output now Debug msg lg"

text \<open>A \<open>LogStream\<close> collects pieces and logs them when it is destroyed, unless there is nothing to log.\<close>

definition log_stream :: "string \<Rightarrow> log_level \<Rightarrow> string list \<Rightarrow> logger \<Rightarrow> logger" where
  "log_stream now l pieces lg = (if concat pieces = [] then lg else log_msg now l (Inr (concat pieces)) lg)"

text \<open>The macros. In LOG_DEBUG a format error is not caught.\<close>

definition LOG_DEBUG :: "string \<Rightarrow> string + string \<Rightarrow> logger \<Rightarrow> string + logger" where
  "LOG_DEBUG now m lg =
     (if get_level lg \<le> Debug then (case m of Inl e \<Rightarrow> Inl e | Inr msg \<Rightarrow> Inr (log_stream now Debug [msg] lg))
      else Inr lg)"

definition LOG_ERROR :: "string \<Rightarrow> string + string \<Rightarrow> logger \<Rightarrow> logger" where
  "LOG_ERROR now m lg = log_msg now Error m lg"

text \<open>LOG_FATAL logs and then ends the process; the second component is what is left on \<open>std::cerr\<close>.\<close>

definition LOG_FATAL :: "string \<Rightarrow> string + string \<Rightarrow> logger \<Rightarrow> fault \<times> logger" where
  "LOG_FATAL now m lg = (ExitFailure, log_msg now Fatal m lg)"

section \<open>Properties\<close>

definition valid_tm :: "tm \<Rightarrow> bool" where
  "valid_tm d \<longleftrightarrow> 0 \<le> tm_year d + 1900 \<and> tm_year d + 1900 < 10000 \<and> 0 \<le> tm_mon d \<and> tm_mon d < 12 \<and>
     0 < tm_mday d \<and> tm_mday d \<le> 31 \<and> 0 \<le> tm_hour d \<and> tm_hour d < 24 \<and> 0 \<le> tm_min d \<and> tm_min d < 60 \<and>
     0 \<le> tm_sec d \<and> tm_sec d \<le> 60"

lemma sdiv_nonneg: "0 \<le> t \<Longrightarrow> t sdiv 1000000 = t div (1000000 :: int)" "0 \<le> t \<Longrightarrow> t smod 1000000 = t mod (1000000 :: int)"
  by (cases "t = 0"; simp add: signed_divide_int_def signed_modulo_int_def)+

text \<open>
  C31. The text of a timestamp. For a time from 1970 on whose calendar date has a four-digit year, \<open>toString\<close>
  yields 26 characters in the fixed layout \<open>YYYY-MM-DD HH:MM:SS.uuuuuu\<close>, and reading the digits at these
  places gives back the calendar fields and the microseconds: nothing is dropped, shifted or run together.
\<close>

theorem toString_layout:
  assumes "0 \<le> t" and "valid_tm d" and "d = localtime (t div 1000000)" and "s = toString localtime t"
  shows "length s = 26 \<and>
    undecimal (take 4 s) = nat (tm_year d + 1900) \<and> undecimal (take 2 (drop 5 s)) = nat (tm_mon d + 1) \<and>
    undecimal (take 2 (drop 8 s)) = nat (tm_mday d) \<and> undecimal (take 2 (drop 11 s)) = nat (tm_hour d) \<and>
    undecimal (take 2 (drop 14 s)) = nat (tm_min d) \<and> undecimal (take 2 (drop 17 s)) = nat (tm_sec d) \<and>
    undecimal (drop 20 s) = nat (t mod 1000000) \<and>
    s ! 4 = CHR ''-'' \<and> s ! 7 = CHR ''-'' \<and> s ! 10 = CHR '' '' \<and> s ! 13 = CHR '':'' \<and> s ! 16 = CHR '':'' \<and> s ! 19 = CHR ''.''"
proof -
  have l: "length (setw 4 (tm_year d + 1900)) = 4" "length (setw 2 (tm_mon d + 1)) = 2" "length (setw 2 (tm_mday d)) = 2"
    "length (setw 2 (tm_hour d)) = 2" "length (setw 2 (tm_min d)) = 2" "length (setw 2 (tm_sec d)) = 2"
    using assms(2) by (auto simp: valid_tm_def intro!: length_setw)
  have u: "length (setw 6 (t mod 1000000)) = 6" by (rule length_setw) simp_all
  have n: "0 \<le> tm_year d + 1900" "0 \<le> tm_mon d + 1" "0 \<le> tm_mday d" "0 \<le> tm_hour d" "0 \<le> tm_min d" "0 \<le> tm_sec d"
    using assms(2) by (auto simp: valid_tm_def)
  have s: "s = setw 4 (tm_year d + 1900) @ ''-'' @ setw 2 (tm_mon d + 1) @ ''-'' @ setw 2 (tm_mday d) @ '' '' @
         setw 2 (tm_hour d) @ '':'' @ setw 2 (tm_min d) @ '':'' @ setw 2 (tm_sec d) @ ''.'' @ setw 6 (t mod 1000000)"
    unfolding assms(4) toString_def Let_def sdiv_nonneg [OF assms(1)] assms(3) ..
  show ?thesis unfolding s by (simp add: l u n nth_append undecimal_setw)
qed

theorem toString_layout_witness:
  "length (toString (\<lambda>x. \<lparr>tm_year = 125, tm_mon = 5, tm_mday = 1, tm_hour = 12, tm_min = 0, tm_sec = 7\<rparr>) 7000042) = 26 \<and>
   undecimal (drop 20 (toString (\<lambda>x. \<lparr>tm_year = 125, tm_mon = 5, tm_mday = 1, tm_hour = 12, tm_min = 0, tm_sec = 7\<rparr>) 7000042)) = 42"
  using toString_layout [of 7000042 "\<lparr>tm_year = 125, tm_mon = 5, tm_mday = 1, tm_hour = 12, tm_min = 0, tm_sec = 7\<rparr>"
      "\<lambda>x. \<lparr>tm_year = 125, tm_mon = 5, tm_mday = 1, tm_hour = 12, tm_min = 0, tm_sec = 7\<rparr>"]
  by (simp add: valid_tm_def)

text \<open>
  A time before 1970 is not written correctly. Division and remainder truncate towards zero, so the
  last second before the epoch is printed as the second 0, and the remainder is negative: the fraction
  has a minus sign after the fill.
\<close>

theorem toString_before_epoch:
  assumes "- 1000000 < t" and "t < 0"
  shows "\<exists>date. toString localtime t = date @ ''.'' @
      replicate (5 - length (decimal (nat (- t)))) (CHR ''0'') @ ''-'' @ decimal (nat (- t)) \<and>
    toString localtime 0 = date @ ''.000000''"
proof -
  have "\<bar>t\<bar> div 1000000 = 0" using assms by (simp add: div_pos_pos_trivial)
  then have m: "t sdiv 1000000 = 0" "t smod 1000000 = t"
    using assms by (simp_all add: signed_divide_int_def signed_modulo_int_def)
  have z: "setw 6 0 = ''000000''" by code_simp
  show ?thesis
    unfolding toString_def Let_def m using assms
    by (simp add: z) (simp add: setw_def decimal_int_def Let_def)
qed

theorem toString_before_epoch_witness:
  "\<exists>date. toString (\<lambda>x. \<lparr>tm_year = 70, tm_mon = 0, tm_mday = 1, tm_hour = 0, tm_min = 0, tm_sec = x\<rparr>) (- 1) = date @ ''.0000-1''"
proof -
  have "decimal 1 = ''1''" by code_simp
  with toString_before_epoch [of "- 1" "\<lambda>x. \<lparr>tm_year = 70, tm_mon = 0, tm_mday = 1, tm_hour = 0, tm_min = 0, tm_sec = x\<rparr>"]
  show ?thesis by (auto simp: numeral_eq_Suc)
qed

text \<open>The line a call writes: a message that cannot be formatted is reported at the level Error.\<close>

fun line :: "string \<times> log_level \<times> (string + string) \<Rightarrow> log_level \<times> string \<times> string" where
  "line (now, l, Inr msg) = (l, now, msg)"
| "line (now, l, Inl e) = (Error, now, ''[FORMAT_ERROR] '' @ e)"

text \<open>
  The level filter. Over any sequence of \<open>log\<close> calls the logger writes one line for each call whose level
  is not below the current one, in the order of the calls, and none for the others; a format error does not
  escape but is written as a line of its own. The level is not changed. A fatal message is always
  written before LOG_FATAL ends the process.
\<close>

theorem log_filter:
  "cerr (fold (\<lambda>(now, l, m). log_msg now l m) calls lg) =
     cerr lg @ map line (filter (\<lambda>(now, l, m). current_level lg \<le> l) calls) \<and>
   current_level (fold (\<lambda>(now, l, m). log_msg now l m) calls lg) = current_level lg \<and>
   cerr (snd (LOG_FATAL now m lg)) = cerr lg @ [line (now, Fatal, m)]"
proof -
  have step: "cerr (log_msg now l m lg) = cerr lg @ (if current_level lg \<le> l then [line (now, l, m)] else [])"
    "current_level (log_msg now l m lg) = current_level lg" for now l m and lg
    by (auto simp: log_msg_def log_output_def not_less split: sum.splits)
  have "cerr (fold (\<lambda>(now, l, m). log_msg now l m) calls lg) =
     cerr lg @ map line (filter (\<lambda>(now, l, m). current_level lg \<le> l) calls) \<and>
   current_level (fold (\<lambda>(now, l, m). log_msg now l m) calls lg) = current_level lg"
    by (induction calls arbitrary: lg) (auto simp: step)
  moreover have "current_level lg \<le> Fatal" by (cases "current_level lg") (simp_all add: less_eq_log_level_def)
  ultimately show ?thesis by (simp add: LOG_FATAL_def step)
qed

end
