(* ===== verification/Spec2Isabelle.thy ===== *)
theory Spec2Isabelle
  imports ConnectionTrace ReactorProps LoopProps LoopThreads PoolProps WorkerHandshake ServerProps CallbackProps Logging
begin

text \<open>
  EduMuduo, a TCP server library in the reactor style, as HOL definitions, with the theorems that make
  it correct and those that show where it is not.

  \<^bold>\<open>The program.\<close> One event loop runs per thread (\<open>EventLoop\<close>). Each turn of a loop asks its poller
  (\<open>EPollPoller\<close>, over \<open>epoll\<close>) which descriptors are ready, lets the \<open>Channel\<close> of each of them call the
  callbacks for the returned events, and then runs the functors that were queued for this thread. A
  \<open>TcpServer\<close> has an \<open>Acceptor\<close> on the base loop and an \<open>EventLoopThreadPool\<close> of workers; an accepted
  descriptor becomes a \<open>TcpConnection\<close> on the next loop of the pool, and the two threads hand it
  over through the functor queue and an eventfd. A connection has two \<open>Buffer\<close>s, a state machine (Connecting,
  Connected, Disconnecting, Disconnected) and callbacks of the application; \<open>test.cpp\<close> is an echo server.

  \<^bold>\<open>The state.\<close> State is passed explicitly. Objects live in stores indexed by their address, and the
  state grows by record extension in the order of the components: the kernel and the channels
  (\<open>chan_world\<close>), the pollers (\<open>poll_world\<close>), the loops and the executing thread (\<open>loop_world\<close>), the
  connections (\<open>conn_world\<close>), the count of threads (\<open>pool_world\<close>), acceptor and server (\<open>server_world\<close>),
  the notes of the example (\<open>echo_world\<close>). An operation is polymorphic in what extends its part. The
  functors and event callbacks the code stores as closures are values of the datatypes \<open>functor_cb\<close> and
  \<open>event_cb\<close>, one constructor per lambda with what it captures; \<open>run_callback\<close> and \<open>run_functor\<close> run them
  all, \<open>server_turn\<close> is a turn of a loop with everything attached, and \<open>live_turn\<close> that turn with the pointers
  counted, so that connections are freed where the code frees them. \<open>sys_step\<close> is a step of one loop among
  several: it polls, handles the events of one channel, swaps its queue out, runs one functor, or gives up one pointer of
  the batch it ran; \<open>sys_run\<close> takes the steps of a schedule, which is any list of loops. An operation that can fail
  returns a \<open>result\<close>: the new state, or the fault (the process exits or is killed, \<open>std::terminate\<close>, an exception, undefined
  behaviour). Indices and counters are words of the width in the code.

  \<^bold>\<open>The theories.\<close>
  \<^item> \<open>Prelude\<close>: word types, faults and results, sequencing, shared facts on lists and words.
  \<^item> \<open>Os\<close>: the system calls as a parameter (the record \<open>os\<close> over an abstract kernel), the contract of
    \<open>epoll_ctl\<close>, and a concrete kernel for the witnesses.
  \<^item> \<open>Buffer\<close> (\<open>Buffer.hpp\<close>, \<open>Buffer.cpp\<close>): every operation, its invariant and functional behaviour.
    \<open>ByteQueue\<close>: the interface \<open>byte_queue\<close> the connections rely on, and its interpretation.
  \<^item> \<open>Channel\<close>, \<open>Poller\<close> (\<open>Channel\<close>, \<open>Poller\<close>, \<open>EPollPoller\<close>): masks, dispatch, registration.
    \<open>PollerInv\<close>: the agreement \<open>poller_sync\<close> of the poller's map, the channels' indices and the kernel's
    interest list, kept by every operation. \<open>Registry\<close>: the interface \<open>event_registry\<close> and its
    interpretation. \<open>ReactorProps\<close>: the properties.
  \<^item> \<open>EventLoop\<close> (\<open>EventLoop\<close>): construction, the queue, the loop. \<open>LoopInv\<close>, \<open>LoopProps\<close>: what the executing
    thread sees. \<open>LoopThreads\<close>: the same calls cut at each access to what the threads share, as a step
    relation of the loop's thread and any number of others.
  \<^item> \<open>TcpConnection\<close> (\<open>TcpConnection.hpp\<close>, part of \<open>Socket.hpp\<close>). \<open>ConnectionInv\<close>: the invariant of a connection
    and the contract of \<open>write\<close>. \<open>ConnectionSend\<close>, \<open>ConnectionHandlers\<close>: lemmas for each handler.
    \<open>Samples\<close>: a concrete state. \<open>ConnectionProps\<close>, \<open>ConnectionLife\<close>: the properties. \<open>ConnectionTrace\<close>: runs of
    calls of a connection refine an abstract pipe of bytes.
  \<^item> \<open>InetAddress\<close>; \<open>ThreadPool\<close> (\<open>CurrentThread\<close>, \<open>Thread\<close>, \<open>EventLoopThread\<close>, \<open>EventLoopThreadPool\<close>) with \<open>PoolProps\<close>;
    \<open>WorkerHandshake\<close>: \<open>startLoop\<close>, \<open>threadFunc\<close> and the destructor as steps of two threads that interleave;
    \<open>Server\<close> (\<open>Acceptor\<close>, the rest of \<open>Socket.hpp\<close>, \<open>TcpServer\<close>) with \<open>ServerProps\<close>.
  \<^item> \<open>Footprint\<close>: relations on states that an operation keeps because its parts do, as three interfaces that extend
    each other: \<open>reactor_relation\<close> (channels and pollers), \<open>step_relation\<close> (loops and connections as well) and \<open>closing_relation\<close>
    (all of a loop's operations). Interpretations: the connections, the threads and the write sides that stay as they are.
  \<^item> \<open>EchoServer\<close> (\<open>test.cpp\<close>) with \<open>EchoProps\<close>; \<open>Logging\<close> (\<open>Logger.hpp\<close>, \<open>Timestamp.hpp\<close>).
  \<^item> \<open>Lifetime\<close>: who holds a \<open>TcpConnectionPtr\<close>, and a turn of the loop that frees what no one holds.
    \<open>SafetyInv\<close>: the typing invariant \<open>world_ok\<close> of a server with any number of loops -- every pointer leads to a live
    object that fits it, every live connection is held -- and what an operation may change of it. \<open>SafetyStep\<close>:
    the single updates; \<open>SafetyConn\<close>, \<open>SafetyEvents\<close>, \<open>SafetyServer\<close>, \<open>SafetyAccept\<close>: one lemma for each handler;
    \<open>SafetyTurn\<close>: polling and dispatch; \<open>SafetyBatch\<close>: taking the queue and running a functor.
  \<^item> \<open>MultiLoop\<close>: the loops of the process as a system of steps, its invariant \<open>sys_ok\<close>, and that every step keeps it.
    \<open>SafetyBoot\<close>: construction and start of a server with its workers (\<open>start_server\<close>) establish it. \<open>SystemTurn\<close>: the steps of
    one loop, taken without another in between, are a turn. \<open>MultiProps\<close>: the properties.
  \<^item> \<open>CallbackLog\<close>: an application that notes what it is told of each connection (\<open>noting\<close>, in \<open>noted_world\<close>), and the relation
    \<open>calm\<close>, another interpretation of \<open>closing_relation\<close>: what every handler does to the notes, but for the two that make a
    connection. \<open>CallbackOrder\<close>: the invariant \<open>spoken\<close> of notes and connections, kept by every step of every loop. \<open>CallbackProps\<close>: the
    property, and a run with a client for the witnesses.
  \<^item> \<open>MemorySafety\<close>, \<open>SafetyStart\<close>: the server with one loop, turn by turn, with its batch freed at the end.
    \<open>SafetyProps\<close>: its properties, the kernel of the witnesses, and the two ways in which memory safety is lost.

  \<^bold>\<open>What is shown.\<close> The buffer is a queue of bytes, for any run of calls. Under the contract of
  \<open>epoll_ctl\<close> the kernel monitors exactly the masks of the channels. Sending extends the outgoing stream, the
  bytes the kernel took followed by the output buffer, by exactly the data; \<open>handleWrite\<close> preserves the stream only
  if the kernel takes all or nothing, since the bytes it took are removed twice. Shutting down waits for the
  output. No wakeup is lost and no functor dropped, repeated or overtaken, in any interleaving; a \<open>quit\<close>
  or a functor that comes before \<open>loop()\<close> is not so lucky. A connection is created on the next loop of the
  pool under a new name, closed with one notification and removed once; the example server returns what
  it is sent. Bounds: the counters of the pool and of the names wrap at 32 bits, and the thread
  count is cut to an \<open>int\<close>. A server with any number of workers is memory safe: from its construction on, no
  interleaving of its loops follows a null or dangling pointer, whatever the kernel reports, until the server's loop has
  taken 2^32 - 2 steps, each of which may use up a name; every live connection keeps an owner, and is handled in the
  thread of its loop only. Its socket is its own, and is monitored by the poller of its loop only, for the events its channel asks for. In any
  interleaving the application hears of each name first that it is up, once, and only then anything else. A name that repeats takes a live connection out of the map, and a functor that another thread queues with
  a bare \<open>this\<close> can outlive its connection. \<open>startLoop\<close> returns a live loop, and the destructor of a worker joins it
  unless it sets the quit flag before the worker's \<open>loop()\<close> has cleared it; when it comes late enough, the rest of its \<open>quit\<close> races
  with the end of the loop and may touch it when it is gone. An exception of a worker's initialisation callback leaves \<open>startLoop\<close> waiting for ever.
  Errors: a failed \<open>accept\<close>, an exception in a worker, a refused \<open>epoll_ctl\<close>, a broken pipe.

  \<^bold>\<open>Hypotheses.\<close> What the code needs of the kernel is stated as named contracts, each the documented
  behaviour of the call: \<open>epoll_contract\<close> and \<open>epoll_resources\<close> for \<open>epoll_ctl\<close>, \<open>kernel_ok\<close> for \<open>write\<close> and the
  other calls of a connection (and that SIGPIPE is ignored, which is inherited by the process and set nowhere in the code; where it is
  not, \<open>write\<close> to a reset connection is the fault \<open>Killed\<close>, as in \<open>reset_client_ends_server\<close>), \<open>fin_contract\<close> for \<open>shutdown\<close>, \<open>readv_contract\<close>, \<open>eventfd_contract\<close>, and for memory safety
  \<open>server_kernel\<close> and \<open>boot_kernel\<close> (a descriptor the kernel returns was not open, a closed one is no longer
  monitored, \<open>epoll_wait\<close> reports each registered descriptor once with its own data). The kernels \<open>toy_os\<close> and \<open>busy_os\<close>
  satisfy them. \<open>app_keeps\<close> and \<open>user_keeps\<close> ask of the application that its handlers keep the invariant, as
  those of the example do, and that it holds no \<open>TcpConnectionPtr\<close> of its own; \<open>app_calm\<close> that on an established connection they go through the
  operations of the library and make no connection themselves, as those of the example do; \<open>allocates\<close> asks of
  \<open>new\<close> a free address. Sizes of buffers are bounded by \<open>max_size\<close>, that of \<open>std::vector\<close>.

  \<^bold>\<open>Termination.\<close> \<open>loop()\<close> may run for ever, so it is a partial function into \<open>option\<close>; that it returns is
  proved for every run in which a turn leaves the quit flag set. \<open>startLoop\<close> may wait for ever, which is
  \<open>None\<close>: its wait (\<open>wait_published\<close>) is a partial function too. Everything else is total; there is no fuel.

  \<^bold>\<open>What is not modelled.\<close> The log output of the components (the logger itself is, in \<open>Logging\<close>); failing
  allocation; references to a connection that the application keeps for itself. In the interleaving of the loops of a server
  a handler and a functor are one step each, and the calls of \<open>send\<close> and \<open>shutdown\<close> that other threads make are not
  steps (\<open>queued_this_dangles\<close> shows what they can do); the finer interleaving of queue, eventfd and quit flag is that of
  \<open>LoopThreads\<close>, and the end of a loop that of \<open>WorkerHandshake\<close>. Not modelled either: the
  memory order of the atomics (steps interleave sequentially); the logger's mutex, whose effect is that a line is
  written in one piece; \<open>Default.hpp\<close>, which no file includes; the generated files under \<open>build\<close>.
\<close>

end
